(* ===== verification/Prelude.thy ===== *)
theory Prelude
  imports Main "HOL-Library.Word" "HOL-Library.Monad_Syntax"
begin

text \<open>
  What every component shares: the C integer types as words of their width, the
  collections of rewrite rules the component proofs use (\<open>mem_simps\<close> for reads of
  written memory, \<open>frame_simps\<close> for the fields an operation leaves alone,
  \<open>align_simps\<close> for address arithmetic), and the facts on aligned addresses.
  A partial operation returns an \<open>option\<close>: None stands for undefined behaviour, for a
  processor fault, or for a loop that does not end.
\<close>

unbundle bit_operations_syntax

type_synonym u8 = "8 word"
type_synonym u16 = "16 word"
type_synonym u32 = "32 word"
type_synonym u64 = "64 word"
type_synonym mem = "u64 \<Rightarrow> u8"

named_theorems mem_simps
named_theorems frame_simps
named_theorems align_simps

section \<open>Lists\<close>

lemma drop_eq_ConsD: "drop k xs = y # ys \<Longrightarrow> k < length xs \<and> xs ! k = y \<and> drop (Suc k) xs = ys"
  by (metis Cons_nth_drop_Suc drop_all list.distinct(1) list.inject not_le)

section \<open>Word counters\<close>

lemma unat_inc: "i < n \<Longrightarrow> unat (i + 1 :: 'a::len word) = Suc (unat i)"
  by unat_arith

lemma inc_decreases: "i < n \<Longrightarrow> unat n - unat (i + 1 :: 'a::len word) < unat n - unat i"
  by (simp add: unat_inc word_less_nat_alt)

section \<open>Aligned addresses\<close>

definition aligned :: "nat \<Rightarrow> 'a::len word \<Rightarrow> bool" where
  "aligned n a \<longleftrightarrow> take_bit n a = 0"

lemma word_take_bit_add: "take_bit n (take_bit n a + take_bit n b) = take_bit n (a + b :: 'a::len word)"
  by (transfer, metis (no_types, opaque_lifting) take_bit_add take_bit_take_bit min.commute)

lemma word_take_bit_diff: "take_bit n (take_bit n a - take_bit n b) = take_bit n (a - b :: 'a::len word)"
  by (cases "n < LENGTH('a)")
    (transfer, simp_all add: take_bit_take_bit min_def take_bit_diff take_bit_word_eq_self)

lemma take_bit_less_self: "x < 2 ^ n \<Longrightarrow> n < LENGTH('a) \<Longrightarrow> take_bit n (x :: 'a::len word) = x"
  by (simp add: take_bit_eq_mod word_less_nat_alt word_unat_eq_iff unat_mod)

lemma take_bit_aligned_add:
  assumes "aligned n a" and "x < 2 ^ n" and "n < LENGTH('a)"
  shows "take_bit n (a + x :: 'a::len word) = x"
proof -
  have "take_bit n (a + x) = take_bit n (take_bit n a + take_bit n x)"
    by (simp only: word_take_bit_add)
  then show ?thesis
    using assms by (simp add: aligned_def take_bit_less_self)
qed

lemma aligned_add_eq_iff:
  assumes "aligned n a" "aligned n b" "x < 2 ^ n" "y < 2 ^ n" "n < LENGTH('a)"
  shows "(a + x :: 'a::len word) = b + y \<longleftrightarrow> a = b \<and> x = y"
proof
  assume eq: "a + x = b + y"
  have "x = y"
    using assms eq take_bit_aligned_add [of n a x] take_bit_aligned_add [of n b y] by simp
  with eq show "a = b \<and> x = y" by simp
qed simp

lemma aligned_add: "aligned n a \<Longrightarrow> aligned n b \<Longrightarrow> aligned n (a + b :: 'a::len word)"
proof -
  assume "aligned n a" "aligned n b"
  then have "take_bit n (take_bit n a + take_bit n b) = 0" by (simp add: aligned_def)
  then show ?thesis by (simp only: aligned_def word_take_bit_add)
qed

lemma aligned_mono: "aligned n a \<Longrightarrow> k \<le> n \<Longrightarrow> aligned k (a :: 'a::len word)"
proof -
  assume "aligned n a" "k \<le> n"
  then have "take_bit k (take_bit n a) = take_bit k 0" by (simp add: aligned_def)
  with \<open>k \<le> n\<close> show ?thesis by (simp add: aligned_def take_bit_take_bit min_def)
qed

lemma aligned_zero [simp]: "aligned n 0"
  by (simp add: aligned_def)

lemma aligned_push_bit: "k \<le> n \<Longrightarrow> aligned k (push_bit n a :: 'a::len word)"
  by (simp add: aligned_def take_bit_push_bit)

lemma aligned_diff: "aligned n a \<Longrightarrow> aligned n b \<Longrightarrow> aligned n (a - b :: 'a::len word)"
proof -
  assume "aligned n a" "aligned n b"
  then have "take_bit n (take_bit n a - take_bit n b) = 0" by (simp add: aligned_def)
  then show ?thesis by (simp only: aligned_def word_take_bit_diff)
qed

text \<open>Eight-byte slots of a page: slot \<open>i\<close> of page \<open>p\<close> stands at \<open>p + 8 * i\<close>.\<close>

lemma aligned_slot: "aligned 3 (8 * i :: u64)"
proof -
  have "(8 * i :: u64) = push_bit 3 i" by (simp add: push_bit_eq_mult)
  then show ?thesis by (metis aligned_push_bit order_refl)
qed

lemma slot_less_page: "i < 512 \<Longrightarrow> (8 * i :: u64) < 2 ^ 12"
  by (simp add: word_less_nat_alt unat_word_ariths)

lemma slot_inject: "i < 512 \<Longrightarrow> j < 512 \<Longrightarrow> (8 * i :: u64) = 8 * j \<longleftrightarrow> i = j"
  by (auto simp: word_less_nat_alt word_unat_eq_iff unat_word_ariths)

lemma slot_eq_iff:
  assumes "aligned 12 p" "aligned 12 q" "i < 512" "j < 512"
  shows "(p + 8 * i :: u64) = q + 8 * j \<longleftrightarrow> p = q \<and> i = j"
  using aligned_add_eq_iff [OF assms(1,2) slot_less_page [OF assms(3)] slot_less_page [OF assms(4)]]
  by (simp add: slot_inject assms)

lemma slot_zero_eq_iff:
  assumes "aligned 12 p" "aligned 12 q" "j < 512"
  shows "(p :: u64) = q + 8 * j \<longleftrightarrow> p = q \<and> j = 0"
  using slot_eq_iff [of p q 0 j] assms by auto

lemma slot_aligned3: "aligned 12 p \<Longrightarrow> aligned 3 (p + 8 * i :: u64)"
  by (intro aligned_add aligned_slot) (rule aligned_mono, assumption, simp)

end
