(* ===== verification/Machine.thy ===== *)
theory Machine
  imports Prelude
begin

text \<open>
  The machine the kernel runs on: byte memory, the control registers CR0 and CR3, the I/O ports
  (\<open>kernel/port.h\<close>) and the privileged instructions of the inline assembly, recorded as
  events. Memory is indexed by kernel virtual address: the kernel reaches every physical
  page through the bootloader's direct map, at physical address plus \<open>hhdm_base\<close>
  (\<open>ptov\<close> in \<open>kernel/page.c\<close>), and its own image and the bootloader's structures at
  their higher-half addresses. The devices behind the ports are not part of the
  repository: they are a field of the state, a function from the port traffic so far
  (newest first) and the port read to the byte the device answers.
\<close>

datatype io_event = Out u16 u8 | In u16 u8

datatype cpu_event = Invlpg u64 | Write_cr3 u64 | Sti | Lidt u16 u64 | Lgdt u16 u64 | Ltr u16

record machine =
  mem :: mem
  cr0 :: u64
  cr3 :: u64
  hhdm_base :: u64
  cpu_events :: "cpu_event list"
  io_trace :: "io_event list"
  devices :: "io_event list \<Rightarrow> u16 \<Rightarrow> u8"

section \<open>Ports\<close>

definition outb :: "u16 \<Rightarrow> u8 \<Rightarrow> 'a machine_scheme \<Rightarrow> 'a machine_scheme" where
  "outb port val s = s\<lparr>io_trace := Out port val # io_trace s\<rparr>"

definition inb :: "u16 \<Rightarrow> 'a machine_scheme \<Rightarrow> u8 \<times> 'a machine_scheme" where
  "inb port s = (let ret = devices s (io_trace s) port
                 in (ret, s\<lparr>io_trace := In port ret # io_trace s\<rparr>))"

definition io_wait :: "'a machine_scheme \<Rightarrow> 'a machine_scheme" where
  "io_wait s = outb 0x80 0 s"

section \<open>Control registers and the direct map\<close>

definition read_cr0 :: "'a machine_scheme \<Rightarrow> u64" where
  "read_cr0 s = cr0 s"

definition write_cr0 :: "u64 \<Rightarrow> 'a machine_scheme \<Rightarrow> 'a machine_scheme" where
  "write_cr0 value s = s\<lparr>cr0 := value\<rparr>"

definition read_cr3 :: "'a machine_scheme \<Rightarrow> u64" where
  "read_cr3 s = cr3 s"

definition write_cr3 :: "u64 \<Rightarrow> 'a machine_scheme \<Rightarrow> 'a machine_scheme" where
  "write_cr3 value s = s\<lparr>cr3 := value, cpu_events := Write_cr3 value # cpu_events s\<rparr>"

definition invalidate_tlb :: "u64 \<Rightarrow> 'a machine_scheme \<Rightarrow> 'a machine_scheme" where
  "invalidate_tlb virtual_address s = s\<lparr>cpu_events := Invlpg virtual_address # cpu_events s\<rparr>"

definition ptov :: "'a machine_scheme \<Rightarrow> u64 \<Rightarrow> u64" where
  "ptov s paddr = paddr + hhdm_base s"

section \<open>Little-endian loads and stores of up to eight bytes\<close>

fun load_bytes :: "mem \<Rightarrow> u64 \<Rightarrow> nat \<Rightarrow> u64" where
  "load_bytes m a 0 = 0"
| "load_bytes m a (Suc n) = ucast (m a) OR push_bit 8 (load_bytes m (a + 1) n)"

fun store_bytes :: "mem \<Rightarrow> u64 \<Rightarrow> u64 \<Rightarrow> nat \<Rightarrow> mem" where
  "store_bytes m a v 0 = m"
| "store_bytes m a v (Suc n) = store_bytes (m(a := ucast v)) (a + 1) (drop_bit 8 v) n"

definition load64 :: "mem \<Rightarrow> u64 \<Rightarrow> u64" where
  "load64 m a = load_bytes m a 8"

definition store64 :: "mem \<Rightarrow> u64 \<Rightarrow> u64 \<Rightarrow> mem" where
  "store64 m a v = store_bytes m a v 8"

definition load32 :: "mem \<Rightarrow> u64 \<Rightarrow> u32" where
  "load32 m a = ucast (load_bytes m a 4)"

definition load16 :: "mem \<Rightarrow> u64 \<Rightarrow> u16" where
  "load16 m a = ucast (load_bytes m a 2)"

lemma load_bytes_cong:
  "(\<And>i. i < n \<Longrightarrow> m (a + of_nat i) = m' (a + of_nat i)) \<Longrightarrow> load_bytes m a n = load_bytes m' a n"
proof (induction n arbitrary: a)
  case (Suc n)
  have "m a = m' a" using Suc.prems [of 0] by simp
  moreover have "load_bytes m (a + 1) n = load_bytes m' (a + 1) n"
    by (rule Suc.IH) (use Suc.prems [of "Suc _"] in \<open>simp add: add.assoc\<close>)
  ultimately show ?case by simp
qed simp

lemma load_bytes_prefix: "n \<le> k \<Longrightarrow> load_bytes m a n = take_bit (8 * n) (load_bytes m a k)"
proof (induction n arbitrary: a k)
  case (Suc n)
  then obtain j where k: "k = Suc j" "n \<le> j" by (cases k) auto
  have "load_bytes m a (Suc n) = ucast (m a) OR push_bit 8 (take_bit (8 * n) (load_bytes m (a + 1) j))"
    using Suc.IH [OF k(2)] by simp
  also have "\<dots> = take_bit (8 * Suc n) (load_bytes m a k)"
    by (rule bit_word_eqI) (auto simp: k bit_simps dest: bit_imp_le_length)
  finally show ?case .
qed simp

lemma store_bytes_out:
  "(\<And>i. i < n \<Longrightarrow> b \<noteq> a + of_nat i) \<Longrightarrow> store_bytes m a v n b = m b"
proof (induction n arbitrary: m a v)
  case (Suc n)
  have "b \<noteq> a" using Suc.prems [of 0] by simp
  moreover have "store_bytes (m(a := ucast v)) (a + 1) (drop_bit 8 v) n b = (m(a := ucast v)) b"
    by (rule Suc.IH) (use Suc.prems [of "Suc _"] in \<open>simp add: add.assoc\<close>)
  ultimately show ?case by simp
qed simp

lemma store_bytes_below:
  assumes "n < 2 ^ 64"
  shows "store_bytes m (a + 1) v n a = m a"
proof (rule store_bytes_out)
  fix i assume "i < n"
  then have "unat (1 + of_nat i :: u64) = Suc i"
    using assms by (simp add: unat_of_nat flip: of_nat_Suc)
  then have "(1 + of_nat i :: u64) \<noteq> 0" by (metis nat.distinct(1) unat_0)
  then show "a \<noteq> a + 1 + of_nat i" by (simp add: add.assoc)
qed

lemma load_store_same:
  assumes "n \<le> 8"
  shows "load_bytes (store_bytes m a v n) a n = take_bit (8 * n) v"
  using assms
proof (induction n arbitrary: m a v)
  case (Suc n)
  have low: "store_bytes (m(a := ucast v)) (a + 1) (drop_bit 8 v) n a = ucast v"
    using Suc.prems by (subst store_bytes_below) simp_all
  have "load_bytes (store_bytes m a v (Suc n)) a (Suc n) =
        ucast (ucast v :: u8) OR push_bit 8 (take_bit (8 * n) (drop_bit 8 v))"
    using Suc by (simp add: low)
  also have "\<dots> = take_bit (8 * Suc n) v"
    by (rule bit_word_eqI) (auto simp: bit_simps)
  finally show ?case .
qed simp

lemma load64_store64_same [simp]: "load64 (store64 m a v) a = v"
  by (simp add: load64_def store64_def load_store_same take_bit_word_eq_self)

lemma aligned8_apart:
  fixes a b :: u64
  assumes "aligned 3 a" "aligned 3 b" "a \<noteq> b" "i < 8" "j < 8"
  shows "a + of_nat i \<noteq> b + of_nat j"
proof -
  have "(of_nat i :: u64) < 2 ^ 3" "(of_nat j :: u64) < 2 ^ 3"
    using assms(4,5) by (simp_all add: word_less_nat_alt unat_of_nat)
  then show ?thesis
    using aligned_add_eq_iff [OF assms(1,2), of "of_nat i" "of_nat j"] assms(3) by simp
qed

lemma load64_store64 [mem_simps]:
  assumes "aligned 3 a" "aligned 3 b"
  shows "load64 (store64 m a v) b = (if a = b then v else load64 m b)"
proof (cases "a = b")
  case False
  have "load_bytes (store_bytes m a v 8) b 8 = load_bytes m b 8"
    by (rule load_bytes_cong, rule store_bytes_out)
      (use aligned8_apart [OF assms(2,1)] False in auto)
  with False show ?thesis by (simp add: load64_def store64_def)
qed simp

lemma store64_other_byte:
  "(\<And>i. i < 8 \<Longrightarrow> b \<noteq> a + of_nat i) \<Longrightarrow> store64 m a v b = m b"
  unfolding store64_def by (rule store_bytes_out)

lemma load64_cong:
  "(\<And>i. i < 8 \<Longrightarrow> m (a + of_nat i) = m' (a + of_nat i)) \<Longrightarrow> load64 m a = load64 m' a"
  unfolding load64_def by (rule load_bytes_cong)

section \<open>Frame rules\<close>

lemma outb_frame [frame_simps, simp]:
  "mem (outb p v s) = mem s" "cr0 (outb p v s) = cr0 s" "cr3 (outb p v s) = cr3 s" "hhdm_base (outb p v s) = hhdm_base s"
  "cpu_events (outb p v s) = cpu_events s" "devices (outb p v s) = devices s"
  "machine.more (outb p v s) = machine.more s"
  "io_trace (outb p v s) = Out p v # io_trace s"
  by (simp_all add: outb_def)

lemma inb_frame [frame_simps, simp]:
  "mem (snd (inb p s)) = mem s" "cr0 (snd (inb p s)) = cr0 s" "cr3 (snd (inb p s)) = cr3 s"
  "hhdm_base (snd (inb p s)) = hhdm_base s" "cpu_events (snd (inb p s)) = cpu_events s"
  "devices (snd (inb p s)) = devices s" "machine.more (snd (inb p s)) = machine.more s"
  by (simp_all add: inb_def Let_def)

lemma cr3_ops_frame [frame_simps, simp]:
  "mem (write_cr3 v s) = mem s" "hhdm_base (write_cr3 v s) = hhdm_base s"
  "mem (invalidate_tlb a s) = mem s" "hhdm_base (invalidate_tlb a s) = hhdm_base s"
  "cr0 (write_cr3 v s) = cr0 s" "cr0 (invalidate_tlb a s) = cr0 s"
  "cr3 (invalidate_tlb a s) = cr3 s" "machine.more (write_cr3 v s) = machine.more s"
  "machine.more (invalidate_tlb a s) = machine.more s" "cr3 (write_cr3 v s) = v"
  by (simp_all add: write_cr3_def invalidate_tlb_def)

end
