(* ===== verification/PageTable.thy ===== *)
theory PageTable
  imports Machine
begin

text \<open>
  Page-table entries (\<open>pt_entry_t\<close> of \<open>kernel/page.c\<close>) and the processor's own page walk.
  An entry is a packed struct of bit fields over one 64-bit word; the record mirrors the
  struct and \<open>pte_of_word\<close>/\<open>word_of_pte\<close> are the layout, lowest bit first. The walk
  \<open>mmu_walk\<close> is what the x86-64 processor does with CR3 and the tables in memory (with
  the large-page bit of levels 3 and 2); it gives the meaning of an access of the kernel
  to a user address, \<open>vread\<close> and \<open>vwrite\<close>. Cached translations are not modelled: the
  kernel reloads CR3 or executes invlpg after each change of an entry.
\<close>

section \<open>Entries\<close>

record pt_entry =
  pte_present :: bool
  pte_writable :: bool
  pte_user :: bool
  pte_write_through :: bool
  pte_cache_disable :: bool
  pte_accessed :: bool
  pte_dirty :: bool
  pte_page_size :: bool
  pte_unused0 :: "4 word"
  pte_address :: "40 word"
  pte_unused1 :: "11 word"
  pte_no_execute :: bool

definition pte_of_word :: "u64 \<Rightarrow> pt_entry" where
  "pte_of_word w =
     \<lparr>pte_present = bit w 0, pte_writable = bit w 1, pte_user = bit w 2,
      pte_write_through = bit w 3, pte_cache_disable = bit w 4, pte_accessed = bit w 5,
      pte_dirty = bit w 6, pte_page_size = bit w 7, pte_unused0 = ucast (drop_bit 8 w),
      pte_address = ucast (drop_bit 12 w), pte_unused1 = ucast (drop_bit 52 w),
      pte_no_execute = bit w 63\<rparr>"

definition word_of_pte :: "pt_entry \<Rightarrow> u64" where
  "word_of_pte e =
     of_bool (pte_present e) OR push_bit 1 (of_bool (pte_writable e)) OR
     push_bit 2 (of_bool (pte_user e)) OR push_bit 3 (of_bool (pte_write_through e)) OR
     push_bit 4 (of_bool (pte_cache_disable e)) OR push_bit 5 (of_bool (pte_accessed e)) OR
     push_bit 6 (of_bool (pte_dirty e)) OR push_bit 7 (of_bool (pte_page_size e)) OR
     push_bit 8 (ucast (pte_unused0 e)) OR push_bit 12 (ucast (pte_address e)) OR
     push_bit 52 (ucast (pte_unused1 e)) OR push_bit 63 (of_bool (pte_no_execute e))"

lemma bit_flag:
  "k < 64 \<Longrightarrow> bit (push_bit k (of_bool b) :: u64) n \<longleftrightarrow> n = k \<and> b"
  by (auto simp: bit_push_bit_iff bit_1_iff)

lemma bit_flag0: "bit (of_bool b :: u64) n \<longleftrightarrow> n = 0 \<and> b"
  by (auto simp: bit_of_bool_iff)

lemma bit_field:
  fixes x :: "'l::len word"
  assumes "k + LENGTH('l) \<le> 64"
  shows "bit (push_bit k (ucast x) :: u64) n \<longleftrightarrow> k \<le> n \<and> n < k + LENGTH('l) \<and> bit x (n - k)"
  using assms by (auto simp: bit_push_bit_iff bit_ucast_iff dest: bit_imp_le_length)

lemma bit_word_of_pte:
  "bit (word_of_pte e) n \<longleftrightarrow>
     n = 0 \<and> pte_present e \<or> n = 1 \<and> pte_writable e \<or> n = 2 \<and> pte_user e \<or>
     n = 3 \<and> pte_write_through e \<or> n = 4 \<and> pte_cache_disable e \<or> n = 5 \<and> pte_accessed e \<or>
     n = 6 \<and> pte_dirty e \<or> n = 7 \<and> pte_page_size e \<or>
     8 \<le> n \<and> n < 8 + LENGTH(4) \<and> bit (pte_unused0 e) (n - 8) \<or>
     12 \<le> n \<and> n < 12 + LENGTH(40) \<and> bit (pte_address e) (n - 12) \<or>
     52 \<le> n \<and> n < 52 + LENGTH(11) \<and> bit (pte_unused1 e) (n - 52) \<or> n = 63 \<and> pte_no_execute e"
proof -
  have "LENGTH(4) = 4" "LENGTH(40) = 40" "LENGTH(11) = 11" by simp_all
  then have f: "bit (push_bit 8 (ucast (pte_unused0 e)) :: u64) n \<longleftrightarrow> 8 \<le> n \<and> n < 8 + LENGTH(4) \<and> bit (pte_unused0 e) (n - 8)"
    "bit (push_bit 12 (ucast (pte_address e)) :: u64) n \<longleftrightarrow> 12 \<le> n \<and> n < 12 + LENGTH(40) \<and> bit (pte_address e) (n - 12)"
    "bit (push_bit 52 (ucast (pte_unused1 e)) :: u64) n \<longleftrightarrow> 52 \<le> n \<and> n < 52 + LENGTH(11) \<and> bit (pte_unused1 e) (n - 52)"
    by (subst bit_field; simp)+
  have g: "bit (push_bit 1 (of_bool b) :: u64) n \<longleftrightarrow> n = 1 \<and> b" "bit (push_bit 2 (of_bool b) :: u64) n \<longleftrightarrow> n = 2 \<and> b"
    "bit (push_bit 3 (of_bool b) :: u64) n \<longleftrightarrow> n = 3 \<and> b" "bit (push_bit 4 (of_bool b) :: u64) n \<longleftrightarrow> n = 4 \<and> b"
    "bit (push_bit 5 (of_bool b) :: u64) n \<longleftrightarrow> n = 5 \<and> b" "bit (push_bit 6 (of_bool b) :: u64) n \<longleftrightarrow> n = 6 \<and> b"
    "bit (push_bit 7 (of_bool b) :: u64) n \<longleftrightarrow> n = 7 \<and> b" "bit (push_bit 63 (of_bool b) :: u64) n \<longleftrightarrow> n = 63 \<and> b"
    for b by (rule bit_flag; simp)+
  show ?thesis
    by (simp only: word_of_pte_def bit_or_iff bit_flag0 f g disj_assoc)
qed

lemma bit_ucast_drop:
  "bit (ucast (drop_bit k w) :: 'b::len word) n \<longleftrightarrow> n < LENGTH('b) \<and> bit (w :: 'a::len word) (k + n)"
  by (auto simp: bit_simps dest: bit_imp_le_length)

lemma pte_of_word_of_pte [simp]: "pte_of_word (word_of_pte e) = e"
proof -
  have f: "ucast (drop_bit 8 (word_of_pte e)) = pte_unused0 e"
    "ucast (drop_bit 12 (word_of_pte e)) = pte_address e"
    "ucast (drop_bit 52 (word_of_pte e)) = pte_unused1 e"
    by (rule bit_word_eqI; simp add: bit_ucast_drop bit_word_of_pte)+
  have "bit (word_of_pte e) 0 = pte_present e" "bit (word_of_pte e) 1 = pte_writable e"
    "bit (word_of_pte e) 2 = pte_user e" "bit (word_of_pte e) 3 = pte_write_through e"
    "bit (word_of_pte e) 4 = pte_cache_disable e" "bit (word_of_pte e) 5 = pte_accessed e"
    "bit (word_of_pte e) 6 = pte_dirty e" "bit (word_of_pte e) 7 = pte_page_size e"
    "bit (word_of_pte e) 63 = pte_no_execute e"
    by (simp_all add: bit_word_of_pte)
  with f show ?thesis
    by (simp add: pte_of_word_def)
qed

lemma word_of_pte_of_word [simp]: "word_of_pte (pte_of_word w) = w"
proof (rule bit_word_eqI)
  fix n assume "n < LENGTH(64)"
  then have "n \<in> {0, 1, 2, 3, 4, 5, 6, 7, 63} \<or> 8 \<le> n \<and> n < 12 \<or> 12 \<le> n \<and> n < 52 \<or> 52 \<le> n \<and> n < 63"
    by simp presburger
  then show "bit (word_of_pte (pte_of_word w)) n = bit w n"
    by (elim disjE insertE emptyE) (auto simp: bit_word_of_pte pte_of_word_def bit_ucast_drop)
qed

text \<open>The physical address an entry holds: \<open>entry.address << 12\<close>, a 64-bit shift.\<close>

definition pte_frame :: "pt_entry \<Rightarrow> u64" where
  "pte_frame e = push_bit 12 (ucast (pte_address e))"

definition get_pte :: "mem \<Rightarrow> u64 \<Rightarrow> u64 \<Rightarrow> pt_entry" where
  "get_pte m table index = pte_of_word (load64 m (table + 8 * index))"

definition set_pte :: "mem \<Rightarrow> u64 \<Rightarrow> u64 \<Rightarrow> pt_entry \<Rightarrow> mem" where
  "set_pte m table index e = store64 m (table + 8 * index) (word_of_pte e)"

lemma aligned_pte_frame [simp]: "aligned 12 (pte_frame e)"
  by (simp add: pte_frame_def aligned_push_bit)

lemma get_set_pte [mem_simps]:
  assumes "aligned 12 t" "aligned 12 t'" "i < 512" "j < 512"
  shows "get_pte (set_pte m t i e) t' j = (if t = t' \<and> i = j then e else get_pte m t' j)"
  using assms by (simp add: get_pte_def set_pte_def load64_store64 slot_aligned3 slot_eq_iff)

lemma pte_frame_of_address:
  assumes "aligned 12 p" "p < 2 ^ 52"
  shows "push_bit 12 (ucast (ucast (drop_bit 12 p) :: 40 word)) = (p :: u64)"
proof (rule bit_word_eqI)
  fix n assume n: "n < LENGTH(64)"
  have low: "\<not> bit p n" if "n < 12"
    using assms(1) that by (metis aligned_def bit_0_eq bit_take_bit_iff bot_apply bot_bool_def)
  have "p = take_bit 52 p" using assms(2) by (simp add: take_bit_less_self)
  then have high: "\<not> bit p n" if "52 \<le> n"
    using that by (metis bit_take_bit_iff not_less)
  show "bit (push_bit 12 (ucast (ucast (drop_bit 12 p) :: 40 word)) :: u64) n = bit p n"
    using n low high by (cases "12 \<le> n \<and> n < 52") (auto simp: bit_field bit_ucast_drop)
qed

section \<open>Indices of a linear address\<close>

text \<open>The array \<open>indices\<close> that \<open>translate\<close> and the \<open>vm_\<close> functions compute.\<close>

definition indices :: "u64 \<Rightarrow> u16 list" where
  "indices address =
     [ucast (address AND 0xFFF), ucast (drop_bit 12 address AND 0x1FF),
      ucast (drop_bit 21 address AND 0x1FF), ucast (drop_bit 30 address AND 0x1FF),
      ucast (drop_bit 39 address AND 0x1FF)]"

definition table_index :: "u64 \<Rightarrow> nat \<Rightarrow> u64" where
  "table_index address i = ucast (indices address ! i)"

lemma and_1FF_less: "(x AND 0x1FF :: u64) < 512"
proof -
  have "x AND 0x1FF = take_bit 9 x" by (simp add: take_bit_eq_mask mask_numeral)
  moreover have "take_bit 9 x < 2 ^ 9" by (simp add: take_bit_eq_mod word_less_nat_alt unat_mod)
  ultimately show ?thesis by simp
qed

lemma ucast_16_small: "x < 512 \<Longrightarrow> ucast (ucast x :: u16) = (x :: u64)"
proof -
  assume "x < 512"
  then have "x < 2 ^ 16" by (simp add: word_less_nat_alt)
  then show ?thesis by (simp add: word_unat_eq_iff unsigned_ucast_eq take_bit_less_self)
qed

lemma table_index_eq:
  "table_index a 1 = drop_bit 12 a AND 0x1FF" "table_index a 2 = drop_bit 21 a AND 0x1FF"
  "table_index a 3 = drop_bit 30 a AND 0x1FF" "table_index a 4 = drop_bit 39 a AND 0x1FF"
  by (simp_all add: table_index_def indices_def ucast_16_small and_1FF_less)

lemma bit_and_1FF: "bit (w AND 0x1FF :: u64) n \<longleftrightarrow> n < 9 \<and> bit w n"
proof -
  have "w AND 0x1FF = take_bit 9 w" by (simp add: take_bit_eq_mask mask_numeral)
  then show ?thesis by (simp add: bit_take_bit_iff)
qed

lemma level_cases: "0 < i \<Longrightarrow> i \<le> 4 \<Longrightarrow> i \<in> {1, 2, 3, 4 :: nat}"
  by auto

lemma table_index_less [simp]: "0 < i \<Longrightarrow> i \<le> 4 \<Longrightarrow> table_index a i < 512"
  by (drule (1) level_cases) (elim insertE emptyE; simp only: table_index_eq and_1FF_less)

lemma bit_table_index:
  "0 < i \<Longrightarrow> i \<le> 4 \<Longrightarrow> bit (table_index a i) n \<longleftrightarrow> n < 9 \<and> bit a (9 * i + 3 + n)"
  by (drule (1) level_cases) (elim insertE emptyE; simp add: table_index_eq bit_and_1FF bit_drop_bit_eq flip: One_nat_def)

text \<open>Two addresses are in the same page of the 48-bit space when their four indices agree.\<close>

definition same_page :: "u64 \<Rightarrow> u64 \<Rightarrow> bool" where
  "same_page a b \<longleftrightarrow> take_bit 36 (drop_bit 12 a) = take_bit 36 (drop_bit 12 b)"

lemma same_page_indices:
  "same_page a b \<longleftrightarrow> (\<forall>i \<in> {1, 2, 3, 4}. table_index a i = table_index b i)"
proof
  assume "same_page a b"
  then have cut: "bit (take_bit 36 (drop_bit 12 a)) n = bit (take_bit 36 (drop_bit 12 b)) n" for n
    by (simp only: same_page_def)
  have bits: "bit a (12 + n) = bit b (12 + n)" if "n < 36" for n
    using that cut [of n] by (simp add: bit_take_bit_iff bit_drop_bit_eq)
  show "\<forall>i \<in> {1, 2, 3, 4}. table_index a i = table_index b i"
  proof
    fix i :: nat assume i: "i \<in> {1, 2, 3, 4}"
    show "table_index a i = table_index b i"
    proof (rule bit_word_eqI)
      fix n
      have "9 * i + 3 + n = 12 + (9 * (i - 1) + n)" "n < 9 \<Longrightarrow> 9 * (i - 1) + n < 36"
        using i by auto
      then show "bit (table_index a i) n = bit (table_index b i) n"
        using i bits [of "9 * (i - 1) + n"] by (subst (1 2) bit_table_index) auto
    qed
  qed
next
  assume eq: "\<forall>i \<in> {1, 2, 3, 4}. table_index a i = table_index b i"
  have "bit a (12 + n) = bit b (12 + n)" if "n < 36" for n
  proof -
    define i where "i = n div 9 + 1"
    have i: "i \<in> {1, 2, 3, 4}" using that by (auto simp: i_def)
    have n: "12 + n = 9 * i + 3 + n mod 9" by (simp add: i_def)
    have "bit (table_index a i) (n mod 9) = bit (table_index b i) (n mod 9)"
      using bspec [OF eq i] by simp
    moreover have "0 < i" "i \<le> 4" using i by auto
    ultimately have "bit a (9 * i + 3 + n mod 9) = bit b (9 * i + 3 + n mod 9)"
      by (simp add: bit_table_index)
    then show ?thesis by (simp only: n)
  qed
  then show "same_page a b"
    unfolding same_page_def
    by (intro bit_word_eqI) (auto simp: bit_take_bit_iff bit_drop_bit_eq)
qed

section \<open>The processor's walk\<close>

record translation =
  tr_phys :: u64
  tr_user :: bool
  tr_writable :: bool
  tr_executable :: bool

text \<open>
  The processor reads the words of the tables by the bit numbers of its manual; it knows
  nothing of the C structure, so a wrong layout of \<open>pt_entry\<close> shows here.
\<close>

definition mmu_frame :: "u64 \<Rightarrow> u64" where
  "mmu_frame w = w AND 0x000FFFFFFFFFF000"

definition mmu_restrict :: "u64 \<Rightarrow> translation \<Rightarrow> translation" where
  "mmu_restrict w t = t\<lparr>tr_user := tr_user t \<and> bit w 2, tr_writable := tr_writable t \<and> bit w 1,
     tr_executable := tr_executable t \<and> \<not> bit w 63\<rparr>"

fun mmu_walk :: "mem \<Rightarrow> u64 \<Rightarrow> u64 \<Rightarrow> nat \<Rightarrow> u64 \<Rightarrow> translation option" where
  "mmu_walk m hhdm va 0 base =
     Some \<lparr>tr_phys = base + (va AND 0xFFF), tr_user = True, tr_writable = True, tr_executable = True\<rparr>"
| "mmu_walk m hhdm va (Suc i) base =
     (let w = load64 m (base + hhdm + 8 * table_index va (Suc i))
      in if \<not> bit w 0 then None
         else if bit w 7 \<and> (i = 1 \<or> i = 2)
         then Some (mmu_restrict w
           \<lparr>tr_phys = (mmu_frame w AND NOT (mask (12 + 9 * i))) OR take_bit (12 + 9 * i) va,
            tr_user = True, tr_writable = True, tr_executable = True\<rparr>)
         else map_option (mmu_restrict w) (mmu_walk m hhdm va i (mmu_frame w)))"

text \<open>The same walk through the structure the kernel declares.\<close>

definition tr_restrict :: "pt_entry \<Rightarrow> translation \<Rightarrow> translation" where
  "tr_restrict e t = t\<lparr>tr_user := tr_user t \<and> pte_user e,
     tr_writable := tr_writable t \<and> pte_writable e,
     tr_executable := tr_executable t \<and> \<not> pte_no_execute e\<rparr>"

lemma mmu_frame_pte: "mmu_frame w = pte_frame (pte_of_word w)"
proof -
  have m: "(0x000FFFFFFFFFF000 :: u64) = push_bit 12 (mask 40)" by (simp add: mask_numeral)
  show ?thesis unfolding mmu_frame_def m pte_frame_def
    by (rule bit_word_eqI) (auto simp: pte_of_word_def bit_simps)
qed

lemma mmu_restrict_pte: "mmu_restrict w = tr_restrict (pte_of_word w)"
  by (simp add: fun_eq_iff mmu_restrict_def tr_restrict_def pte_of_word_def)

lemma mmu_walk_Suc [simp]:
  "mmu_walk m hhdm va (Suc i) base =
     (let e = get_pte m (base + hhdm) (table_index va (Suc i))
      in if \<not> pte_present e then None
         else if pte_page_size e \<and> (i = 1 \<or> i = 2)
         then Some (tr_restrict e
           \<lparr>tr_phys = (pte_frame e AND NOT (mask (12 + 9 * i))) OR take_bit (12 + 9 * i) va,
            tr_user = True, tr_writable = True, tr_executable = True\<rparr>)
         else map_option (tr_restrict e) (mmu_walk m hhdm va i (pte_frame e)))"
proof -
  have "pte_present (pte_of_word w) = bit w 0" "pte_page_size (pte_of_word w) = bit w 7" for w
    by (simp_all add: pte_of_word_def)
  then show ?thesis unfolding mmu_walk.simps(2) get_pte_def mmu_frame_pte mmu_restrict_pte by (simp only: Let_def)
qed

declare mmu_walk.simps(2) [simp del]

definition mmu_translate :: "'a machine_scheme \<Rightarrow> u64 \<Rightarrow> translation option" where
  "mmu_translate s va = mmu_walk (mem s) (hhdm_base s) va 4 (cr3 s AND 0x000FFFFFFFFFF000)"

text \<open>
  A supervisor access: a canonical address of the upper half is the kernel's own, one of
  the lower half is translated, and any other faults. A write to a page that is not
  writable faults when CR0.WP (bit 16) is set.
\<close>

definition lower_half :: "u64 \<Rightarrow> bool" where
  "lower_half a \<longleftrightarrow> drop_bit 47 a = 0"

definition upper_half :: "u64 \<Rightarrow> bool" where
  "upper_half a \<longleftrightarrow> drop_bit 47 a = 0x1FFFF"

definition vaddr :: "'a machine_scheme \<Rightarrow> bool \<Rightarrow> u64 \<Rightarrow> u64 option" where
  "vaddr s write a =
     (if upper_half a then Some a
      else if lower_half a then
        do { t \<leftarrow> mmu_translate s a;
             if write \<and> bit (cr0 s) 16 \<and> \<not> tr_writable t then None
             else Some (ptov s (tr_phys t)) }
      else None)"

definition vread :: "'a machine_scheme \<Rightarrow> u64 \<Rightarrow> u8 option" where
  "vread s a = map_option (mem s) (vaddr s False a)"

definition vwrite :: "u64 \<Rightarrow> u8 \<Rightarrow> 'a machine_scheme \<Rightarrow> 'a machine_scheme option" where
  "vwrite a v s = map_option (\<lambda>k. s\<lparr>mem := (mem s)(k := v)\<rparr>) (vaddr s True a)"

end
