(* ===== verification/AddrSpace.thy ===== *)
theory AddrSpace
  imports PageTable
begin

text \<open>
  The tree of page tables below a root, as the software walks it: \<open>pt_base\<close> is the
  physical address reached after \<open>d\<close> levels (the root for 0, the mapped page for 4) and
  \<open>pt_leaf\<close> the level-1 entry. Only the lower half of the address space is the kernel's
  to change; the upper half belongs to the bootloader. \<open>pt_wf\<close> says that no table is
  reached in two ways, and the two main lemmas say what a new table (\<open>grow_base\<close>) and a
  changed leaf (\<open>leaf_update\<close>) do to every translation.
\<close>

definition depth_index :: "u64 \<Rightarrow> nat \<Rightarrow> u64" where
  "depth_index va d = table_index va (4 - d)"

primrec pt_base :: "mem \<Rightarrow> u64 \<Rightarrow> u64 \<Rightarrow> u64 \<Rightarrow> nat \<Rightarrow> u64 option" where
  "pt_base m h root va 0 = Some root"
| "pt_base m h root va (Suc d) =
     (case pt_base m h root va d of
        None \<Rightarrow> None
      | Some t \<Rightarrow> let e = get_pte m (t + h) (depth_index va d)
                  in if pte_present e then Some (pte_frame e) else None)"

definition pt_leaf :: "mem \<Rightarrow> u64 \<Rightarrow> u64 \<Rightarrow> u64 \<Rightarrow> pt_entry option" where
  "pt_leaf m h root va =
     (case pt_base m h root va 3 of
        None \<Rightarrow> None
      | Some t \<Rightarrow> let e = get_pte m (t + h) (depth_index va 3)
                  in if pte_present e then Some e else None)"

text \<open>How many of the depths 1 to 4 are missing: the pages a mapping has to allocate.\<close>

definition pt_missing :: "mem \<Rightarrow> u64 \<Rightarrow> u64 \<Rightarrow> u64 \<Rightarrow> nat" where
  "pt_missing m h root va = length (filter (\<lambda>d. pt_base m h root va d = None) [1, 2, 3, 4])"

definition pt_tables :: "mem \<Rightarrow> u64 \<Rightarrow> u64 \<Rightarrow> u64 set" where
  "pt_tables m h root = {t. \<exists>va d. lower_half va \<and> d < 4 \<and> pt_base m h root va d = Some t}"

definition agree :: "nat \<Rightarrow> u64 \<Rightarrow> u64 \<Rightarrow> bool" where
  "agree d va va' \<longleftrightarrow> (\<forall>k < d. depth_index va k = depth_index va' k)"

definition no_share :: "mem \<Rightarrow> u64 \<Rightarrow> u64 \<Rightarrow> bool" where
  "no_share m h root \<longleftrightarrow>
     (\<forall>va va' d d' t. lower_half va \<and> lower_half va' \<and> d < 4 \<and> d' < 4 \<and>
        pt_base m h root va d = Some t \<and> pt_base m h root va' d' = Some t \<longrightarrow>
        d = d' \<and> agree d va va')"

definition pt_wf :: "mem \<Rightarrow> u64 \<Rightarrow> u64 \<Rightarrow> bool" where
  "pt_wf m h root \<longleftrightarrow> aligned 12 h \<and> aligned 12 root \<and> no_share m h root"

lemma depth_index_less [simp]: "d < 4 \<Longrightarrow> depth_index va d < 512"
  by (simp add: depth_index_def)

lemma pt_base_aligned: "aligned 12 root \<Longrightarrow> pt_base m h root va d = Some t \<Longrightarrow> aligned 12 t"
  by (cases d) (auto simp: Let_def split: option.splits if_splits)

lemma pt_tables_aligned: "pt_wf m h root \<Longrightarrow> t \<in> pt_tables m h root \<Longrightarrow> aligned 12 t"
  by (auto simp: pt_tables_def pt_wf_def dest: pt_base_aligned)

lemma pt_tables_I: "lower_half va \<Longrightarrow> d < 4 \<Longrightarrow> pt_base m h root va d = Some t \<Longrightarrow> t \<in> pt_tables m h root"
  by (auto simp: pt_tables_def)

lemma root_in_tables: "root \<in> pt_tables m h root"
  by (rule pt_tables_I [of 0 0]) (simp_all add: lower_half_def)

lemma no_shareD:
  assumes "pt_wf m h root" "lower_half va" "lower_half va'" "d < 4" "d' < 4"
    "pt_base m h root va d = Some t" "pt_base m h root va' d' = Some t"
  shows "d = d'" "agree d va va'"
  using assms unfolding pt_wf_def no_share_def by blast+

lemma agree_0 [simp]: "agree 0 a b"
  by (simp add: agree_def)

lemma agree_Suc: "agree (Suc d) a b \<longleftrightarrow> agree d a b \<and> depth_index a d = depth_index b d"
  by (auto simp: agree_def less_Suc_eq)

lemma agree_refl [simp]: "agree d a a"
  by (simp add: agree_def)

lemma agree_sym: "agree d a b \<Longrightarrow> agree d b a"
  by (simp add: agree_def)

lemma agree_trans: "agree d a b \<Longrightarrow> agree d b c \<Longrightarrow> agree d a c"
  by (simp add: agree_def)

lemma agree_mono: "agree d a b \<Longrightarrow> k \<le> d \<Longrightarrow> agree k a b"
  by (simp add: agree_def)

lemma agree_4_same_page: "agree 4 a b \<longleftrightarrow> same_page a b"
  by (auto simp: agree_def same_page_indices depth_index_def less_Suc_eq numeral_eq_Suc)

lemma pt_base_agree: "agree d a b \<Longrightarrow> pt_base m h root a d = pt_base m h root b d"
  by (induction d) (auto simp: agree_Suc split: option.split)

lemma leaf_same_page: "same_page va va' \<Longrightarrow> pt_leaf m h root va' = pt_leaf m h root va"
proof -
  assume "same_page va va'"
  then have "agree 4 va va'" by (simp add: agree_4_same_page)
  then have "agree 3 va va'" "depth_index va 3 = depth_index va' 3" by (auto intro: agree_mono simp: agree_def)
  then show ?thesis using pt_base_agree [of 3 va va' m h root] by (simp add: pt_leaf_def split: option.split)
qed

lemma pt_base_None_mono: "pt_base m h root va d = None \<Longrightarrow> d \<le> k \<Longrightarrow> pt_base m h root va k = None"
  by (induction k) (auto simp: le_Suc_eq)

lemma pt_base_cong:
  assumes "\<And>k t. k < d \<Longrightarrow> pt_base m h root va k = Some t \<Longrightarrow>
    get_pte m' (t + h) (depth_index va k) = get_pte m (t + h) (depth_index va k)"
  shows "pt_base m' h root va d = pt_base m h root va d"
  using assms
proof (induction d)
  case (Suc d)
  then have "pt_base m' h root va d = pt_base m h root va d" by simp
  then show ?case using Suc.prems [of d] by (auto split: option.split)
qed simp

section \<open>A new table\<close>

text \<open>
  \<open>m'\<close> is \<open>m\<close> with a table at \<open>N\<close> hung into the free slot that \<open>va\<close> uses in the table
  \<open>T\<close> at depth \<open>d\<close>.
\<close>

definition grows :: "mem \<Rightarrow> mem \<Rightarrow> u64 \<Rightarrow> u64 \<Rightarrow> u64 \<Rightarrow> nat \<Rightarrow> u64 \<Rightarrow> u64 \<Rightarrow> bool" where
  "grows m m' h root va d T N \<longleftrightarrow>
     lower_half va \<and> d < 3 \<and> pt_base m h root va d = Some T \<and>
     \<not> pte_present (get_pte m (T + h) (depth_index va d)) \<and>
     pte_present (get_pte m' (T + h) (depth_index va d)) \<and>
     pte_frame (get_pte m' (T + h) (depth_index va d)) = N \<and>
     (\<forall>t j. t \<in> pt_tables m h root \<and> j < 512 \<and> (t \<noteq> T \<or> j \<noteq> depth_index va d) \<longrightarrow>
        get_pte m' (t + h) j = get_pte m (t + h) j) \<and>
     (\<forall>j < 512. \<not> pte_present (get_pte m' (N + h) j)) \<and>
     N \<notin> pt_tables m h root"

lemma grow_base:
  assumes wf: "pt_wf m h root" and g: "grows m m' h root va d T N" and low: "lower_half va'" and "k \<le> 4"
  shows "pt_base m' h root va' k =
    (if k \<le> d \<or> \<not> agree (Suc d) va va' then pt_base m h root va' k
     else if k = Suc d then Some N else None)"
  using \<open>k \<le> 4\<close>
proof (induction k)
  case (Suc k)
  note g' = g [unfolded grows_def]
  have IH: "pt_base m' h root va' k =
    (if k \<le> d \<or> \<not> agree (Suc d) va va' then pt_base m h root va' k
     else if k = Suc d then Some N else None)"
    using Suc by simp
  have k: "k < 4" using Suc.prems by simp
  have other: "get_pte m' (t + h) (depth_index va' k) = get_pte m (t + h) (depth_index va' k)"
    if t: "pt_base m h root va' k = Some t" and ne: "k \<noteq> d \<or> \<not> agree (Suc d) va va'" for t
  proof -
    have "t \<noteq> T \<or> depth_index va' k \<noteq> depth_index va d"
    proof (rule ccontr)
      assume "\<not> ?thesis"
      then have eq: "t = T" "depth_index va' k = depth_index va d" by auto
      then have "d = k" "agree d va va'"
        using no_shareD [OF wf _ low _ k, of va d T] g' t by auto
      with eq ne show False by (simp add: agree_Suc)
    qed
    then show ?thesis
      using g' pt_tables_I [OF low k t] k by auto
  qed
  consider (keep) "k \<noteq> d" "k \<le> d \<or> \<not> agree (Suc d) va va'" | (at) "k = d" "agree (Suc d) va va'"
    | (off) "k = d" "\<not> agree (Suc d) va va'" | (below) "d < k" "agree (Suc d) va va'"
    by fastforce
  then show ?case
  proof cases
    case keep
    then show ?thesis using IH other by (auto split: option.split)
  next
    case at
    then have "pt_base m h root va' k = Some T"
      using pt_base_agree [OF agree_mono, of "Suc d" va va' d] g' by simp
    then show ?thesis using at IH g' by (simp add: agree_Suc)
  next
    case off
    then show ?thesis using IH other by (auto split: option.split)
  next
    case below
    then show ?thesis using IH g' k by auto
  qed
qed simp

lemma grow_tables:
  assumes "pt_wf m h root" "grows m m' h root va d T N"
  shows "pt_tables m' h root = insert N (pt_tables m h root)"
proof
  show "pt_tables m' h root \<subseteq> insert N (pt_tables m h root)"
  proof
    fix t assume "t \<in> pt_tables m' h root"
    then obtain va' k where k: "lower_half va'" "k < 4" "pt_base m' h root va' k = Some t"
      by (auto simp: pt_tables_def)
    then have "pt_base m h root va' k = Some t \<or> t = N"
      using grow_base [OF assms k(1), of k] by (simp split: if_splits)
    then show "t \<in> insert N (pt_tables m h root)" using pt_tables_I [OF k(1,2)] by blast
  qed
  have d: "d < 3" "lower_half va" using assms(2) by (simp_all add: grows_def)
  then have "pt_base m' h root va (Suc d) = Some N"
    using grow_base [OF assms, of va "Suc d"] by simp
  then have N: "N \<in> pt_tables m' h root" using d by (intro pt_tables_I [of va "Suc d"]) simp_all
  have "t \<in> pt_tables m' h root" if mem: "t \<in> pt_tables m h root" for t
  proof -
    obtain va' k where k: "lower_half va'" "k < 4" "pt_base m h root va' k = Some t"
      using mem unfolding pt_tables_def by blast
    have "pt_base m h root va' (Suc d) = None" if "agree (Suc d) va va'"
      using that assms(2) pt_base_agree [of "Suc d" va va' m h root] by (simp add: grows_def)
    then have "k \<le> d \<or> \<not> agree (Suc d) va va'"
      using k(3) pt_base_None_mono [of m h root va' "Suc d" k] by fastforce
    then have "pt_base m' h root va' k = Some t"
      using grow_base [OF assms k(1), of k] k by auto
    then show ?thesis using k by (intro pt_tables_I)
  qed
  with N show "insert N (pt_tables m h root) \<subseteq> pt_tables m' h root" by blast
qed

lemma grow_wf:
  assumes wf: "pt_wf m h root" and g: "grows m m' h root va d T N"
  shows "pt_wf m' h root"
proof -
  have N: "N \<notin> pt_tables m h root" using g by (simp add: grows_def)
  have "k = k' \<and> agree k a b"
    if ab: "lower_half a" "lower_half b" "k < 4" "k' < 4"
      and t: "pt_base m' h root a k = Some t" "pt_base m' h root b k' = Some t" for a b k k' t
  proof -
    have old: "pt_base m h root x j = Some t \<and> t \<noteq> N \<or> j = Suc d \<and> agree (Suc d) va x \<and> t = N"
      if x: "lower_half x" "j < 4" "pt_base m' h root x j = Some t" for x j
    proof (cases "j \<le> d \<or> \<not> agree (Suc d) va x")
      case True
      then have "pt_base m h root x j = Some t" using grow_base [OF wf g x(1), of j] x by simp
      then show ?thesis using N pt_tables_I [OF x(1,2)] by blast
    next
      case False
      then show ?thesis using grow_base [OF wf g x(1), of j] x by (simp split: if_splits)
    qed
    consider "pt_base m h root a k = Some t" "pt_base m h root b k' = Some t"
      | "k = Suc d" "k' = Suc d" "agree (Suc d) va a" "agree (Suc d) va b"
      using old [OF ab(1,3) t(1)] old [OF ab(2,4) t(2)] by blast
    then show ?thesis
    proof cases
      case 1
      then show ?thesis using no_shareD [OF wf ab] by blast
    next
      case 2
      then show ?thesis using agree_trans [OF agree_sym] by blast
    qed
  qed
  then show ?thesis
    using wf unfolding pt_wf_def no_share_def by blast
qed

lemma grow_leaf:
  assumes wf: "pt_wf m h root" and g: "grows m m' h root va d T N" and low: "lower_half va'"
  shows "pt_leaf m' h root va' = pt_leaf m h root va'"
proof (cases "agree (Suc d) va va'")
  case True
  have d: "d < 3" using g by (simp add: grows_def)
  have "pt_base m h root va' (Suc d) = None"
    using True g pt_base_agree [of "Suc d" va va' m h root] by (simp add: grows_def)
  then have old: "pt_leaf m h root va' = None"
    using pt_base_None_mono [of m h root va' "Suc d" 3] d by (simp add: pt_leaf_def)
  have "pt_leaf m' h root va' = None"
  proof (cases "d = 2")
    case True
    then have "pt_base m' h root va' 3 = Some N"
      using grow_base [OF wf g low, of 3] \<open>agree (Suc d) va va'\<close> by simp
    then show ?thesis using g by (simp add: pt_leaf_def grows_def)
  next
    case False
    then have "pt_base m' h root va' 3 = None"
      using grow_base [OF wf g low, of 3] \<open>agree (Suc d) va va'\<close> d by simp
    then show ?thesis by (simp add: pt_leaf_def)
  qed
  with old show ?thesis by simp
next
  case False
  then have base: "pt_base m' h root va' 3 = pt_base m h root va' 3"
    using grow_base [OF wf g low, of 3] by simp
  have "get_pte m' (t + h) (depth_index va' 3) = get_pte m (t + h) (depth_index va' 3)"
    if "pt_base m h root va' 3 = Some t" for t
  proof -
    have "t \<noteq> T"
      using no_shareD(1) [OF wf _ low, of va d 3 T] g that by (auto simp: grows_def)
    then show ?thesis
      using g pt_tables_I [OF low _ that] by (auto simp: grows_def)
  qed
  then show ?thesis using base by (simp add: pt_leaf_def split: option.split)
qed

lemma grow_missing:
  assumes wf: "pt_wf m h root" and g: "grows m m' h root va d T N"
  shows "pt_missing m h root va = 4 - d" "pt_missing m' h root va = 3 - d"
proof -
  have d: "d < 3" "lower_half va" using g by (simp_all add: grows_def)
  have old: "pt_base m h root va k = None \<longleftrightarrow> d < k" if "k \<le> 4" for k
  proof
    show "d < k" if "pt_base m h root va k = None"
      using that g pt_base_None_mono [of m h root va k d] by (fastforce simp: grows_def not_less)
    have "pt_base m h root va (Suc d) = None" using g by (simp add: grows_def)
    then show "pt_base m h root va k = None" if "d < k"
      using that pt_base_None_mono [of m h root va "Suc d" k] by simp
  qed
  have new: "pt_base m' h root va k = None \<longleftrightarrow> Suc d < k" if "k \<le> 4" for k
    using grow_base [OF wf g d(2) that] old [OF that] by auto
  have "d = 0 \<or> d = 1 \<or> d = 2" using d by auto
  then show "pt_missing m h root va = 4 - d" "pt_missing m' h root va = 3 - d"
    using old [of 1] old [of 2] old [of 3] old [of 4] new [of 1] new [of 2] new [of 3] new [of 4]
    by (auto simp add: pt_missing_def simp del: pt_base.simps One_nat_def)
qed

section \<open>A changed leaf\<close>

text \<open>\<open>m'\<close> is \<open>m\<close> with only the level-1 entry of \<open>va\<close>, in table \<open>T\<close>, replaced.\<close>

definition leaf_changes :: "mem \<Rightarrow> mem \<Rightarrow> u64 \<Rightarrow> u64 \<Rightarrow> u64 \<Rightarrow> u64 \<Rightarrow> bool" where
  "leaf_changes m m' h root va T \<longleftrightarrow>
     lower_half va \<and> pt_base m h root va 3 = Some T \<and>
     (\<forall>t j. t \<in> pt_tables m h root \<and> j < 512 \<and> (t \<noteq> T \<or> j \<noteq> depth_index va 3) \<longrightarrow>
        get_pte m' (t + h) j = get_pte m (t + h) j)"

lemma leaf_base:
  assumes wf: "pt_wf m h root" and c: "leaf_changes m m' h root va T" and low: "lower_half va'" and "k \<le> 3"
  shows "pt_base m' h root va' k = pt_base m h root va' k"
proof (rule pt_base_cong)
  fix j t assume "j < k" and t: "pt_base m h root va' j = Some t"
  then have j: "j < 3" using \<open>k \<le> 3\<close> by simp
  then have "t \<noteq> T" using no_shareD(1) [OF wf _ low, of va 3 j T] c t by (auto simp: leaf_changes_def)
  then show "get_pte m' (t + h) (depth_index va' j) = get_pte m (t + h) (depth_index va' j)"
    using c j pt_tables_I [OF low _ t] by (auto simp: leaf_changes_def)
qed

lemma leaf_tables:
  assumes "pt_wf m h root" "leaf_changes m m' h root va T"
  shows "pt_tables m' h root = pt_tables m h root"
  using leaf_base [OF assms] by (force simp: pt_tables_def)

lemma leaf_wf:
  assumes "pt_wf m h root" "leaf_changes m m' h root va T"
  shows "pt_wf m' h root"
proof -
  have base: "pt_base m' h root va d = pt_base m h root va d" if "lower_half va" "d < 4" for va d
    using leaf_base [OF assms that(1), of d] that(2) by simp
  show ?thesis
    using assms(1) unfolding pt_wf_def no_share_def by (metis base)
qed

lemma leaf_update:
  assumes wf: "pt_wf m h root" and c: "leaf_changes m m' h root va T" and low: "lower_half va'"
  shows "pt_leaf m' h root va' =
    (if same_page va va'
     then let e = get_pte m' (T + h) (depth_index va 3) in if pte_present e then Some e else None
     else pt_leaf m h root va')"
proof -
  have base: "pt_base m' h root va' 3 = pt_base m h root va' 3" by (rule leaf_base [OF wf c low]) simp
  show ?thesis
  proof (cases "same_page va va'")
    case True
    then have "agree 4 va va'" by (simp add: agree_4_same_page)
    then have "agree 3 va va'" "depth_index va 3 = depth_index va' 3" by (simp_all add: agree_def)
    then have "pt_base m h root va' 3 = Some T" "depth_index va 3 = depth_index va' 3"
      using pt_base_agree [of 3 va va' m h root] c by (simp_all add: leaf_changes_def)
    then show ?thesis using True base by (simp add: pt_leaf_def)
  next
    case False
    have "get_pte m' (t + h) (depth_index va' 3) = get_pte m (t + h) (depth_index va' 3)"
      if t: "pt_base m h root va' 3 = Some t" for t
    proof -
      have "t \<noteq> T \<or> depth_index va' 3 \<noteq> depth_index va 3"
      proof (rule ccontr)
        assume "\<not> ?thesis"
        then have "agree 3 va va'" "depth_index va 3 = depth_index va' 3"
          using no_shareD(2) [OF wf _ low, of va 3 3 T] c t by (auto simp: leaf_changes_def)
        then have "agree 4 va va'" using agree_Suc [of 3 va va'] by simp
        with False show False by (simp add: agree_4_same_page)
      qed
      then show ?thesis using c pt_tables_I [OF low _ t] by (auto simp: leaf_changes_def)
    qed
    with False base show ?thesis by (simp add: pt_leaf_def split: option.split)
  qed
qed

end
