(* ===== verification/CMemory.thy ===== *)
theory CMemory
  imports Machine
begin

text \<open>
  \<open>stdlib/memory.c\<close>: \<open>memset\<close> and \<open>memcpy\<close> as the byte loops they are, with their
  closed forms. The counter of \<open>memcpy\<close> is a C int compared with a 64-bit size: its
  increment past 2147483647 is undefined and is the result None here.
\<close>

section \<open>memset\<close>

function memset_loop :: "mem \<Rightarrow> u64 \<Rightarrow> u32 \<Rightarrow> u64 \<Rightarrow> u64 \<Rightarrow> mem" where
  "memset_loop m current c len i =
     (if i < len then memset_loop (m(current + i := ucast c)) current c len (i + 1) else m)"
  by pat_completeness auto
termination
  by (relation "measure (\<lambda>(m, p, c, len, i). unat len - unat i)") (simp_all add: inc_decreases)

declare memset_loop.simps [simp del]

definition memset :: "mem \<Rightarrow> u64 \<Rightarrow> u32 \<Rightarrow> u64 \<Rightarrow> mem" where
  "memset m arr c len = memset_loop m arr c len 0"

lemma memset_loop_eq:
  "memset_loop m p c len i b = (if i \<le> b - p \<and> b - p < len then ucast c else m b)"
proof (induction m p c len i rule: memset_loop.induct)
  case (1 m p c len i)
  show ?case
  proof (cases "i < len")
    case True
    have split: "i \<le> x \<longleftrightarrow> x = i \<or> i + 1 \<le> x" for x
      using True by unat_arith
    have at: "b = p + i \<longleftrightarrow> b - p = i" by (auto simp: algebra_simps)
    have "memset_loop m p c len i b = memset_loop (m(p + i := ucast c)) p c len (i + 1) b"
      using True by (subst memset_loop.simps) simp
    also have "\<dots> = (if i + 1 \<le> b - p \<and> b - p < len then ucast c else (m(p + i := ucast c)) b)"
      by (rule "1.IH" [OF True])
    finally show ?thesis
      using True at by (auto simp: split)
  next
    case False
    then show ?thesis by (subst memset_loop.simps) auto
  qed
qed

lemma memset_eq [mem_simps]: "memset m p c len = (\<lambda>b. if b - p < len then ucast c else m b)"
  by (simp add: memset_def memset_loop_eq fun_eq_iff)

section \<open>memcpy\<close>

function memcpy_loop :: "mem \<Rightarrow> u64 \<Rightarrow> u64 \<Rightarrow> u64 \<Rightarrow> int \<Rightarrow> mem option" where
  "memcpy_loop m cdest csrc size' i =
     (if word_of_int i < size'
      then (if i \<ge> 2147483647 then None
            else memcpy_loop (m(cdest := m csrc)) (cdest + 1) (csrc + 1) size' (i + 1))
      else Some m)"
  by pat_completeness auto
termination
  by (relation "measure (\<lambda>(m, d, s, n, i). nat (2147483647 - i))") simp_all

declare memcpy_loop.simps [simp del]

definition memcpy :: "mem \<Rightarrow> u64 \<Rightarrow> u64 \<Rightarrow> u64 \<Rightarrow> mem option" where
  "memcpy m dest src size' = memcpy_loop m dest src size' 0"

text \<open>The bytes the loop copies, in its order, front to back.\<close>

fun copy_bytes :: "mem \<Rightarrow> u64 \<Rightarrow> u64 \<Rightarrow> nat \<Rightarrow> mem" where
  "copy_bytes m d s 0 = m"
| "copy_bytes m d s (Suc n) = copy_bytes (m(d := m s)) (d + 1) (s + 1) n"

lemma int_index_less:
  "k \<le> 2147483647 \<Longrightarrow> word_of_int (int k) < (n :: u64) \<longleftrightarrow> k < unat n"
  by (simp add: word_less_nat_alt unat_of_nat)

lemma memcpy_loop_copy:
  assumes "unat size' \<le> 2147483647" "k + n = unat size'"
  shows "memcpy_loop m d s size' (int k) = Some (copy_bytes m d s n)"
  using assms
proof (induction n arbitrary: m d s k)
  case 0
  then have "\<not> word_of_int (int k) < size'" using int_index_less [of k size'] by simp
  then show ?case by (subst memcpy_loop.simps) simp
next
  case (Suc n)
  have "memcpy_loop (m(d := m s)) (d + 1) (s + 1) size' (int (Suc k))
        = Some (copy_bytes (m(d := m s)) (d + 1) (s + 1) n)"
    by (rule Suc.IH) (use Suc.prems in auto)
  then show ?case
    using Suc.prems int_index_less [of k size']
    by (simp add: memcpy_loop.simps [of m d s size' "int k"] add.commute)
qed

lemma memcpy_copy:
  "unat size' \<le> 2147483647 \<Longrightarrow> memcpy m d s size' = Some (copy_bytes m d s (unat size'))"
  unfolding memcpy_def using memcpy_loop_copy [of size' 0 "unat size'"] by simp

lemma memcpy_loop_too_long:
  assumes "2147483647 < unat size'" "k + n = 2147483647"
  shows "memcpy_loop m d s size' (int k) = None"
  using assms
proof (induction n arbitrary: m d s k)
  case 0
  then show ?case using int_index_less [of k size'] by (simp add: memcpy_loop.simps)
next
  case (Suc n)
  have "memcpy_loop (m(d := m s)) (d + 1) (s + 1) size' (int (Suc k)) = None"
    by (rule Suc.IH) (use Suc.prems in auto)
  then show ?case
    using Suc.prems int_index_less [of k size']
    by (simp add: memcpy_loop.simps [of m d s size' "int k"] add.commute)
qed

lemma memcpy_too_long: "2147483647 < unat size' \<Longrightarrow> memcpy m d s size' = None"
  unfolding memcpy_def using memcpy_loop_too_long [of size' 0 2147483647] by simp

text \<open>
  The front-to-back copy is right whenever no byte still to be read has been written:
  the ranges are apart, or the destination lies below the source.
\<close>

lemma copy_bytes_eq:
  assumes "n < 2 ^ 64" and "\<And>j k. j < k \<Longrightarrow> k < n \<Longrightarrow> d + of_nat j \<noteq> s + of_nat k"
  shows "copy_bytes m d s n b = (if unat (b - d) < n then m (s + (b - d)) else m b)"
  using assms
proof (induction n arbitrary: m d s)
  case (Suc n)
  let ?m = "m(d := m s)"
  have clear: "copy_bytes ?m (d + 1) (s + 1) n b =
     (if unat (b - (d + 1)) < n then ?m (s + 1 + (b - (d + 1))) else ?m b)"
  proof (rule Suc.IH)
    fix j k assume "j < k" "k < n"
    then show "d + 1 + of_nat j \<noteq> s + 1 + of_nat k"
      using Suc.prems(2) [of "Suc j" "Suc k"] by (simp add: algebra_simps)
  qed (use Suc.prems in simp)
  show ?case
  proof (cases "b = d")
    case True
    then show ?thesis using clear Suc.prems(1) by simp
  next
    case False
    define x where "x = b - d"
    have x0: "x \<noteq> 0" and pred: "b - (d + 1) = x - 1" and b: "b = d + x"
      using False by (simp_all add: x_def)
    have ux: "unat (x - 1) = unat x - 1" "0 < unat x"
      using x0 by (simp_all add: unat_minus_one unat_gt_0)
    have "d \<noteq> s + x" if "unat x < Suc n"
      using Suc.prems(2) [of 0 "unat x"] that ux by simp
    then show ?thesis
      using clear ux False by (auto simp: pred x_def [symmetric])
  qed
qed simp

section \<open>Properties\<close>

text \<open>C20: \<open>memset\<close> writes the low byte of \<open>c\<close> to each of the \<open>len\<close> bytes from \<open>arr\<close>
  on and to no other.\<close>

theorem memset_fills: "memset m arr c len b = (if b - arr < len then ucast c else m b)"
  by (simp add: memset_eq)

text \<open>C18: \<open>memcpy\<close> of at most 2147483647 bytes, with no source byte overwritten before it
  is read, returns and leaves the source's bytes at the destination and every other byte as
  it was.\<close>

theorem memcpy_copies:
  assumes "unat size' \<le> 2147483647"
    and "\<And>j k. j < k \<Longrightarrow> k < unat size' \<Longrightarrow> dest + of_nat j \<noteq> src + of_nat k"
  shows "\<exists>m'. memcpy m dest src size' = Some m' \<and>
    (\<forall>b. m' b = (if b - dest < size' then m (src + (b - dest)) else m b))"
  using memcpy_copy [OF assms(1)] copy_bytes_eq [OF _ assms(2), where n = "unat size'"] assms(1)
  by (simp add: word_less_nat_alt)

theorem memcpy_copies_witness:
  "\<exists>m'. memcpy (\<lambda>b. ucast b) 0x1001 0x1002 3 = Some m' \<and> m' 0x1001 = 2 \<and> m' 0x1003 = 4 \<and> m' 0x1004 = 4"
proof -
  have "\<exists>m'. memcpy (\<lambda>b. ucast b) 0x1001 0x1002 3 = Some m' \<and>
    (\<forall>b. m' b = (if b - 0x1001 < 3 then ucast (0x1002 + (b - 0x1001) :: u64) else ucast b))"
  proof (rule memcpy_copies)
    fix j k :: nat assume "j < k" "k < unat (3 :: u64)"
    then have "j = 0 \<and> k = 1 \<or> j = 0 \<and> k = 2 \<or> j = 1 \<and> k = 2" by auto
    then show "0x1001 + of_nat j \<noteq> (0x1002 + of_nat k :: u64)" by auto
  qed simp
  then show ?thesis by auto
qed

text \<open>C19: for a size over 2147483647 the counter of \<open>memcpy\<close>, a C int, overflows:
  there is no defined result, however the memory looks.\<close>

theorem memcpy_int_overflow: "2147483647 < unat size' \<longleftrightarrow> memcpy m dest src size' = None"
  using memcpy_too_long [of size' m dest src] memcpy_copy [of size' m dest src] by fastforce

end
