(* ===== verification/Terminal.thy ===== *)
theory Terminal
  imports CMemory
begin

text \<open>
  The VGA text terminal of \<open>kernel/boot.c\<close>: \<open>term_enable_cursor\<close>, \<open>term_update_cursor\<close>,
  \<open>term_clear\<close>, \<open>term_putchar\<close> and \<open>term_init\<close> over the byte memory, where the 80 by 25
  entries of two bytes stand from \<open>term_ptr\<close> on (the C variable is \<open>term\<close>). The abstract
  screen is a list of 2000 entries with a row and a column, and \<open>term_putchar\<close> refines
  its operation \<open>screen_putchar\<close>.
\<close>

record vga_entry =
  vga_c :: u8
  vga_fg :: "4 word"
  vga_bg :: "4 word"

record terminal = machine +
  term_ptr :: u64
  term_col :: u64
  term_row :: u64

abbreviation VGA_BUFFER :: u64 where "VGA_BUFFER \<equiv> 0xB8000"
abbreviation VGA_WIDTH :: u64 where "VGA_WIDTH \<equiv> 80"
abbreviation VGA_HEIGHT :: u64 where "VGA_HEIGHT \<equiv> 25"
abbreviation VGA_COLOR_BLACK :: "4 word" where "VGA_COLOR_BLACK \<equiv> 0"
abbreviation VGA_COLOR_WHITE :: "4 word" where "VGA_COLOR_WHITE \<equiv> 15"

section \<open>Entries in memory\<close>

definition vga_get :: "mem \<Rightarrow> u64 \<Rightarrow> u64 \<Rightarrow> vga_entry" where
  "vga_get m t i =
     \<lparr>vga_c = m (t + 2 * i), vga_fg = ucast (m (t + 2 * i + 1)),
      vga_bg = ucast (drop_bit 4 (m (t + 2 * i + 1)))\<rparr>"

definition vga_put :: "mem \<Rightarrow> u64 \<Rightarrow> u64 \<Rightarrow> vga_entry \<Rightarrow> mem" where
  "vga_put m t i e =
     m(t + 2 * i := vga_c e,
       t + 2 * i + 1 := ucast (vga_fg e) OR push_bit 4 (ucast (vga_bg e)))"

definition vga_blank :: "u8 \<Rightarrow> vga_entry \<Rightarrow> vga_entry" where
  "vga_blank c e = e\<lparr>vga_c := c, vga_fg := VGA_COLOR_WHITE, vga_bg := VGA_COLOR_BLACK\<rparr>"

section \<open>Operations\<close>

definition term_enable_cursor :: "'a machine_scheme \<Rightarrow> 'a machine_scheme" where
  "term_enable_cursor s =
     (let s = outb 0x3D4 0x0A s; (v, s) = inb 0x3D5 s; s = outb 0x3D5 ((v AND 0xC0) OR 13) s;
          s = outb 0x3D4 0x0B s; (v, s) = inb 0x3D5 s
      in outb 0x3D5 ((v AND 0xE0) OR 15) s)"

definition term_update_cursor :: "'a terminal_scheme \<Rightarrow> 'a terminal_scheme" where
  "term_update_cursor s =
     (let pos = ucast (term_row s * VGA_WIDTH + term_col s) :: u16
      in outb 0x3D5 (ucast (drop_bit 8 pos AND 0xFF)) (outb 0x3D4 0x0E
           (outb 0x3D5 (ucast (pos AND 0xFF)) (outb 0x3D4 0x0F s))))"

definition term_set :: "(vga_entry \<Rightarrow> vga_entry) \<Rightarrow> u64 \<Rightarrow> 'a terminal_scheme \<Rightarrow> 'a terminal_scheme" where
  "term_set f i s = s\<lparr>mem := vga_put (mem s) (term_ptr s) i (f (vga_get (mem s) (term_ptr s) i))\<rparr>"

definition term_clear :: "'a terminal_scheme \<Rightarrow> 'a terminal_scheme" where
  "term_clear s =
     (let s = fold (\<lambda>i. term_set (vga_blank 32) (of_nat i)) [0..<2000] s
      in term_update_cursor (s\<lparr>term_col := 0, term_row := 0\<rparr>))"

definition term_scroll :: "'a terminal_scheme \<Rightarrow> 'a terminal_scheme" where
  "term_scroll s =
     (let m = the (memcpy (mem s) (term_ptr s) (term_ptr s + 2 * VGA_WIDTH) (2 * VGA_WIDTH * (VGA_HEIGHT - 1)));
          s = s\<lparr>mem := m, term_row := term_row s - 1\<rparr>
      in fold (\<lambda>i s. term_set (vga_blank 32) (of_nat i + term_row s * VGA_WIDTH) s) [0..<80] s)"

definition term_putchar :: "u8 \<Rightarrow> 'a terminal_scheme \<Rightarrow> 'a terminal_scheme" where
  "term_putchar c s =
     (if c = 13 then term_update_cursor (s\<lparr>term_col := 0\<rparr>)
      else if c = 8 then
        term_update_cursor
          (if 0 < term_col s
           then let s = s\<lparr>term_col := term_col s - 1\<rparr>
                in term_set (\<lambda>e. e\<lparr>vga_c := 32\<rparr>) (term_row s * VGA_WIDTH + term_col s) s
           else s)
      else
        let s = (if c = 10 then s\<lparr>term_col := 0, term_row := term_row s + 1\<rparr> else s);
            s = (if term_col s = VGA_WIDTH then s\<lparr>term_col := 0, term_row := term_row s + 1\<rparr> else s);
            s = (if term_row s = VGA_HEIGHT then term_scroll s else s);
            s = (if c \<noteq> 10
                 then let s = term_set (vga_blank c) (term_col s + term_row s * VGA_WIDTH) s
                      in s\<lparr>term_col := term_col s + 1\<rparr>
                 else s)
        in term_update_cursor s)"

definition term_init :: "'a terminal_scheme \<Rightarrow> 'a terminal_scheme" where
  "term_init s = term_clear (term_enable_cursor (s\<lparr>term_ptr := ptov s VGA_BUFFER\<rparr>))"

text \<open>Writing a sequence of characters, one \<open>term_putchar\<close> each.\<close>

definition term_puts :: "u8 list \<Rightarrow> 'a terminal_scheme \<Rightarrow> 'a terminal_scheme" where
  "term_puts cs s = fold term_putchar cs s"

lemma term_puts_simps [simp]:
  "term_puts [] s = s"
  "term_puts (c # cs) s = term_puts cs (term_putchar c s)"
  by (simp_all add: term_puts_def)

lemma term_puts_append [simp]: "term_puts (xs @ ys) s = term_puts ys (term_puts xs s)"
  by (simp add: term_puts_def)

section \<open>The abstract screen\<close>

record screen =
  cells :: "vga_entry list"
  scol :: nat
  srow :: nat

definition blank_cell :: vga_entry where
  "blank_cell = \<lparr>vga_c = 32, vga_fg = VGA_COLOR_WHITE, vga_bg = VGA_COLOR_BLACK\<rparr>"

definition screen_newline :: "screen \<Rightarrow> screen" where
  "screen_newline t =
     (if srow t = 24 then \<lparr>cells = drop 80 (cells t) @ replicate 80 blank_cell, scol = 0, srow = 24\<rparr>
      else t\<lparr>scol := 0, srow := srow t + 1\<rparr>)"

definition screen_putchar :: "u8 \<Rightarrow> screen \<Rightarrow> screen" where
  "screen_putchar c t =
     (if c = 13 then t\<lparr>scol := 0\<rparr>
      else if c = 8 then
        (if scol t = 0 then t
         else let i = srow t * 80 + (scol t - 1)
              in t\<lparr>scol := scol t - 1, cells := (cells t)[i := (cells t ! i)\<lparr>vga_c := 32\<rparr>]\<rparr>)
      else if c = 10 then screen_newline t
      else
        let t = (if scol t = 80 then screen_newline t else t)
        in t\<lparr>scol := scol t + 1, cells := (cells t)[srow t * 80 + scol t := blank_cell\<lparr>vga_c := c\<rparr>]\<rparr>)"

definition term_cells :: "mem \<Rightarrow> u64 \<Rightarrow> vga_entry list" where
  "term_cells m t = map (\<lambda>i. vga_get m t (of_nat i)) [0..<2000]"

definition screen_of :: "'a terminal_scheme \<Rightarrow> screen" where
  "screen_of s = \<lparr>cells = term_cells (mem s) (term_ptr s), scol = unat (term_col s), srow = unat (term_row s)\<rparr>"

definition term_inv :: "'a terminal_scheme \<Rightarrow> bool" where
  "term_inv s \<longleftrightarrow> term_row s < VGA_HEIGHT \<and> term_col s \<le> VGA_WIDTH"

section \<open>Entries: reads after writes\<close>

lemma vga_byte_eq_iff:
  fixes t i j :: u64
  assumes "i < 2000" "j < 2000"
  shows "t + 2 * i = t + 2 * j \<longleftrightarrow> i = j" "t + 2 * i + 1 = t + 2 * j + 1 \<longleftrightarrow> i = j"
    "t + 2 * i \<noteq> t + 2 * j + 1"
proof -
  have ui: "unat (2 * i) = 2 * unat i" and uj: "unat (2 * j) = 2 * unat j"
    and uj1: "unat (2 * j + 1) = 2 * unat j + 1"
    using assms by (simp_all add: unat_word_ariths word_less_nat_alt)
  have two: "2 * i = 2 * j \<longleftrightarrow> i = j"
    using ui uj by (auto simp: word_unat_eq_iff)
  then show "t + 2 * i = t + 2 * j \<longleftrightarrow> i = j" "t + 2 * i + 1 = t + 2 * j + 1 \<longleftrightarrow> i = j"
    by simp_all
  have "2 * i \<noteq> 2 * j + 1"
    using ui uj1 by (auto simp: word_unat_eq_iff) presburger
  then show "t + 2 * i \<noteq> t + 2 * j + 1" by (simp add: add.assoc)
qed

lemma vga_get_put [mem_simps]:
  assumes "i < 2000" "j < 2000"
  shows "vga_get (vga_put m t i e) t j = (if i = j then e else vga_get m t j)"
proof (cases "i = j")
  case True
  have fg: "ucast (ucast f OR push_bit 4 (ucast b) :: u8) = (f :: 4 word)" for f b :: "4 word"
    by (rule bit_word_eqI) (auto simp: bit_simps)
  have bg: "ucast (drop_bit 4 (ucast f) OR drop_bit 4 (push_bit 4 (ucast b)) :: u8) = (b :: 4 word)" for f b :: "4 word"
    by (rule bit_word_eqI) (auto simp: bit_simps dest: bit_imp_le_length)
  from True show ?thesis
    using vga_byte_eq_iff [OF assms(2) assms(2), of t] by (simp add: vga_get_def vga_put_def fg bg)
next
  case False
  then show ?thesis
    using vga_byte_eq_iff [OF assms, of t] vga_byte_eq_iff [OF assms(2,1), of t]
    by (simp add: vga_get_def vga_put_def)
qed

lemma length_term_cells [simp]: "length (term_cells m t) = 2000"
  by (simp add: term_cells_def)

lemma nth_term_cells: "i < 2000 \<Longrightarrow> term_cells m t ! i = vga_get m t (of_nat i)"
  by (simp add: term_cells_def)

lemma nth_term_cells_word: "i < 2000 \<Longrightarrow> term_cells m t ! unat i = vga_get m t i"
  by (subst nth_term_cells) (simp_all add: word_less_nat_alt)

lemma of_nat_less_2000: "i < 2000 \<Longrightarrow> (of_nat i :: u64) < 2000"
  by (simp add: word_less_nat_alt unat_of_nat)

lemma term_cells_put [mem_simps]:
  assumes "i < 2000"
  shows "term_cells (vga_put m t i e) t = (term_cells m t)[unat i := e]"
proof (rule nth_equalityI)
  fix j assume "j < length (term_cells (vga_put m t i e) t)"
  then have j: "j < 2000" by simp
  have "i = of_nat j \<longleftrightarrow> unat i = j"
    using j by (auto simp: unat_of_nat)
  then show "term_cells (vga_put m t i e) t ! j = (term_cells m t)[unat i := e] ! j"
    using j assms by (simp add: nth_term_cells vga_get_put of_nat_less_2000 nth_list_update)
qed simp

section \<open>Scrolling and clearing\<close>

lemma scroll_copy:
  fixes t :: u64
  assumes "unat (b - t) < 4000"
  shows "the (memcpy m t (t + 2 * 80) (2 * 80 * (25 - 1))) b =
    (if unat (b - t) < 3840 then m (b + 160) else m b)"
proof -
  have "memcpy m t (t + 2 * 80) (2 * 80 * (25 - 1)) = Some (copy_bytes m t (t + 160) 3840)"
    by (subst memcpy_copy) simp_all
  moreover have "copy_bytes m t (t + 160) 3840 b =
    (if unat (b - t) < 3840 then m (t + 160 + (b - t)) else m b)"
  proof (rule copy_bytes_eq)
    fix j k :: nat assume "j < k" "k < 3840"
    then have "(of_nat j :: u64) \<noteq> of_nat (160 + k)"
      by (simp add: word_unat_eq_iff unat_of_nat del: of_nat_add)
    then show "t + of_nat j \<noteq> t + 160 + of_nat k" by (simp add: add.assoc)
  qed simp
  ultimately show ?thesis by (simp add: algebra_simps)
qed

lemma scroll_cells:
  "term_cells (the (memcpy m t (t + 2 * 80) (2 * 80 * (25 - 1)))) t =
   drop 80 (term_cells m t) @ drop 1920 (term_cells m t)"
proof (rule nth_equalityI)
  fix j assume "j < length (term_cells (the (memcpy m t (t + 2 * 80) (2 * 80 * (25 - 1)))) t)"
  then have j: "j < 2000" by simp
  have off: "unat (t + 2 * of_nat j - t) = 2 * j" "unat (t + 2 * of_nat j + 1 - t) = 2 * j + 1"
    using j by (simp_all add: unat_word_ariths unat_of_nat)
  have get: "vga_get (the (memcpy m t (t + 2 * 80) (2 * 80 * (25 - 1)))) t (of_nat j) =
    vga_get m t (of_nat (if j < 1920 then j + 80 else j))"
    using j off scroll_copy [of "t + 2 * of_nat j" t m] scroll_copy [of "t + 2 * of_nat j + 1" t m]
    by (simp add: vga_get_def algebra_simps)
  then show "term_cells (the (memcpy m t (t + 2 * 80) (2 * 80 * (25 - 1)))) t ! j =
    (drop 80 (term_cells m t) @ drop 1920 (term_cells m t)) ! j"
    using j by (auto simp: nth_term_cells nth_append add.commute)
qed simp

definition outside_vga :: "u64 \<Rightarrow> mem \<Rightarrow> mem \<Rightarrow> bool" where
  "outside_vga t m m' \<longleftrightarrow> (\<forall>b. 4000 \<le> b - t \<longrightarrow> m' b = m b)"

lemma outside_vga_refl [simp]: "outside_vga t m m"
  by (simp add: outside_vga_def)

lemma outside_vga_trans: "outside_vga t m m1 \<Longrightarrow> outside_vga t m1 m2 \<Longrightarrow> outside_vga t m m2"
  by (simp add: outside_vga_def)

lemma outside_vga_put: "i < 2000 \<Longrightarrow> outside_vga t m (vga_put m t i e)"
proof -
  assume "i < 2000"
  then have "\<not> 4000 \<le> 2 * i" "\<not> 4000 \<le> 2 * i + 1"
    by (simp_all add: word_le_nat_alt word_less_nat_alt unat_word_ariths)
  then show ?thesis
    by (auto simp: outside_vga_def vga_put_def add.assoc)
qed

lemma outside_vga_scroll:
  "outside_vga t m (the (memcpy m t (t + 2 * 80) (2 * 80 * (25 - 1))))"
proof -
  have "copy_bytes m t (t + 160) 3840 b = m b" if "4000 \<le> b - t" for b
  proof (subst copy_bytes_eq)
    fix j k :: nat assume "j < k" "k < 3840"
    then have "(of_nat j :: u64) \<noteq> of_nat (160 + k)"
      by (simp add: word_unat_eq_iff unat_of_nat del: of_nat_add)
    then show "t + of_nat j \<noteq> t + 160 + of_nat k" by (simp add: add.assoc)
  qed (use that in \<open>simp_all add: word_le_nat_alt\<close>)
  moreover have "memcpy m t (t + 2 * 80) (2 * 80 * (25 - 1)) = Some (copy_bytes m t (t + 160) 3840)"
    by (subst memcpy_copy) simp_all
  ultimately show ?thesis by (simp add: outside_vga_def)
qed

lemma vga_blank_cell: "vga_blank c e = blank_cell\<lparr>vga_c := c\<rparr>" "vga_blank 32 e = blank_cell"
  by (simp_all add: vga_blank_def blank_cell_def)

lemma term_set_blank:
  "term_set (vga_blank 32) i (s\<lparr>mem := m\<rparr>) = s\<lparr>mem := vga_put m (term_ptr s) i blank_cell\<rparr>"
  by (simp add: term_set_def vga_blank_cell(2))

lemma blank_loop:
  assumes "base + n \<le> 2000"
    and "\<And>i s'. i < n \<Longrightarrow> term_row s' = term_row s \<Longrightarrow> g i s' = of_nat (base + i)"
  shows "\<exists>m. fold (\<lambda>i s. term_set (vga_blank 32) (g i s) s) [0..<n] s = s\<lparr>mem := m\<rparr> \<and>
     term_cells m (term_ptr s) =
       take base (term_cells (mem s) (term_ptr s)) @ replicate n blank_cell
         @ drop (base + n) (term_cells (mem s) (term_ptr s)) \<and>
     outside_vga (term_ptr s) (mem s) m"
  using assms
proof (induction n)
  case 0
  show ?case by (rule exI [of _ "mem s"]) simp
next
  case (Suc n)
  let ?C = "term_cells (mem s) (term_ptr s)"
  have "base + n \<le> 2000" using Suc.prems(1) by simp
  moreover have "g i s' = of_nat (base + i)" if "i < n" "term_row s' = term_row s" for i s'
    using that by (intro Suc.prems(2)) simp_all
  ultimately obtain m where
    m: "fold (\<lambda>i s. term_set (vga_blank 32) (g i s) s) [0..<n] s = s\<lparr>mem := m\<rparr>"
       "term_cells m (term_ptr s) = take base ?C @ replicate n blank_cell @ drop (base + n) ?C"
       "outside_vga (term_ptr s) (mem s) m"
    using Suc.IH by blast
  let ?i = "of_nat (base + n) :: u64"
  have i: "?i < 2000" "unat ?i = base + n"
    using Suc.prems(1) by (simp_all add: word_less_nat_alt unat_of_nat del: of_nat_add)
  let ?m = "vga_put m (term_ptr s) ?i blank_cell"
  have "g n (s\<lparr>mem := m\<rparr>) = ?i" by (rule Suc.prems(2)) simp_all
  then have "fold (\<lambda>i s. term_set (vga_blank 32) (g i s) s) [0..<Suc n] s = s\<lparr>mem := ?m\<rparr>"
    by (simp add: m(1) term_set_blank)
  moreover have "term_cells ?m (term_ptr s) =
      take base ?C @ replicate (Suc n) blank_cell @ drop (base + Suc n) ?C"
  proof -
    have "drop (base + n) ?C = ?C ! (base + n) # drop (base + Suc n) ?C"
      using Suc.prems(1) by (simp add: Cons_nth_drop_Suc)
    then have "term_cells ?m (term_ptr s) =
        (take base ?C @ replicate n blank_cell @ ?C ! (base + n) # drop (base + Suc n) ?C)
          [base + n := blank_cell]"
      by (simp only: term_cells_put [OF i(1)] i(2) m(2))
    also have "\<dots> = take base ?C @ replicate n blank_cell @ blank_cell # drop (base + Suc n) ?C"
      using Suc.prems(1) by (simp add: list_update_append min_def)
    finally show ?thesis by (simp add: replicate_append_same [symmetric])
  qed
  moreover have "outside_vga (term_ptr s) (mem s) ?m"
    by (rule outside_vga_trans [OF m(3) outside_vga_put [OF i(1)]])
  ultimately show ?case by blast
qed

lemma term_scroll_eq:
  assumes "term_row s = 25"
  shows "\<exists>m. term_scroll s = s\<lparr>mem := m, term_row := 24\<rparr> \<and>
     term_cells m (term_ptr s) =
       drop 80 (term_cells (mem s) (term_ptr s)) @ replicate 80 blank_cell \<and>
     outside_vga (term_ptr s) (mem s) m"
proof -
  let ?m = "the (memcpy (mem s) (term_ptr s) (term_ptr s + 2 * 80) (2 * 80 * (25 - 1)))"
  let ?s = "s\<lparr>mem := ?m, term_row := 24\<rparr>"
  have "\<exists>m. fold (\<lambda>i s. term_set (vga_blank 32) (of_nat i + term_row s * VGA_WIDTH) s) [0..<80] ?s
        = ?s\<lparr>mem := m\<rparr> \<and>
     term_cells m (term_ptr ?s) =
       take 1920 (term_cells (mem ?s) (term_ptr ?s)) @ replicate 80 blank_cell
         @ drop (1920 + 80) (term_cells (mem ?s) (term_ptr ?s)) \<and>
     outside_vga (term_ptr ?s) (mem ?s) m"
    by (rule blank_loop) simp_all
  then obtain m where
    "fold (\<lambda>i s. term_set (vga_blank 32) (of_nat i + term_row s * VGA_WIDTH) s) [0..<80] ?s
        = ?s\<lparr>mem := m\<rparr>"
    "term_cells m (term_ptr s) =
       take 1920 (term_cells ?m (term_ptr s)) @ replicate 80 blank_cell"
    "outside_vga (term_ptr s) ?m m"
    by auto
  moreover have "take 1920 (term_cells ?m (term_ptr s)) = drop 80 (term_cells (mem s) (term_ptr s))"
    by (simp only: scroll_cells) simp
  ultimately show ?thesis
    using assms outside_vga_trans [OF outside_vga_scroll]
    by (intro exI [of _ m]) (simp add: term_scroll_def Let_def)
qed

section \<open>Frame: what the terminal leaves alone\<close>

lemma term_set_frame [frame_simps, simp]:
  "term_ptr (term_set f i s) = term_ptr s" "cr0 (term_set f i s) = cr0 s" "cr3 (term_set f i s) = cr3 s"
  "hhdm_base (term_set f i s) = hhdm_base s" "cpu_events (term_set f i s) = cpu_events s"
  "devices (term_set f i s) = devices s" "io_trace (term_set f i s) = io_trace s"
  "term_row (term_set f i s) = term_row s" "term_col (term_set f i s) = term_col s"
  "terminal.more (term_set f i s) = terminal.more s"
  by (simp_all add: term_set_def)

lemma term_update_cursor_frame [frame_simps, simp]:
  "mem (term_update_cursor s) = mem s"
  "term_ptr (term_update_cursor s) = term_ptr s" "cr0 (term_update_cursor s) = cr0 s" "cr3 (term_update_cursor s) = cr3 s"
  "hhdm_base (term_update_cursor s) = hhdm_base s"
  "cpu_events (term_update_cursor s) = cpu_events s" "devices (term_update_cursor s) = devices s"
  "term_row (term_update_cursor s) = term_row s" "term_col (term_update_cursor s) = term_col s"
  "terminal.more (term_update_cursor s) = terminal.more s"
  by (simp_all add: term_update_cursor_def Let_def outb_def)

lemma fold_keeps: "(\<And>x s. P (f x s) = P s) \<Longrightarrow> P (fold f xs s) = P s"
  by (induction xs arbitrary: s) simp_all

lemma term_scroll_frame [frame_simps, simp]:
  "term_ptr (term_scroll s) = term_ptr s" "cr0 (term_scroll s) = cr0 s" "cr3 (term_scroll s) = cr3 s"
  "hhdm_base (term_scroll s) = hhdm_base s" "cpu_events (term_scroll s) = cpu_events s"
  "devices (term_scroll s) = devices s" "terminal.more (term_scroll s) = terminal.more s"
  by (simp_all add: term_scroll_def Let_def fold_keeps [of term_ptr] fold_keeps [of cr0] fold_keeps [of cr3]
      fold_keeps [of hhdm_base] fold_keeps [of cpu_events] fold_keeps [of devices]
      fold_keeps [of terminal.more])

lemma term_putchar_frame [frame_simps, simp]:
  "term_ptr (term_putchar c s) = term_ptr s" "cr0 (term_putchar c s) = cr0 s" "cr3 (term_putchar c s) = cr3 s"
  "hhdm_base (term_putchar c s) = hhdm_base s" "cpu_events (term_putchar c s) = cpu_events s"
  "devices (term_putchar c s) = devices s" "terminal.more (term_putchar c s) = terminal.more s"
  by (simp_all add: term_putchar_def Let_def)

lemma term_puts_frame [frame_simps, simp]:
  "term_ptr (term_puts cs s) = term_ptr s" "cr0 (term_puts cs s) = cr0 s" "cr3 (term_puts cs s) = cr3 s"
  "hhdm_base (term_puts cs s) = hhdm_base s" "cpu_events (term_puts cs s) = cpu_events s"
  "devices (term_puts cs s) = devices s" "terminal.more (term_puts cs s) = terminal.more s"
  by (simp_all add: term_puts_def fold_keeps [of term_ptr] fold_keeps [of cr0] fold_keeps [of cr3]
      fold_keeps [of hhdm_base] fold_keeps [of cpu_events] fold_keeps [of devices]
      fold_keeps [of terminal.more])

section \<open>Refinement of the abstract screen\<close>

lemma screen_of_cursor [simp]: "screen_of (term_update_cursor s) = screen_of s"
  by (simp add: screen_of_def)

lemma term_inv_cursor [simp]: "term_inv (term_update_cursor s) = term_inv s"
  by (simp add: term_inv_def)

lemma cell_index:
  assumes "term_row s < 25" "term_col s < 80"
  shows "term_row s * 80 + term_col s < 2000"
    "unat (term_row s * 80 + term_col s) = unat (term_row s) * 80 + unat (term_col s)"
  using assms by (simp_all add: word_less_nat_alt unat_word_ariths)

lemma newline_step:
  assumes "term_inv s"
  defines "s1 \<equiv> s\<lparr>term_col := 0, term_row := term_row s + 1\<rparr>"
  defines "s2 \<equiv> (if term_row s1 = VGA_HEIGHT then term_scroll s1 else s1)"
  shows "screen_of s2 = screen_newline (screen_of s)" "term_row s2 < 25" "term_col s2 = 0"
    "outside_vga (term_ptr s) (mem s) (mem s2)" "term_ptr s2 = term_ptr s"
proof -
  have row: "unat (term_row s + 1) = Suc (unat (term_row s))" "unat (term_row s) < 25"
    using assms(1) by (simp_all add: term_inv_def word_less_nat_alt unat_word_ariths)
  have goal: "screen_of s2 = screen_newline (screen_of s) \<and> term_row s2 < 25 \<and> term_col s2 = 0 \<and>
    outside_vga (term_ptr s) (mem s) (mem s2) \<and> term_ptr s2 = term_ptr s"
  proof (cases "term_row s1 = 25")
    case True
    then obtain m where m: "term_scroll s1 = s1\<lparr>mem := m, term_row := 24\<rparr>"
      "term_cells m (term_ptr s1) = drop 80 (term_cells (mem s1) (term_ptr s1)) @ replicate 80 blank_cell"
      "outside_vga (term_ptr s1) (mem s1) m"
      using term_scroll_eq by blast
    from True row have "unat (term_row s) = 24" by (simp add: s1_def word_unat_eq_iff)
    with m True show ?thesis
      by (simp add: s2_def screen_of_def screen_newline_def s1_def)
  next
    case False
    then have "unat (term_row s) \<noteq> 24" using row by (auto simp: s1_def word_unat_eq_iff)
    with False row show ?thesis
      by (simp add: s2_def screen_of_def screen_newline_def s1_def word_less_nat_alt)
  qed
  then show "screen_of s2 = screen_newline (screen_of s)" "term_row s2 < 25" "term_col s2 = 0"
    "outside_vga (term_ptr s) (mem s) (mem s2)" "term_ptr s2 = term_ptr s" by simp_all
qed

text \<open>Writing one character at a cursor that is inside its row.\<close>

lemma put_step:
  fixes c :: u8
  assumes "term_row s < 25" "term_col s < 80"
  defines "s' \<equiv> term_set (vga_blank c) (term_col s + term_row s * VGA_WIDTH) s"
  shows "screen_of (s'\<lparr>term_col := term_col s' + 1\<rparr>) =
      (screen_of s)\<lparr>scol := scol (screen_of s) + 1,
         cells := (cells (screen_of s))[srow (screen_of s) * 80 + scol (screen_of s) := blank_cell\<lparr>vga_c := c\<rparr>]\<rparr>"
    "term_inv (s'\<lparr>term_col := term_col s' + 1\<rparr>)"
    "outside_vga (term_ptr s) (mem s) (mem s')"
proof -
  note i = cell_index [OF assms(1,2)]
  have col: "unat (term_col s + 1) = Suc (unat (term_col s))"
    using assms(2) by (simp add: unat_inc)
  show "screen_of (s'\<lparr>term_col := term_col s' + 1\<rparr>) =
      (screen_of s)\<lparr>scol := scol (screen_of s) + 1,
         cells := (cells (screen_of s))[srow (screen_of s) * 80 + scol (screen_of s) := blank_cell\<lparr>vga_c := c\<rparr>]\<rparr>"
    using i col
    by (simp add: s'_def screen_of_def term_set_def term_cells_put vga_blank_cell(1) add.commute)
  show "term_inv (s'\<lparr>term_col := term_col s' + 1\<rparr>)"
    using assms(1,2) by (simp add: s'_def term_inv_def inc_le)
  show "outside_vga (term_ptr s) (mem s) (mem s')"
    using i by (simp add: s'_def term_set_def outside_vga_put add.commute)
qed

lemma term_putchar_refines:
  assumes "term_inv s"
  shows "screen_of (term_putchar c s) = screen_putchar c (screen_of s) \<and>
    term_inv (term_putchar c s) \<and> outside_vga (term_ptr s) (mem s) (mem (term_putchar c s))"
proof -
  let ?s1 = "s\<lparr>term_col := 0, term_row := term_row s + 1\<rparr>"
  let ?s2 = "if term_row ?s1 = VGA_HEIGHT then term_scroll ?s1 else ?s1"
  note nl = newline_step [OF assms]
  have bounds: "term_row s < 25" "term_col s \<le> 80" "term_row s \<noteq> 25"
    using assms by (auto simp: term_inv_def)
  consider (cr) "c = 13" | (bs) "c = 8" | (nl) "c = 10"
    | (wrap) "c \<noteq> 13" "c \<noteq> 8" "c \<noteq> 10" "term_col s = 80"
    | (plain) "c \<noteq> 13" "c \<noteq> 8" "c \<noteq> 10" "term_col s < 80"
    using bounds(2) by fastforce
  then show ?thesis
  proof cases
    case cr
    then show ?thesis using bounds
      by (simp add: term_putchar_def screen_putchar_def screen_of_def term_inv_def)
  next
    case bs
    show ?thesis
    proof (cases "term_col s = 0")
      case True
      with bs show ?thesis using bounds
        by (simp add: term_putchar_def screen_putchar_def screen_of_def term_inv_def)
    next
      case False
      let ?t = "s\<lparr>term_col := term_col s - 1\<rparr>"
      have col: "unat (term_col s - 1) = unat (term_col s) - 1" "term_col s - 1 < 80"
        using False bounds by (simp_all add: unat_minus_one word_less_nat_alt word_le_nat_alt unat_gt_0)
      have i: "term_row s * 80 + (term_col s - 1) < 2000"
        "unat (term_row s * 80 + (term_col s - 1)) = unat (term_row s) * 80 + (unat (term_col s) - 1)"
        using cell_index [of ?t] bounds(1) col by simp_all
      have nth: "vga_get (mem s) (term_ptr s) (term_row s * 80 + (term_col s - 1)) =
          term_cells (mem s) (term_ptr s) ! (unat (term_row s) * 80 + (unat (term_col s) - 1))"
        by (simp only: i(2) [symmetric] nth_term_cells_word [OF i(1)])
      show ?thesis
        using bs False bounds i nth col
        by (simp add: term_putchar_def screen_putchar_def screen_of_def term_inv_def term_set_def
            term_cells_put outside_vga_put word_gt_0 unat_eq_0 less_imp_le Let_def)
    qed
  next
    case nl
    then have "term_putchar c s = term_update_cursor ?s2"
      by (simp add: term_putchar_def Let_def)
    then show ?thesis
      using nl newline_step [OF assms] by (simp add: screen_putchar_def term_inv_def)
  next
    case wrap
    let ?s3 = "term_set (vga_blank c) (term_col ?s2 + term_row ?s2 * VGA_WIDTH) ?s2"
    have "term_putchar c s = term_update_cursor (?s3\<lparr>term_col := term_col ?s3 + 1\<rparr>)"
      using wrap by (simp add: term_putchar_def Let_def)
    moreover have "term_col ?s2 < 80" using nl(3) by simp
    moreover have "scol (screen_of s) = 80" using wrap by (simp add: screen_of_def)
    ultimately show ?thesis
      using wrap nl put_step [OF nl(2), of c] outside_vga_trans [OF nl(4)]
      by (simp add: screen_putchar_def Let_def)
  next
    case plain
    let ?s3 = "term_set (vga_blank c) (term_col s + term_row s * VGA_WIDTH) s"
    have "term_putchar c s = term_update_cursor (?s3\<lparr>term_col := term_col ?s3 + 1\<rparr>)"
      using plain bounds by (simp add: term_putchar_def Let_def)
    moreover have "scol (screen_of s) \<noteq> 80" using plain by (simp add: screen_of_def word_less_nat_alt)
    ultimately show ?thesis
      using plain put_step [OF bounds(1) plain(4), of c] by (simp add: screen_putchar_def Let_def)
  qed
qed

lemma term_puts_refines:
  "term_inv s \<Longrightarrow> screen_of (term_puts cs s) = fold screen_putchar cs (screen_of s) \<and>
    term_inv (term_puts cs s) \<and> outside_vga (term_ptr s) (mem s) (mem (term_puts cs s))"
proof (induction cs arbitrary: s)
  case (Cons c cs)
  then show ?case
    using term_putchar_refines [OF Cons.prems, of c] Cons.IH [of "term_putchar c s"]
      outside_vga_trans by fastforce
qed simp

lemmas term_puts_inv [simp] = term_puts_refines [THEN conjunct2, THEN conjunct1]
lemmas term_puts_outside = term_puts_refines [THEN conjunct2, THEN conjunct2]

section \<open>Clearing\<close>

lemma term_clear_refines:
  "screen_of (term_clear s) = \<lparr>cells = replicate 2000 blank_cell, scol = 0, srow = 0\<rparr> \<and>
   term_inv (term_clear s) \<and> outside_vga (term_ptr s) (mem s) (mem (term_clear s)) \<and>
   term_ptr (term_clear s) = term_ptr s"
proof -
  have "\<exists>m. fold (\<lambda>i s. term_set (vga_blank 32) (of_nat i) s) [0..<2000] s = s\<lparr>mem := m\<rparr> \<and>
     term_cells m (term_ptr s) =
       take 0 (term_cells (mem s) (term_ptr s)) @ replicate 2000 blank_cell
         @ drop (0 + 2000) (term_cells (mem s) (term_ptr s)) \<and>
     outside_vga (term_ptr s) (mem s) m"
    by (rule blank_loop) simp_all
  then obtain m where
    "fold (\<lambda>i s. term_set (vga_blank 32) (of_nat i) s) [0..<2000] s = s\<lparr>mem := m\<rparr>"
    "term_cells m (term_ptr s) = replicate 2000 blank_cell" "outside_vga (term_ptr s) (mem s) m"
    by auto
  then show ?thesis
    by (simp add: term_clear_def Let_def screen_of_def term_inv_def)
qed

lemma term_init_refines:
  "screen_of (term_init s) = \<lparr>cells = replicate 2000 blank_cell, scol = 0, srow = 0\<rparr> \<and>
   term_inv (term_init s) \<and> term_ptr (term_init s) = VGA_BUFFER + hhdm_base s"
proof -
  have "term_ptr (term_enable_cursor s) = term_ptr s" for s :: "'a terminal_scheme"
    by (simp add: term_enable_cursor_def Let_def inb_def outb_def)
  then show ?thesis
    using term_clear_refines [of "term_enable_cursor (s\<lparr>term_ptr := ptov s VGA_BUFFER\<rparr>)"]
    by (simp add: term_init_def ptov_def)
qed

section \<open>Properties\<close>

text \<open>C4: writing any sequence of characters with \<open>term_putchar\<close> does to the text buffer
  exactly what the abstract screen does (print, wrap, scroll, newline, return, backspace),
  keeps the cursor on the screen, and changes no byte outside the 4000 of the buffer.\<close>

theorem term_puts_screen:
  assumes "term_inv s"
  shows "screen_of (term_puts cs s) = fold screen_putchar cs (screen_of s) \<and>
    term_inv (term_puts cs s) \<and>
    (\<forall>b. 4000 \<le> b - term_ptr s \<longrightarrow> mem (term_puts cs s) b = mem s b)"
  using term_puts_refines [OF assms, of cs] by (auto simp: outside_vga_def)

definition blank_terminal :: terminal where
  "blank_terminal = \<lparr>mem = (\<lambda>_. 0), cr0 = 0, cr3 = 0, hhdm_base = 0xFFFF800000000000, cpu_events = [],
     io_trace = [], devices = (\<lambda>_ _. 0), term_ptr = 0xFFFF8000000B8000, term_col = 79, term_row = 24\<rparr>"

text \<open>The witness starts in the last cell, so that its second character wraps and scrolls.\<close>

theorem term_puts_screen_witness:
  "screen_of (term_puts [65, 66] blank_terminal) = fold screen_putchar [65, 66] (screen_of blank_terminal) \<and>
   term_inv (term_puts [65, 66] blank_terminal) \<and> mem (term_puts [65, 66] blank_terminal) 0x1000 = 0"
proof -
  have inv: "term_inv blank_terminal" by (simp add: term_inv_def blank_terminal_def)
  have "4000 \<le> 0x1000 - term_ptr blank_terminal" by (simp add: blank_terminal_def)
  then show ?thesis
    using term_puts_screen [OF inv, of "[65, 66]"] by (simp add: blank_terminal_def)
qed

text \<open>\<open>term_init\<close> points the terminal at the text buffer in the direct map and leaves
  2000 blank cells with the cursor at the top left, whatever the state before.\<close>

theorem term_init_blank:
  "term_ptr (term_init s) = VGA_BUFFER + hhdm_base s \<and> term_inv (term_init s) \<and>
   screen_of (term_init s) = \<lparr>cells = replicate 2000 blank_cell, scol = 0, srow = 0\<rparr>"
  using term_init_refines by blast

end
