(* ===== verification/CString.thy ===== *)
theory CString
  imports PageTable
begin

text \<open>
  \<open>stdlib/string.c\<close>. A \<open>char *\<close> is an address, or a position in a string literal or local array;
  \<open>deref\<close> reads it through a view of the address space, so that a read past either or
  of an unmapped address is None. \<open>strlen\<close> may run forever and is a partial function;
  \<open>strcmp\<close>, \<open>strcpy\<close> and \<open>strcat\<close> are the loops of the source over int counters.
\<close>

section \<open>Character pointers\<close>

datatype cptr = Addr u64 | Lit string nat | Arr "u8 list" nat

fun deref :: "(u64 \<Rightarrow> u8 option) \<Rightarrow> cptr \<Rightarrow> u8 option" where
  "deref view (Addr a) = view a"
| "deref view (Lit cs k) =
     (if k < length cs then Some (of_char (cs ! k)) else if k = length cs then Some 0 else None)"
| "deref view (Arr bs k) = (if k < length bs then Some (bs ! k) else None)"

fun pinc :: "cptr \<Rightarrow> cptr" where
  "pinc (Addr a) = Addr (a + 1)"
| "pinc (Lit cs k) = Lit cs (Suc k)"
| "pinc (Arr bs k) = Arr bs (Suc k)"

text \<open>The bytes of a literal, and the contents of a terminated string.\<close>

definition bytes_of :: "string \<Rightarrow> u8 list" where
  "bytes_of cs = map of_char cs"

fun cstring :: "(cptr \<Rightarrow> u8 option) \<Rightarrow> cptr \<Rightarrow> u8 list \<Rightarrow> bool" where
  "cstring rd p [] \<longleftrightarrow> rd p = Some 0"
| "cstring rd p (c # cs) \<longleftrightarrow> rd p = Some c \<and> c \<noteq> 0 \<and> cstring rd (pinc p) cs"

lemma cstring_unique: "cstring rd p xs \<Longrightarrow> cstring rd p ys \<Longrightarrow> xs = ys"
proof (induction xs arbitrary: p ys)
  case Nil
  then show ?case by (cases ys) auto
next
  case (Cons x xs)
  then show ?case by (cases ys) auto
qed

lemma unat_of_char: "unat (of_char c :: u8) = of_char c"
  using unat_of_nat [where 'a = 8, of "of_char c"] by (simp add: of_nat_of_char)

lemma of_char_inject: "(of_char c :: u8) = of_char d \<longleftrightarrow> c = d"
  by (metis of_char_eq_iff unat_of_char)

lemma of_char_eq_0: "(of_char c :: u8) = 0 \<longleftrightarrow> c = CHR 0x00"
  using of_char_inject [of c "CHR 0x00"] by simp

lemma cstring_lit_from:
  "k + length cs = length ds \<Longrightarrow> drop k ds = cs \<Longrightarrow> CHR 0x00 \<notin> set cs \<Longrightarrow>
   cstring (deref view) (Lit ds k) (bytes_of cs)"
proof (induction cs arbitrary: k)
  case Nil
  then show ?case by (simp add: bytes_of_def)
next
  case (Cons c cs)
  have k: "k < length ds" using Cons.prems(1) by simp
  then have "ds ! k = c" "drop (Suc k) ds = cs"
    using Cons.prems(2) by (simp_all add: Cons_nth_drop_Suc [symmetric])
  moreover have "(of_char c :: u8) \<noteq> 0"
    using Cons.prems(3) by (auto simp: of_char_eq_0)
  ultimately show ?case
    using k Cons.IH [of "Suc k"] Cons.prems by (simp add: bytes_of_def)
qed

lemma cstring_lit: "CHR 0x00 \<notin> set cs \<Longrightarrow> cstring (deref view) (Lit cs 0) (bytes_of cs)"
  by (rule cstring_lit_from) simp_all

section \<open>strlen\<close>

partial_function (option) strlen_loop :: "(cptr \<Rightarrow> u8 option) \<Rightarrow> cptr \<Rightarrow> u64 \<Rightarrow> u64 option" where
  "strlen_loop rd str len =
     do { c \<leftarrow> rd str; if c \<noteq> 0 then strlen_loop rd (pinc str) (len + 1) else Some len }"

definition strlen :: "(cptr \<Rightarrow> u8 option) \<Rightarrow> cptr \<Rightarrow> u64 option" where
  "strlen rd str = strlen_loop rd str 0"

lemma strlen_loop_cstring:
  "cstring rd p cs \<Longrightarrow> strlen_loop rd p n = Some (n + of_nat (length cs))"
proof (induction cs arbitrary: p n)
  case Nil
  then show ?case by (subst strlen_loop.simps) simp
next
  case (Cons c cs)
  then show ?case by (subst strlen_loop.simps) (simp add: add.assoc)
qed

lemma strlen_cstring: "cstring rd p cs \<Longrightarrow> strlen rd p = Some (of_nat (length cs))"
  by (simp add: strlen_def strlen_loop_cstring)

section \<open>strcmp\<close>

text \<open>The assignment \<open>int len = strlen(s)\<close>: the low 32 bits, read as signed.\<close>

definition int_of_len :: "u64 \<Rightarrow> int" where
  "int_of_len n = sint (ucast n :: u32)"

function strcmp_loop :: "(cptr \<Rightarrow> u8 option) \<Rightarrow> cptr \<Rightarrow> cptr \<Rightarrow> int \<Rightarrow> int \<Rightarrow> int option" where
  "strcmp_loop rd s1 s2 len1 i =
     (if i < len1 then
        do { c1 \<leftarrow> rd s1; c2 \<leftarrow> rd s2;
             if c1 = c2 then strcmp_loop rd (pinc s1) (pinc s2) len1 (i + 1)
             else if sint c1 > sint c2 then Some 1
             else Some (-1) }
      else Some 0)"
  by pat_completeness auto
termination
  by (relation "measure (\<lambda>(rd, s1, s2, len1, i). nat (len1 - i))") auto

declare strcmp_loop.simps [simp del]

definition strcmp :: "(cptr \<Rightarrow> u8 option) \<Rightarrow> cptr \<Rightarrow> cptr \<Rightarrow> int option" where
  "strcmp rd s1 s2 =
     do { l1 \<leftarrow> strlen rd s1; l2 \<leftarrow> strlen rd s2;
          let len1 = int_of_len l1;
          let len2 = int_of_len l2;
          if len1 = len2 then strcmp_loop rd s1 s2 len1 0
          else if len1 > len2 then Some 1
          else Some (-1) }"

text \<open>The order the code computes: by length first, then by the first difference of signed chars.\<close>

fun lex_order :: "u8 list \<Rightarrow> u8 list \<Rightarrow> int" where
  "lex_order (x # xs) (y # ys) = (if x = y then lex_order xs ys else if sint x > sint y then 1 else -1)"
| "lex_order xs ys = 0"

definition str_order :: "u8 list \<Rightarrow> u8 list \<Rightarrow> int" where
  "str_order xs ys =
     (if length xs = length ys then lex_order xs ys else if length xs > length ys then 1 else -1)"

lemma int_of_len_small: "n < 2147483648 \<Longrightarrow> int_of_len (of_nat n) = int n"
  by (simp add: int_of_len_def sint_uint unsigned_ucast_eq unsigned_of_nat signed_take_bit_int_eq_self
      take_bit_nat_eq_self take_bit_int_eq_self)

lemma strcmp_loop_order:
  "cstring rd p xs \<Longrightarrow> cstring rd q ys \<Longrightarrow> length xs = length ys \<Longrightarrow> i + int (length xs) = n \<Longrightarrow>
   strcmp_loop rd p q n i = Some (lex_order xs ys)"
proof (induction xs ys arbitrary: p q i rule: lex_order.induct)
  case (1 x xs y ys)
  then show ?case by (subst strcmp_loop.simps) simp
qed (subst strcmp_loop.simps, simp)+

lemma strcmp_order:
  assumes "cstring rd p xs" "cstring rd q ys" "length xs < 2147483648" "length ys < 2147483648"
  shows "strcmp rd p q = Some (str_order xs ys)"
  using assms
  by (simp add: strcmp_def strlen_cstring int_of_len_small str_order_def strcmp_loop_order)

lemma lex_order_eq_0: "length xs = length ys \<Longrightarrow> lex_order xs ys = 0 \<longleftrightarrow> xs = ys"
  by (induction xs ys rule: lex_order.induct) auto

lemma sint_inject: "sint x = sint y \<longleftrightarrow> x = (y :: 'a::len word)"
  using signed_word_eqI by blast

lemma lex_order_swap: "lex_order ys xs = - lex_order xs ys"
proof (induction xs ys rule: lex_order.induct)
  case (1 x xs y ys)
  then show ?case using sint_inject [of x y] by auto
qed auto

lemma lex_order_trans:
  "length xs = length ys \<Longrightarrow> length ys = length zs \<Longrightarrow>
   lex_order xs ys = -1 \<Longrightarrow> lex_order ys zs = -1 \<Longrightarrow> lex_order xs zs = -1"
proof (induction xs ys arbitrary: zs rule: lex_order.induct)
  case (1 x xs y ys)
  then obtain z zs' where zs: "zs = z # zs'" by (cases zs) auto
  show ?case using 1 sint_inject [of x z] sint_inject [of y z] by (auto simp: zs split: if_splits)
qed auto

lemma str_order_eq_0: "str_order xs ys = 0 \<longleftrightarrow> xs = ys"
  by (auto simp: str_order_def lex_order_eq_0)

lemma str_order_swap: "str_order ys xs = - str_order xs ys"
  by (simp add: str_order_def lex_order_swap [of ys xs])

lemma str_order_range: "str_order xs ys \<in> {-1, 0, 1}"
proof -
  have "lex_order xs ys \<in> {-1, 0, 1}" by (induction xs ys rule: lex_order.induct) auto
  then show ?thesis by (simp add: str_order_def)
qed

lemma str_order_trans: "str_order xs ys = -1 \<Longrightarrow> str_order ys zs = -1 \<Longrightarrow> str_order xs zs = -1"
  using lex_order_trans [of xs ys zs] by (auto simp: str_order_def split: if_splits)

section \<open>strcpy\<close>

text \<open>The kernel's own view of memory, where every address can be read.\<close>

definition mem_view :: "mem \<Rightarrow> cptr \<Rightarrow> u8 option" where
  "mem_view m = deref (\<lambda>a. Some (m a))"

function strcpy_loop :: "mem \<Rightarrow> u64 \<Rightarrow> cptr \<Rightarrow> int \<Rightarrow> int \<Rightarrow> (mem \<times> u64) option" where
  "strcpy_loop m dest src len i =
     (if i < len then
        do { c \<leftarrow> mem_view m src; strcpy_loop (m(dest := c)) (dest + 1) (pinc src) len (i + 1) }
      else Some (m, dest))"
  by pat_completeness auto
termination
  by (relation "measure (\<lambda>(m, d, s, len, i). nat (len - i))") auto

declare strcpy_loop.simps [simp del]

definition strcpy :: "mem \<Rightarrow> u64 \<Rightarrow> cptr \<Rightarrow> (mem \<times> u64) option" where
  "strcpy m dest src =
     do { l \<leftarrow> strlen (mem_view m) src; strcpy_loop m dest src (int_of_len l) 0 }"

fun ptr_covers :: "cptr \<Rightarrow> nat \<Rightarrow> u64 \<Rightarrow> bool" where
  "ptr_covers (Addr a) n b \<longleftrightarrow> (\<exists>k \<le> n. b = a + of_nat k)"
| "ptr_covers (Lit cs k) n b \<longleftrightarrow> False"
| "ptr_covers (Arr bs k) n b \<longleftrightarrow> False"

lemma ptr_covers_pinc: "ptr_covers (pinc p) n b \<Longrightarrow> ptr_covers p (Suc n) b"
  by (cases p) (auto simp: add.assoc intro: exI [of _ "Suc _"])

lemma cstring_unwritten:
  "\<not> ptr_covers p (length cs) b \<Longrightarrow> cstring (mem_view (m(b := v))) p cs = cstring (mem_view m) p cs"
proof (induction cs arbitrary: p)
  case Nil
  then show ?case by (cases p) (auto simp: mem_view_def)
next
  case (Cons c cs)
  have "mem_view (m(b := v)) p = mem_view m p"
    using Cons.prems by (cases p) (auto simp: mem_view_def)
  moreover have "cstring (mem_view (m(b := v))) (pinc p) cs = cstring (mem_view m) (pinc p) cs"
    using Cons.prems ptr_covers_pinc [of p "length cs" b] by (intro Cons.IH) auto
  ultimately show ?case by (simp only: cstring.simps)
qed

text \<open>The copy: the characters arrive, nothing else changes, and the end pointer is returned.\<close>

lemma strcpy_loop_copies:
  assumes "cstring (mem_view m) src cs" "i + int (length cs) = n" "length cs < 2 ^ 63"
    "\<And>j. j < length cs \<Longrightarrow> \<not> ptr_covers src (length cs) (dest + of_nat j)"
  shows "\<exists>m'. strcpy_loop m dest src n i = Some (m', dest + of_nat (length cs)) \<and>
    (\<forall>b. m' b = (if unat (b - dest) < length cs then cs ! unat (b - dest) else m b))"
  using assms
proof (induction cs arbitrary: m src dest i)
  case Nil
  then show ?case by (subst strcpy_loop.simps) simp
next
  case (Cons c cs)
  let ?m = "m(dest := c)"
  have "\<not> ptr_covers (pinc src) (length cs) dest"
    using Cons.prems(4) [of 0] ptr_covers_pinc by auto
  then have str: "cstring (mem_view ?m) (pinc src) cs"
    using Cons.prems(1) by (simp add: cstring_unwritten)
  have "\<exists>m'. strcpy_loop ?m (dest + 1) (pinc src) n (i + 1) = Some (m', dest + 1 + of_nat (length cs)) \<and>
    (\<forall>b. m' b = (if unat (b - (dest + 1)) < length cs then cs ! unat (b - (dest + 1)) else ?m b))"
  proof (rule Cons.IH [OF str])
    fix j assume "j < length cs"
    then show "\<not> ptr_covers (pinc src) (length cs) (dest + 1 + of_nat j)"
      using Cons.prems(4) [of "Suc j"] ptr_covers_pinc by (auto simp: add.assoc)
  qed (use Cons.prems in auto)
  then obtain m' where m': "strcpy_loop ?m (dest + 1) (pinc src) n (i + 1) = Some (m', dest + 1 + of_nat (length cs))"
    "\<And>b. m' b = (if unat (b - (dest + 1)) < length cs then cs ! unat (b - (dest + 1)) else ?m b)"
    by blast
  have "m' b = (if unat (b - dest) < length (c # cs) then (c # cs) ! unat (b - dest) else m b)" for b
  proof (cases "b = dest")
    case True
    moreover have "unat (- 1 :: u64) = 18446744073709551615" by (simp add: unsigned_minus_1_eq_mask mask_numeral)
    ultimately show ?thesis using m'(2) [of b] Cons.prems(3) by simp
  next
    case False
    then have "unat (b - (dest + 1)) = unat (b - dest) - 1" "0 < unat (b - dest)"
      using unat_minus_one [of "b - dest"] by (simp_all add: unat_gt_0 diff_diff_add)
    then show ?thesis using m'(2) [of b] False by (auto simp: nth_Cons')
  qed
  moreover have "strcpy_loop m dest src n i = Some (m', dest + of_nat (length (c # cs)))"
    using m'(1) Cons.prems(1,2) by (subst strcpy_loop.simps) (simp add: add.assoc)
  ultimately show ?case by blast
qed

section \<open>strcat\<close>

text \<open>
  The result is built in a local array of \<open>oglen + len + 1\<close> chars; a write outside it is
  undefined. Its contents are lost on return, so the model returns them as a list.
\<close>

definition buf_write :: "u8 list \<Rightarrow> int \<Rightarrow> u8 \<Rightarrow> u8 list option" where
  "buf_write buf i c = (if 0 \<le> i \<and> i < int (length buf) then Some (buf[nat i := c]) else None)"

function strcat_loop :: "(cptr \<Rightarrow> u8 option) \<Rightarrow> u8 list \<Rightarrow> cptr \<Rightarrow> int \<Rightarrow> int \<Rightarrow> int \<Rightarrow> u8 list option" where
  "strcat_loop rd buf src base len i =
     (if i < len then
        do { c \<leftarrow> rd src; buf' \<leftarrow> buf_write buf (base + i) c;
             strcat_loop rd buf' (pinc src) base len (i + 1) }
      else Some buf)"
  by pat_completeness auto
termination
  by (relation "measure (\<lambda>(rd, buf, src, base, len, i). nat (len - i))") auto

declare strcat_loop.simps [simp del]

definition strcat :: "u8 \<Rightarrow> (cptr \<Rightarrow> u8 option) \<Rightarrow> cptr \<Rightarrow> cptr \<Rightarrow> int \<Rightarrow> u8 list option" where
  "strcat uninit rd dest src len =
     do { l \<leftarrow> strlen rd dest;
          let oglen = int_of_len l;
          let buf = replicate (nat (oglen + len + 1)) uninit;
          buf \<leftarrow> strcat_loop rd buf dest 0 oglen 0;
          buf \<leftarrow> strcat_loop rd buf src oglen len 0;
          buf_write buf (oglen + len + 1) 0 }"

lemma buf_write_length: "buf_write buf i c = Some buf' \<Longrightarrow> length buf' = length buf"
  by (auto simp: buf_write_def split: if_splits)

lemma strcat_loop_length:
  "strcat_loop rd buf src base len i = Some buf' \<Longrightarrow> length buf' = length buf"
proof (induction rd buf src base len i rule: strcat_loop.induct)
  case (1 rd buf src base len i)
  show ?case
  proof (cases "i < len")
    case True
    with "1.prems" obtain c buf2 where "rd src = Some c" "buf_write buf (base + i) c = Some buf2"
      "strcat_loop rd buf2 (pinc src) base len (i + 1) = Some buf'"
      by (subst (asm) strcat_loop.simps) (auto split: Option.bind_splits)
    then show ?thesis using "1.IH" True by (simp add: buf_write_length)
  next
    case False
    with "1.prems" show ?thesis by (subst (asm) strcat_loop.simps) simp
  qed
qed

lemma strcat_overruns: "strcat uninit rd dest src len = None"
proof (cases "strlen rd dest")
  case (Some l)
  have "buf_write buf (int_of_len l + len + 1) 0 = None"
    if "length buf = nat (int_of_len l + len + 1)" for buf
    using that by (simp add: buf_write_def)
  with Some show ?thesis
    by (auto simp: strcat_def Let_def split: Option.bind_splits dest!: strcat_loop_length)
qed (simp add: strcat_def)

section \<open>Properties\<close>

text \<open>C15: on two terminated strings of fewer than \<open>2^31\<close> characters \<open>strcmp\<close> returns
  1, 0 or -1; 0 exactly for equal contents; the opposite sign with the arguments swapped;
  and the order it gives is transitive. A longer string is always the greater one.\<close>

theorem strcmp_total_order:
  assumes "cstring rd p xs" "cstring rd q ys" "cstring rd r zs"
    and "length xs < 2147483648" "length ys < 2147483648" "length zs < 2147483648"
  shows "(\<exists>c \<in> {-1, 0, 1}. strcmp rd p q = Some c \<and> strcmp rd q p = Some (- c) \<and> (c = 0 \<longleftrightarrow> xs = ys) \<and>
      (length xs < length ys \<longrightarrow> c = -1)) \<and>
    (strcmp rd p q = Some (-1) \<and> strcmp rd q r = Some (-1) \<longrightarrow> strcmp rd p r = Some (-1))"
proof (rule conjI)
  have range: "str_order xs ys \<in> {-1, 0, 1}" by (rule str_order_range)
  have longer: "length xs < length ys \<longrightarrow> str_order xs ys = -1" by (simp add: str_order_def)
  show "\<exists>c \<in> {-1, 0, 1}. strcmp rd p q = Some c \<and> strcmp rd q p = Some (- c) \<and> (c = 0 \<longleftrightarrow> xs = ys) \<and>
      (length xs < length ys \<longrightarrow> c = -1)"
    by (rule bexI [OF _ range]) (use longer assms in \<open>simp add: strcmp_order str_order_eq_0 str_order_swap [of ys xs]\<close>)
  show "strcmp rd p q = Some (-1) \<and> strcmp rd q r = Some (-1) \<longrightarrow> strcmp rd p r = Some (-1)"
    using str_order_trans [of xs ys zs] assms by (simp add: strcmp_order)
qed

theorem strcmp_total_order_witness:
  "strcmp (deref (\<lambda>_. None)) (Lit ''echo'' 0) (Lit ''wait'' 0) = Some (-1) \<and>
   strcmp (deref (\<lambda>_. None)) (Lit ''wait'' 0) (Lit ''sleep'' 0) = Some (-1) \<and>
   strcmp (deref (\<lambda>_. None)) (Lit ''echo'' 0) (Lit ''sleep'' 0) = Some (-1)"
proof -
  have s: "cstring (deref (\<lambda>_. None)) (Lit ''echo'' 0) (bytes_of ''echo'')"
    "cstring (deref (\<lambda>_. None)) (Lit ''wait'' 0) (bytes_of ''wait'')"
    "cstring (deref (\<lambda>_. None)) (Lit ''sleep'' 0) (bytes_of ''sleep'')"
    by (rule cstring_lit; simp)+
  have a: "strcmp (deref (\<lambda>_. None)) (Lit ''echo'' 0) (Lit ''wait'' 0) = Some (-1)"
    using strcmp_order [OF s(1,2)] by (simp add: bytes_of_def str_order_def)
  have b: "strcmp (deref (\<lambda>_. None)) (Lit ''wait'' 0) (Lit ''sleep'' 0) = Some (-1)"
    using strcmp_order [OF s(2,3)] by (simp add: bytes_of_def str_order_def)
  show ?thesis
    using a b strcmp_total_order [OF s(1,2,3)] by (simp add: bytes_of_def)
qed

text \<open>\<open>strcat\<close> never has a defined result: the array has room for the two strings and
  a terminator, and the terminator is written one past its end.\<close>

theorem strcat_out_of_bounds: "strcat uninit rd dest src len = None"
  by (rule strcat_overruns)

text \<open>C21: \<open>strcpy\<close> copies the characters of the source and not its terminator, and
  returns the address after the last one: the byte there is the one that was there before.\<close>

theorem strcpy_no_terminator:
  assumes "cstring (mem_view m) src cs" "length cs < 2147483648"
    and "\<And>j. j < length cs \<Longrightarrow> \<not> ptr_covers src (length cs) (dest + of_nat j)"
  shows "\<exists>m'. strcpy m dest src = Some (m', dest + of_nat (length cs)) \<and>
    (\<forall>k < length cs. m' (dest + of_nat k) = cs ! k) \<and>
    m' (dest + of_nat (length cs)) = m (dest + of_nat (length cs))"
proof -
  have l: "int_of_len (of_nat (length cs)) = int (length cs)" using assms(2) by (rule int_of_len_small)
  obtain m' where m': "strcpy_loop m dest src (int (length cs)) 0 = Some (m', dest + of_nat (length cs))"
    "\<And>b. m' b = (if unat (b - dest) < length cs then cs ! unat (b - dest) else m b)"
    using strcpy_loop_copies [OF assms(1), of 0 "int (length cs)" dest] assms(2,3) by auto
  then show ?thesis
    using assms by (simp add: strcpy_def strlen_cstring l unat_of_nat)
qed

theorem strcpy_no_terminator_witness:
  "\<exists>m'. strcpy (\<lambda>_. 7) 0x100 (Lit ''hi'' 0) = Some (m', 0x102) \<and> m' 0x101 = of_char CHR ''i'' \<and> m' 0x102 = 7"
proof -
  have c: "cstring (mem_view (\<lambda>_. 7)) (Lit ''hi'' 0) (bytes_of ''hi'')"
    unfolding mem_view_def by (rule cstring_lit) simp
  have "\<exists>m'. strcpy (\<lambda>_. 7) 0x100 (Lit ''hi'' 0) = Some (m', 0x100 + of_nat (length (bytes_of ''hi''))) \<and>
    (\<forall>k < length (bytes_of ''hi''). m' (0x100 + of_nat k) = bytes_of ''hi'' ! k) \<and>
    m' (0x100 + of_nat (length (bytes_of ''hi''))) = 7"
    using strcpy_no_terminator [OF c, of "0x100"] by (simp add: bytes_of_def)
  then obtain m' where m': "strcpy (\<lambda>_. 7) 0x100 (Lit ''hi'' 0) = Some (m', 0x102)"
    "\<And>k. k < 2 \<Longrightarrow> m' (0x100 + of_nat k) = bytes_of ''hi'' ! k" "m' 0x102 = 7"
    by (auto simp: bytes_of_def)
  from m'(2) [of 1] have "m' 0x101 = of_char CHR ''i''" by (simp add: bytes_of_def)
  with m' show ?thesis by blast
qed

end
