(* ===== verification/Kprint.thy ===== *)
theory Kprint
  imports Terminal CString
begin

text \<open>
  \<open>kernel/kprint.c\<close>: printing characters, strings, decimal and hexadecimal numbers,
  pointers and formats, all through \<open>term_putchar\<close>. Local arrays are lists of optional
  values (None before the first write), so an index out of range or a read of an
  uninitialised element is the result None. \<open>kprint_d\<close> and \<open>kprint_x\<close> are the same
  two loops over a base, an array length and a digit-to-character conversion, and share
  \<open>digits_fill\<close> and \<open>digits_out\<close> (the guard \<open>1 < base\<close> is true of both).
\<close>

section \<open>Characters and strings\<close>

definition kview :: "'a machine_scheme \<Rightarrow> cptr \<Rightarrow> u8 option" where
  "kview s = deref (vread s)"

definition kprint_c :: "u8 \<Rightarrow> 'a terminal_scheme \<Rightarrow> 'a terminal_scheme" where
  "kprint_c c s = term_putchar c s"

function kprint_s_loop :: "cptr \<Rightarrow> u64 \<Rightarrow> int \<Rightarrow> 'a terminal_scheme \<Rightarrow> 'a terminal_scheme option" where
  "kprint_s_loop str len i s =
     (if word_of_int i < len
      then do { c \<leftarrow> kview s str;
                if i \<ge> 2147483647 then None
                else kprint_s_loop (pinc str) len (i + 1) (term_putchar c s) }
      else Some s)"
  by pat_completeness auto
termination
  by (relation "measure (\<lambda>(str, len, i, s). nat (2147483647 - i))") auto

declare kprint_s_loop.simps [simp del]

definition kprint_s :: "cptr \<Rightarrow> 'a terminal_scheme \<Rightarrow> 'a terminal_scheme option" where
  "kprint_s str s = do { len \<leftarrow> strlen (kview s) str; kprint_s_loop str len 0 s }"

section \<open>Numbers\<close>

definition arr_read :: "'v option list \<Rightarrow> u64 \<Rightarrow> 'v option" where
  "arr_read xs i = (if unat i < length xs then xs ! unat i else None)"

definition arr_write :: "'v option list \<Rightarrow> u64 \<Rightarrow> 'v \<Rightarrow> 'v option list option" where
  "arr_write xs i v = (if unat i < length xs then Some (xs[unat i := Some v]) else None)"

function digits_fill ::
  "u64 \<Rightarrow> (u64 \<Rightarrow> u8) \<Rightarrow> u64 \<Rightarrow> u64 option list \<Rightarrow> u64 \<Rightarrow> 'a terminal_scheme \<Rightarrow>
   (u64 option list \<times> u64 \<times> 'a terminal_scheme) option" where
  "digits_fill base digit value digits place s =
     (if 1 < base \<and> value div base \<noteq> 0
      then do { digits \<leftarrow> arr_write digits place (value mod base);
                let value = value div base;
                let (place, s) = (if value < base then (place + 1, kprint_c (digit value) s) else (place, s));
                digits_fill base digit value digits (place - 1) s }
      else Some (digits, place, s))"
  by pat_completeness auto
termination
proof (relation "measure (\<lambda>(base, digit, v, digits, place, s). unat v)")
  have less: "unat (v div base) < unat v" if "1 < base \<and> v div base \<noteq> 0" for v base :: u64
  proof -
    have "unat v \<noteq> 0" using that by (auto simp: unat_eq_zero)
    moreover have "1 < unat base" using that by (simp add: word_less_nat_alt)
    ultimately show ?thesis by (simp add: unat_div)
  qed
  show "((base, digit, v', ds, p, s'), base, digit, v, digits, place, s)
      \<in> measure (\<lambda>(base, digit, v, digits, place, s). unat v)"
    if "1 < base \<and> v div base \<noteq> 0" "v' = v div base"
    for base v v' :: u64 and digit ds p s' digits place and s :: "'a terminal_scheme"
    using less [OF that(1)] that(2) by simp
qed simp_all

declare digits_fill.simps [simp del]

function digits_out ::
  "(u64 \<Rightarrow> u8) \<Rightarrow> u64 option list \<Rightarrow> u64 \<Rightarrow> u64 \<Rightarrow> 'a terminal_scheme \<Rightarrow> 'a terminal_scheme option" where
  "digits_out digit digits len place s =
     (if place < len
      then do { d \<leftarrow> arr_read digits place;
                digits_out digit digits len (place + 1) (kprint_c (digit d) s) }
      else Some s)"
  by pat_completeness auto
termination
  by (relation "measure (\<lambda>(digit, digits, len, place, s). unat len - unat place)")
    (simp_all add: inc_decreases)

declare digits_out.simps [simp del]

definition dec_digit :: "u64 \<Rightarrow> u8" where
  "dec_digit v = ucast (v + 48)"

definition hex_digit :: "u64 \<Rightarrow> u8" where
  "hex_digit v = (if v < 10 then ucast (v + 48) else ucast (v + 97 - 10))"

definition kprint_d :: "u64 \<Rightarrow> 'a terminal_scheme \<Rightarrow> 'a terminal_scheme option" where
  "kprint_d value s =
     (if value < 10 then Some (kprint_c (dec_digit value) s)
      else do { (digits, place, s) \<leftarrow> digits_fill 10 dec_digit value (replicate 20 None) 19 s;
                digits_out dec_digit digits 20 place s })"

definition kprint_x :: "u64 \<Rightarrow> 'a terminal_scheme \<Rightarrow> 'a terminal_scheme option" where
  "kprint_x value s =
     (if value < 17 then Some (kprint_c (hex_digit value) s)
      else do { (digits, place, s) \<leftarrow> digits_fill 16 hex_digit value (replicate 16 None) 15 s;
                digits_out hex_digit digits 16 place s })"

definition kprint_p :: "u64 \<Rightarrow> 'a terminal_scheme \<Rightarrow> 'a terminal_scheme option" where
  "kprint_p ptr s = kprint_x ptr (kprint_c 120 (kprint_c 48 s))"

section \<open>Formats\<close>

datatype va = Va_int u64 | Va_str cptr

definition lit_at :: "string \<Rightarrow> nat \<Rightarrow> u8 option" where
  "lit_at format index = deref (\<lambda>_. None) (Lit format index)"

text \<open>One conversion: the character after the percent sign, and the arguments left.\<close>

definition kprintf_conv :: "u8 \<Rightarrow> va list \<Rightarrow> 'a terminal_scheme \<Rightarrow> (va list \<times> 'a terminal_scheme) option" where
  "kprintf_conv c args s =
     (if c = of_char CHR ''%'' then Some (args, kprint_c (of_char CHR ''%'') s)
      else if c = of_char CHR ''c'' then
        (case args of Va_int v # rest \<Rightarrow> Some (rest, kprint_c (ucast v) s) | _ \<Rightarrow> None)
      else if c = of_char CHR ''s'' then
        (case args of Va_str p # rest \<Rightarrow> map_option (Pair rest) (kprint_s p s) | _ \<Rightarrow> None)
      else if c = of_char CHR ''d'' then
        (case args of Va_int v # rest \<Rightarrow> map_option (Pair rest) (kprint_d v s) | _ \<Rightarrow> None)
      else if c = of_char CHR ''x'' then
        (case args of Va_int v # rest \<Rightarrow> map_option (Pair rest) (kprint_x v s) | _ \<Rightarrow> None)
      else if c = of_char CHR ''p'' then
        (case args of Va_int v # rest \<Rightarrow> map_option (Pair rest) (kprint_p v s) | _ \<Rightarrow> None)
      else map_option (Pair args) (kprint_s (Lit ''<not supported>'' 0) s))"

lemma lit_at_bound: "lit_at format index = Some c \<Longrightarrow> index \<le> length format"
  by (auto simp: lit_at_def split: if_splits)

function kprintf_loop :: "string \<Rightarrow> nat \<Rightarrow> va list \<Rightarrow> 'a terminal_scheme \<Rightarrow> 'a terminal_scheme option" where
  "kprintf_loop format index args s =
     do { c \<leftarrow> lit_at format index;
          if c = 0 then Some s
          else if c = of_char CHR ''%'' then
            do { c \<leftarrow> lit_at format (index + 1);
                 (args, s) \<leftarrow> kprintf_conv c args s;
                 kprintf_loop format (index + 2) args s }
          else kprintf_loop format (index + 1) args (kprint_c c s) }"
  by pat_completeness auto
termination
  by (relation "measure (\<lambda>(format, index, args, s). length format + 2 - index)")
    (auto dest!: lit_at_bound)

declare kprintf_loop.simps [simp del]

definition kprintf :: "string \<Rightarrow> va list \<Rightarrow> 'a terminal_scheme \<Rightarrow> 'a terminal_scheme option" where
  "kprintf format args s = kprintf_loop format 0 args s"

section \<open>What is printed\<close>

text \<open>Digits of a number, most significant first, and the value they spell.\<close>

fun radix_digits :: "nat \<Rightarrow> nat \<Rightarrow> nat list" where
  "radix_digits b n = (if b \<le> 1 \<or> n < b then [n] else radix_digits b (n div b) @ [n mod b])"

declare radix_digits.simps [simp del]

lemma radix_digits_small: "n < b \<Longrightarrow> radix_digits b n = [n]"
  by (subst radix_digits.simps) simp

lemma radix_digits_big: "1 < b \<Longrightarrow> b \<le> n \<Longrightarrow> radix_digits b n = radix_digits b (n div b) @ [n mod b]"
  by (subst radix_digits.simps) simp

lemma radix_digits_value: "1 < b \<Longrightarrow> foldl (\<lambda>a d. a * b + d) 0 (radix_digits b n) = n"
proof (induction b n rule: radix_digits.induct)
  case (1 b n)
  then show ?case
    by (cases "n < b") (simp_all add: radix_digits_small radix_digits_big not_less)
qed

lemma radix_digits_range: "1 < b \<Longrightarrow> d \<in> set (radix_digits b n) \<Longrightarrow> d < b"
proof (induction b n rule: radix_digits.induct)
  case (1 b n)
  then show ?case
    by (cases "n < b") (auto simp: radix_digits_small radix_digits_big not_less)
qed

lemma radix_digits_lead: "1 < b \<Longrightarrow> 0 < n \<Longrightarrow> 0 < hd (radix_digits b n)"
proof (induction b n rule: radix_digits.induct)
  case (1 b n)
  have "radix_digits b (n div b) \<noteq> []" by (subst radix_digits.simps) simp
  then show ?case
    using 1 by (cases "n < b") (auto simp: radix_digits_small radix_digits_big not_less div_greater_zero_iff)
qed

lemma radix_digits_length: "1 < b \<Longrightarrow> n < b ^ Suc k \<Longrightarrow> length (radix_digits b n) \<le> Suc k"
proof (induction k arbitrary: n)
  case 0
  then show ?case by (simp add: radix_digits_small)
next
  case (Suc k)
  show ?case
  proof (cases "n < b")
    case False
    have "n div b < b ^ Suc k" using Suc.prems by (simp add: less_mult_imp_div_less mult.commute)
    then show ?thesis using Suc False by (simp add: radix_digits_big not_less)
  qed (simp add: radix_digits_small)
qed

lemma radix_digits_nonempty [simp]: "radix_digits b n \<noteq> []"
  by (subst radix_digits.simps) simp

section \<open>The digit loops\<close>

lemma digits_out_eq:
  assumes "length D = unat len" "unat place + length xs = length D" "drop (unat place) D = map Some xs"
  shows "digits_out digit D len place s = Some (term_puts (map digit xs) s)"
  using assms
proof (induction xs arbitrary: place s)
  case Nil
  then have "\<not> place < len" by (simp add: word_less_nat_alt)
  then show ?case by (subst digits_out.simps) simp
next
  case (Cons x xs)
  then have less: "place < len" by (simp add: word_less_nat_alt)
  then have up: "unat (place + 1) = Suc (unat place)" by (rule unat_inc)
  have "drop (unat place) D = D ! unat place # drop (Suc (unat place)) D"
    using Cons.prems by (intro Cons_nth_drop_Suc [symmetric]) simp
  then have here: "D ! unat place = Some x" "drop (Suc (unat place)) D = map Some xs"
    using Cons.prems(3) by simp_all
  have "digits_out digit D len (place + 1) (kprint_c (digit x) s) = Some (term_puts (map digit xs) (kprint_c (digit x) s))"
    by (rule Cons.IH) (use Cons.prems here up in auto)
  then show ?case
    using less here(1) Cons.prems by (subst digits_out.simps) (simp add: arr_read_def kprint_c_def)
qed

text \<open>
  The fill loop on a number of \<open>Suc k\<close> digits: it prints the first digit and leaves the
  other \<open>k\<close> in the array, the last of them at the place it started from.
\<close>

lemma digits_fill_eq:
  assumes "1 < base" "base \<le> v" "unat p < length D"
    and "radix_digits (unat base) (unat v) = d # ds" "length ds \<le> unat p + 1"
  shows "\<exists>D' p'. digits_fill base digit v D p s = Some (D', p', term_putchar (digit (of_nat d)) s) \<and>
    length D' = length D \<and> unat p' = unat p + 1 - length ds \<and>
    drop (unat p') D' = map (Some \<circ> of_nat) ds @ drop (unat p + 1) D"
  using assms
proof (induction "unat v" arbitrary: v p D ds rule: less_induct)
  case less
  let ?v = "v div base" and ?D = "D[unat p := Some (v mod base)]"
  have b: "1 < unat base" "unat base \<le> unat v"
    using less.prems by (simp_all add: word_less_nat_alt word_le_nat_alt)
  have uv: "unat ?v = unat v div unat base" "unat (v mod base) = unat v mod unat base"
    by (simp_all add: unat_div unat_mod)
  have pos: "0 < unat ?v" "unat ?v < unat v" using b by (simp_all add: uv div_greater_zero_iff)
  then have guard: "1 < base \<and> ?v \<noteq> 0" using less.prems(1) by auto
  have split: "d # ds = radix_digits (unat base) (unat ?v) @ [unat (v mod base)]"
    using b less.prems(4) by (simp add: radix_digits_big uv)
  have wr: "arr_write D p (v mod base) = Some ?D"
    using less.prems(3) by (simp add: arr_write_def)
  show ?case
  proof (cases "?v < base")
    case True
    then have "radix_digits (unat base) (unat ?v) = [unat ?v]"
      by (simp add: radix_digits_small word_less_nat_alt)
    then have ds: "d = unat ?v" "ds = [unat (v mod base)]" using split by simp_all
    have "?v div base = 0" using True by (simp add: word_unat_eq_iff unat_div word_less_nat_alt)
    then have "digits_fill base digit ?v ?D p (kprint_c (digit ?v) s) = Some (?D, p, kprint_c (digit ?v) s)"
      by (subst digits_fill.simps) simp
    then have "digits_fill base digit v D p s = Some (?D, p, term_putchar (digit (of_nat d)) s)"
      using guard wr True ds by (subst digits_fill.simps) (simp add: kprint_c_def)
    moreover have "drop (unat p) ?D = Some (v mod base) # drop (Suc (unat p)) D"
      using less.prems(3) by (simp add: drop_update_swap Cons_nth_drop_Suc [symmetric])
    ultimately show ?thesis using ds by auto
  next
    case False
    then obtain ds' where ds': "radix_digits (unat base) (unat ?v) = d # ds'" "ds = ds' @ [unat (v mod base)]"
      using split by (cases "radix_digits (unat base) (unat ?v)") auto
    have "ds' \<noteq> []"
    proof
      assume "ds' = []"
      then have "foldl (\<lambda>a d. a * unat base + d) 0 [d] = unat ?v"
        using radix_digits_value [OF b(1), of "unat ?v"] ds' by simp
      then have "unat ?v < unat base"
        using radix_digits_range [OF b(1), of d "unat ?v"] ds' by simp
      then show False using False by (simp add: word_less_nat_alt)
    qed
    then have len: "0 < length ds'" "length ds = Suc (length ds')" using ds' by simp_all
    then have p0: "0 < unat p" using less.prems(5) by linarith
    then have pred: "unat (p - 1) = unat p - 1" by (metis unat_gt_0 unat_minus_one)
    have "\<exists>D' p'. digits_fill base digit ?v ?D (p - 1) s = Some (D', p', term_putchar (digit (of_nat d)) s) \<and>
      length D' = length ?D \<and> unat p' = unat (p - 1) + 1 - length ds' \<and>
      drop (unat p') D' = map (Some \<circ> of_nat) ds' @ drop (unat (p - 1) + 1) ?D"
      by (rule less.hyps) (use less.prems pos False ds' pred len p0 in auto)
    then obtain D' p' where rec: "digits_fill base digit ?v ?D (p - 1) s = Some (D', p', term_putchar (digit (of_nat d)) s)"
      "length D' = length D" "unat p' = unat p - length ds'"
      "drop (unat p') D' = map (Some \<circ> of_nat) ds' @ drop (unat p) ?D"
      using pred p0 by auto
    have "digits_fill base digit v D p s = Some (D', p', term_putchar (digit (of_nat d)) s)"
      using guard wr False rec(1) by (subst digits_fill.simps) simp
    moreover have "drop (unat p) ?D = Some (v mod base) # drop (Suc (unat p)) D"
      using less.prems(3) by (simp add: drop_update_swap Cons_nth_drop_Suc [symmetric])
    ultimately show ?thesis using rec ds' len by auto
  qed
qed

lemma digits_print:
  assumes "1 < base" "base \<le> v" "unat v < unat base ^ unat len" "unat len = Suc n" "0 < n"
    "unat p = n" "length D = Suc n"
  shows "do { (D, place, s) \<leftarrow> digits_fill base digit v D p s; digits_out digit D len place s }
    = Some (term_puts (map (digit \<circ> of_nat) (radix_digits (unat base) (unat v))) s)"
proof -
  have b: "1 < unat base" using assms(1) by (simp add: word_less_nat_alt)
  obtain d ds where ds: "radix_digits (unat base) (unat v) = d # ds"
    by (meson neq_Nil_conv radix_digits_nonempty)
  have "length ds \<le> n"
    using radix_digits_length [OF b, of "unat v" n] assms(3,4) ds by simp
  then obtain D' p' where fill: "digits_fill base digit v D p s = Some (D', p', term_putchar (digit (of_nat d)) s)"
    "length D' = Suc n" "unat p' = Suc n - length ds" "drop (unat p') D' = map (Some \<circ> of_nat) ds"
    using digits_fill_eq [OF assms(1,2) _ ds, of p D digit s] assms(6,7) by auto
  have "digits_out digit D' len p' (term_putchar (digit (of_nat d)) s) =
      Some (term_puts (map digit (map of_nat ds)) (term_putchar (digit (of_nat d)) s))"
    by (rule digits_out_eq) (use fill assms(4) \<open>length ds \<le> n\<close> in auto)
  then show ?thesis by (simp add: fill(1) ds)
qed

definition dec_chars :: "u64 \<Rightarrow> u8 list" where
  "dec_chars v = map (\<lambda>d. of_nat (48 + d)) (radix_digits 10 (unat v))"

definition hex_chars :: "u64 \<Rightarrow> u8 list" where
  "hex_chars v = map (\<lambda>d. of_nat (if d < 10 then 48 + d else 87 + d)) (radix_digits 16 (unat v))"

lemma ucast_u8_of_nat: "ucast (of_nat n :: u64) = (of_nat n :: u8)"
  by (simp add: word_unat_eq_iff unsigned_ucast_eq unsigned_take_bit_eq unat_of_nat take_bit_eq_mod
      mod_mod_cancel del: unsigned_of_nat)

lemma dec_digit_of_nat: "dec_digit (of_nat d) = of_nat (48 + d)"
  using ucast_u8_of_nat [of "48 + d"] by (simp add: dec_digit_def add.commute)

lemma hex_digit_of_nat:
  "d < 16 \<Longrightarrow> hex_digit (of_nat d) = of_nat (if d < 10 then 48 + d else 87 + d)"
proof -
  assume "d < 16"
  then have "(of_nat d :: u64) < 10 \<longleftrightarrow> d < 10"
    by (simp add: word_less_nat_alt unat_of_nat)
  then have "hex_digit (of_nat d) = ucast (of_nat (if d < 10 then 48 + d else 87 + d) :: u64)"
    by (simp add: hex_digit_def add.commute)
  then show ?thesis by (simp only: ucast_u8_of_nat)
qed

lemma map_dec_digits: "map (dec_digit \<circ> of_nat) (radix_digits 10 (unat v)) = dec_chars v"
  unfolding dec_chars_def using radix_digits_range [of 10 _ "unat v"]
  by (intro map_cong refl) (simp add: dec_digit_of_nat del: of_nat_add)

lemma map_hex_digits: "map (hex_digit \<circ> of_nat) (radix_digits 16 (unat v)) = hex_chars v"
  unfolding hex_chars_def using radix_digits_range [of 16 _ "unat v"]
  by (intro map_cong refl) (simp add: hex_digit_of_nat del: of_nat_add)

lemma kprint_d_eq: "kprint_d v s = Some (term_puts (dec_chars v) s)"
proof (cases "v < 10")
  case True
  then have "unat v < 10" by (simp add: word_less_nat_alt)
  then have "dec_chars v = [dec_digit v]"
    using dec_digit_of_nat [of "unat v"] by (simp add: dec_chars_def radix_digits_small)
  then show ?thesis using True by (simp add: kprint_d_def kprint_c_def)
next
  case False
  have "unat v < 10 ^ 20" using unsigned_less [of v, where 'a = nat] by simp
  then show ?thesis
    using False digits_print [of 10 v 20 19 19 "replicate 20 None" dec_digit s]
    by (simp add: kprint_d_def map_dec_digits)
qed

lemma kprint_x_eq:
  "kprint_x v s = Some (term_puts (if v = 16 then [of_char CHR ''g''] else hex_chars v) s)"
proof -
  consider "v < 16" | "v = 16" | "16 < v" by fastforce
  then show ?thesis
  proof cases
    case 1
    then have "unat v < 16" "v < 17" "v \<noteq> 16" by (auto simp: word_less_nat_alt)
    moreover from this have "hex_chars v = [hex_digit v]"
      using hex_digit_of_nat [of "unat v"] by (simp add: hex_chars_def radix_digits_small)
    ultimately show ?thesis by (simp add: kprint_x_def kprint_c_def)
  next
    case 2
    then show ?thesis by (simp add: kprint_x_def kprint_c_def hex_digit_def)
  next
    case 3
    then have "\<not> v < 17" "v \<noteq> 16" "16 \<le> v"
      by (auto simp: word_less_nat_alt word_le_nat_alt)
    moreover have "unat v < 16 ^ 16" using unsigned_less [of v, where 'a = nat] by simp
    ultimately show ?thesis
      using digits_print [of 16 v 16 15 15 "replicate 16 None" hex_digit s]
      by (simp add: kprint_x_def map_hex_digits)
  qed
qed

section \<open>Literal strings and formats\<close>

lemma kprint_s_loop_lit:
  assumes "length cs \<le> 2147483647" "k + n = length cs"
  shows "kprint_s_loop (Lit cs k) (of_nat (length cs)) (int k) s = Some (term_puts (bytes_of (drop k cs)) s)"
  using assms
proof (induction n arbitrary: k s)
  case 0
  then have "\<not> word_of_int (int k) < (of_nat (length cs) :: u64)"
    by (subst int_index_less) (simp_all add: unat_of_nat)
  then show ?case using 0 by (subst kprint_s_loop.simps) (simp add: bytes_of_def)
next
  case (Suc n)
  then have "word_of_int (int k) < (of_nat (length cs) :: u64)"
    by (subst int_index_less) (simp_all add: unat_of_nat)
  moreover have "drop k cs = cs ! k # drop (Suc k) cs"
    using Suc.prems by (simp add: Cons_nth_drop_Suc)
  moreover have "kprint_s_loop (Lit cs (Suc k)) (of_nat (length cs)) (int (Suc k)) (term_putchar (of_char (cs ! k)) s)
      = Some (term_puts (bytes_of (drop (Suc k) cs)) (term_putchar (of_char (cs ! k)) s))"
    by (rule Suc.IH) (use Suc.prems in auto)
  ultimately show ?case
    using Suc.prems by (subst kprint_s_loop.simps) (simp add: bytes_of_def kview_def add.commute)
qed

definition lit_ok :: "string \<Rightarrow> bool" where
  "lit_ok cs \<longleftrightarrow> CHR 0x00 \<notin> set cs \<and> length cs \<le> 2147483647"

lemma length_bytes_of [simp]: "length (bytes_of cs) = length cs"
  by (simp add: bytes_of_def)

lemma kprint_s_lit: "lit_ok cs \<Longrightarrow> kprint_s (Lit cs 0) s = Some (term_puts (bytes_of cs) s)"
  using kprint_s_loop_lit [of cs 0 "length cs" s] strlen_cstring [OF cstring_lit]
  by (simp add: kprint_s_def kview_def lit_ok_def)

text \<open>
  The meaning of a format on literal string arguments, as the bytes it prints: None where
  the code reads past the format (a percent sign at its end) or has no fitting argument.
\<close>

definition conv_out :: "char \<Rightarrow> va list \<Rightarrow> (u8 list \<times> va list) option" where
  "conv_out c args =
     (if c = CHR ''%'' then Some ([of_char CHR ''%''], args)
      else if c = CHR ''s'' then
        (case args of Va_str (Lit cs 0) # rest \<Rightarrow> Some (bytes_of cs, rest) | _ \<Rightarrow> None)
      else if c \<in> {CHR ''c'', CHR ''d'', CHR ''x'', CHR ''p''} then
        (case args of
           Va_int v # rest \<Rightarrow>
             Some (if c = CHR ''c'' then [ucast v]
                   else if c = CHR ''d'' then dec_chars v
                   else (if c = CHR ''p'' then bytes_of ''0x'' else [])
                     @ (if v = 16 then bytes_of ''g'' else hex_chars v), rest)
         | _ \<Rightarrow> None)
      else Some (bytes_of ''<not supported>'', args))"

fun fmt_out :: "string \<Rightarrow> va list \<Rightarrow> u8 list option" where
  "fmt_out [] args = Some []"
| "fmt_out [c] args = (if c = CHR ''%'' then None else Some [of_char c])"
| "fmt_out (c # d # cs) args =
     (if c = CHR ''%'' then
        do { (out, args) \<leftarrow> conv_out d args; map_option (append out) (fmt_out cs args) }
      else map_option (Cons (of_char c)) (fmt_out (d # cs) args))"

definition lit_args :: "va list \<Rightarrow> bool" where
  "lit_args args \<longleftrightarrow> (\<forall>p. Va_str p \<in> set args \<longrightarrow> (\<exists>cs. p = Lit cs 0 \<and> lit_ok cs))"

lemma lit_args_Cons: "lit_args (a # args) \<longleftrightarrow>
   (case a of Va_str p \<Rightarrow> (\<exists>cs. p = Lit cs 0 \<and> lit_ok cs) | Va_int v \<Rightarrow> True) \<and> lit_args args"
  by (auto simp: lit_args_def split: va.splits)

lemma of_char_format:
  "(of_char c :: u8) = 37 \<longleftrightarrow> c = CHR ''%''" "(of_char c :: u8) = 99 \<longleftrightarrow> c = CHR ''c''"
  "(of_char c :: u8) = 115 \<longleftrightarrow> c = CHR ''s''" "(of_char c :: u8) = 100 \<longleftrightarrow> c = CHR ''d''"
  "(of_char c :: u8) = 120 \<longleftrightarrow> c = CHR ''x''" "(of_char c :: u8) = 112 \<longleftrightarrow> c = CHR ''p''"
  using of_char_inject [of c "CHR ''%''"] of_char_inject [of c "CHR ''c''"]
    of_char_inject [of c "CHR ''s''"] of_char_inject [of c "CHR ''d''"]
    of_char_inject [of c "CHR ''x''"] of_char_inject [of c "CHR ''p''"]
  by simp_all

lemma lit_ok_unsupported: "lit_ok ''<not supported>''"
  by (simp add: lit_ok_def)

lemma kprintf_conv_out:
  assumes "lit_args args"
  shows "kprintf_conv (of_char c) args s =
    map_option (\<lambda>(out, rest). (rest, term_puts out s)) (conv_out c args)"
proof (cases args)
  case Nil
  then show ?thesis
    by (simp add: kprintf_conv_def conv_out_def of_char_format kprint_c_def kprint_s_lit lit_ok_unsupported)
next
  case (Cons a rest)
  show ?thesis
  proof (cases a)
    case (Va_int v)
    with Cons show ?thesis
      by (simp add: kprintf_conv_def conv_out_def of_char_format kprint_c_def kprint_s_lit
          lit_ok_unsupported kprint_d_eq kprint_x_eq kprint_p_def bytes_of_def)
  next
    case (Va_str p)
    with Cons assms obtain cs where "p = Lit cs 0" "lit_ok cs"
      by (auto simp: lit_args_Cons)
    with Cons Va_str show ?thesis
      by (simp add: kprintf_conv_def conv_out_def of_char_format kprint_c_def kprint_s_lit lit_ok_unsupported)
  qed
qed

lemma conv_out_args: "conv_out c args = Some (out, rest) \<Longrightarrow> lit_args args \<Longrightarrow> lit_args rest"
  by (auto simp: conv_out_def lit_args_Cons split: if_splits list.splits va.splits cptr.splits nat.splits)

lemma kprintf_loop_out:
  assumes "lit_args args" "CHR 0x00 \<notin> set cs" "drop k format = cs" "k \<le> length format"
  shows "kprintf_loop format k args s = map_option (\<lambda>out. term_puts out s) (fmt_out cs args)"
  using assms
proof (induction cs args arbitrary: k s rule: fmt_out.induct)
  case (1 args)
  then have "k = length format" by simp
  then show ?case by (subst kprintf_loop.simps) (simp add: lit_at_def)
next
  case (2 c args)
  from drop_eq_ConsD [OF 2(3)] have k: "length format = Suc k" "format ! k = c"
    by (auto simp: drop_eq_Nil)
  have end': "kprintf_loop format (Suc k) args s = Some s" for s :: "'a terminal_scheme"
    using k by (subst kprintf_loop.simps) (simp add: lit_at_def)
  show ?case
  proof (cases "c = CHR ''%''")
    case True
    have conv0: "kprintf_conv 0 args s = map_option (\<lambda>(out, rest). (rest, term_puts out s)) (conv_out (CHR 0x00) args)"
      using kprintf_conv_out [OF 2(1), of "CHR 0x00" s] by simp
    have "kprintf_loop format (Suc (Suc k)) args s' = None" for args and s' :: "'a terminal_scheme"
      using k by (subst kprintf_loop.simps) (simp add: lit_at_def)
    with True k conv0 show ?thesis
      by (subst kprintf_loop.simps) (simp add: lit_at_def conv_out_def)
  next
    case False
    with k 2(2) end' show ?thesis
      by (subst kprintf_loop.simps) (auto simp: lit_at_def of_char_eq_0 of_char_format kprint_c_def)
  qed
next
  case (3 c d cs args)
  have k: "Suc k < length format" "format ! k = c" "format ! Suc k = d" "drop (Suc k) format = d # cs"
    "drop (Suc (Suc k)) format = cs"
    using drop_eq_ConsD [OF 3(5)] drop_eq_ConsD [of "Suc k" format d cs] by auto
  show ?case
  proof (cases "c = CHR ''%''")
    case True
    have rec: "kprintf_loop format (Suc (Suc k)) rest s' = map_option (\<lambda>out. term_puts out s') (fmt_out cs rest)"
      if "conv_out d args = Some (out, rest)" for out rest and s' :: "'a terminal_scheme"
      using 3(1) [OF True that refl] that conv_out_args [OF that] 3(3,4) k by auto
    show ?thesis
      using True k 3(3,4) rec
      by (subst kprintf_loop.simps)
        (auto simp: lit_at_def of_char_eq_0 kprintf_conv_out option.map_comp comp_def split: Option.bind_splits)
  next
    case False
    have "kprintf_loop format (Suc k) args s' = map_option (\<lambda>out. term_puts out s') (fmt_out (d # cs) args)"
      for s' :: "'a terminal_scheme"
      by (rule 3(2)) (use False 3 k in auto)
    then show ?thesis
      using False k 3(4)
      by (subst kprintf_loop.simps)
        (auto simp: lit_at_def of_char_eq_0 of_char_format kprint_c_def option.map_comp comp_def)
  qed
qed

lemma kprintf_out:
  "lit_args args \<Longrightarrow> CHR 0x00 \<notin> set format \<Longrightarrow>
   kprintf format args s = map_option (\<lambda>out. term_puts out s) (fmt_out format args)"
  unfolding kprintf_def by (rule kprintf_loop_out) simp_all

text \<open>A format with no percent sign prints itself: the kernel's messages.\<close>

lemma fmt_out_plain: "CHR ''%'' \<notin> set cs \<Longrightarrow> fmt_out cs args = Some (bytes_of cs)"
  by (induction cs args rule: fmt_out.induct) (auto simp: bytes_of_def)

lemma kprintf_plain:
  "CHR ''%'' \<notin> set format \<Longrightarrow> CHR 0x00 \<notin> set format \<Longrightarrow>
   kprintf format [] s = Some (term_puts (bytes_of format) s)"
  by (simp add: kprintf_out lit_args_def fmt_out_plain)

section \<open>Properties\<close>

text \<open>C13: \<open>kprint_d\<close> returns for every 64-bit value and prints its decimal digits: read
  back in base ten they give the value, no digit is over 9, there are at most 20, and the
  first is not zero unless the value is.\<close>

theorem kprint_d_decimal:
  "\<exists>ds. kprint_d v s = Some (term_puts (map (\<lambda>d. of_nat (48 + d)) ds) s) \<and>
     foldl (\<lambda>a d. a * 10 + d) 0 ds = unat v \<and> (\<forall>d \<in> set ds. d < 10) \<and> length ds \<le> 20 \<and>
     (v \<noteq> 0 \<longrightarrow> 0 < hd ds)"
proof (intro exI conjI)
  show "kprint_d v s = Some (term_puts (map (\<lambda>d. of_nat (48 + d)) (radix_digits 10 (unat v))) s)"
    by (simp add: kprint_d_eq dec_chars_def)
  show "foldl (\<lambda>a d. a * 10 + d) 0 (radix_digits 10 (unat v)) = unat v" by (rule radix_digits_value) simp
  show "\<forall>d \<in> set (radix_digits 10 (unat v)). d < 10" using radix_digits_range [of 10] by auto
  have "unat v < 10 ^ Suc 19" using unsigned_less [where 'a = nat, of v] by simp
  then show "length (radix_digits 10 (unat v)) \<le> 20"
    using radix_digits_length [of 10 "unat v" 19] by simp
  show "v \<noteq> 0 \<longrightarrow> 0 < hd (radix_digits 10 (unat v))"
    using radix_digits_lead [of 10 "unat v"] by (simp add: unat_gt_0)
qed

theorem kprint_d_decimal_witness:
  "\<exists>ds. kprint_d 250 blank_terminal = Some (term_puts (map (\<lambda>d. of_nat (48 + d)) ds) blank_terminal) \<and>
     foldl (\<lambda>a d. a * 10 + d) 0 ds = 250 \<and> 0 < hd ds"
  using kprint_d_decimal [of 250 blank_terminal] by auto

text \<open>C14: \<open>kprint_x\<close> returns for every 64-bit value and prints its hexadecimal digits,
  at most 16 of them, except for the value 16, for which it prints the one letter g.\<close>

theorem kprint_x_hex:
  "if v = 16 then kprint_x v s = Some (term_putchar (of_char CHR ''g'') s)
   else \<exists>ds. kprint_x v s = Some (term_puts (map (\<lambda>d. of_nat (if d < 10 then 48 + d else 87 + d)) ds) s) \<and>
     foldl (\<lambda>a d. a * 16 + d) 0 ds = unat v \<and> (\<forall>d \<in> set ds. d < 16) \<and> length ds \<le> 16"
proof (cases "v = 16")
  case False
  have "unat v < 16 ^ Suc 15" using unsigned_less [where 'a = nat, of v] by simp
  then have "length (radix_digits 16 (unat v)) \<le> 16"
    using radix_digits_length [of 16 "unat v" 15] by simp
  moreover have "foldl (\<lambda>a d. a * 16 + d) 0 (radix_digits 16 (unat v)) = unat v"
    by (rule radix_digits_value) simp
  moreover have "\<forall>d \<in> set (radix_digits 16 (unat v)). d < 16" using radix_digits_range [of 16] by auto
  moreover have "kprint_x v s = Some (term_puts (map (\<lambda>d. of_nat (if d < 10 then 48 + d else 87 + d)) (radix_digits 16 (unat v))) s)"
    using False by (simp add: kprint_x_eq hex_chars_def)
  ultimately show ?thesis using False by auto
qed (simp add: kprint_x_eq)

theorem kprint_x_hex_witness:
  "kprint_x 16 blank_terminal = Some (term_putchar (of_char CHR ''g'') blank_terminal)"
  using kprint_x_hex [of 16 blank_terminal] by simp

text \<open>C12: \<open>kprintf\<close>, on a format without NUL whose string arguments are literals, prints
  exactly the bytes the format stands for, each conversion taking the next argument, and has
  no defined result where the format ends in a percent sign or an argument is missing or of
  the wrong kind.\<close>

theorem kprintf_prints:
  assumes "CHR 0x00 \<notin> set format" "lit_args args"
  shows "kprintf format args s = map_option (\<lambda>out. term_puts out s) (fmt_out format args)"
  by (rule kprintf_out [OF assms(2,1)])

theorem kprintf_prints_witness:
  "kprintf ''%d pages%c'' [Va_int 42, Va_int 10] blank_terminal =
     Some (term_puts (bytes_of ''42 pages\<newline>'') blank_terminal)"
proof -
  have "dec_chars 42 = bytes_of ''42''"
    by (simp add: dec_chars_def bytes_of_def radix_digits_big radix_digits_small)
  then show ?thesis
    by (subst kprintf_prints) (simp_all add: lit_args_def conv_out_def bytes_of_def)
qed

end
