(* ===== verification/PhysMem.thy ===== *)
theory PhysMem
  imports Kprint
begin

text \<open>
  The physical page allocator of \<open>kernel/page.c\<close>: \<open>pmem_alloc\<close> and \<open>pmem_free\<close> on the
  free list threaded through the free pages themselves, each page holding in its first
  eight bytes the direct-map address of the next. The locale \<open>page_allocator\<close> is the
  contract the address-space code relies on; it is interpreted on the two operations
  with \<open>pmem_rep\<close>, which relates a state to the list of its free physical pages.
\<close>

record kmem = terminal +
  freelist :: u64
  free_page_counter :: u32

section \<open>Operations\<close>

definition pmem_alloc :: "'a kmem_scheme \<Rightarrow> (u64 \<times> 'a kmem_scheme) option" where
  "pmem_alloc s =
     (if freelist s = 0
      then do { s \<leftarrow> kprintf ''No free space, sorry :(\<newline>'' [] s; Some (0, s) }
      else let allocated = freelist s - hhdm_base s;
               s = s\<lparr>freelist := load64 (mem s) (freelist s)\<rparr>;
               s = s\<lparr>free_page_counter := free_page_counter s - 1\<rparr>
           in Some (allocated, s))"

definition pmem_free :: "u64 \<Rightarrow> 'a kmem_scheme \<Rightarrow> 'a kmem_scheme" where
  "pmem_free p s =
     (let new = p + hhdm_base s;
          s = s\<lparr>mem := store64 (mem s) new (freelist s)\<rparr>;
          s = s\<lparr>freelist := new\<rparr>
      in s\<lparr>free_page_counter := free_page_counter s + 1\<rparr>)"

section \<open>The contract of a page allocator\<close>

text \<open>
  \<open>rep s ps\<close>: in state \<open>s\<close> the free pages are \<open>ps\<close>, the next one to be given out
  first. \<open>ok s p\<close> says that \<open>p\<close> can be given to the allocator.
\<close>

locale page_allocator =
  fixes alloc :: "'s \<Rightarrow> (u64 \<times> 's) option"
    and free :: "u64 \<Rightarrow> 's \<Rightarrow> 's"
    and rep :: "'s \<Rightarrow> u64 list \<Rightarrow> bool"
    and ok :: "'s \<Rightarrow> u64 \<Rightarrow> bool"
  assumes alloc_Cons: "rep s (p # ps) \<Longrightarrow> \<exists>s'. alloc s = Some (p, s') \<and> rep s' ps"
    and alloc_Nil: "rep s [] \<Longrightarrow> \<exists>s'. alloc s = Some (0, s') \<and> rep s' []"
    and free_rep: "rep s ps \<Longrightarrow> ok s p \<Longrightarrow> p \<notin> set ps \<Longrightarrow> rep (free p s) (p # ps)"
    and rep_distinct: "rep s ps \<Longrightarrow> distinct ps"
    and rep_ok: "rep s ps \<Longrightarrow> p \<in> set ps \<Longrightarrow> ok s p"
    and ok_alloc: "alloc s = Some (q, s') \<Longrightarrow> ok s' p = ok s p"
    and ok_free: "ok (free q s) p = ok s p"
begin

fun alloc_many :: "nat \<Rightarrow> 's \<Rightarrow> (u64 list \<times> 's) option" where
  "alloc_many 0 s = Some ([], s)"
| "alloc_many (Suc n) s =
     do { (p, s) \<leftarrow> alloc s; (ps, s) \<leftarrow> alloc_many n s; Some (p # ps, s) }"

lemma alloc_many_rep:
  "rep s (ps @ qs) \<Longrightarrow> \<exists>s'. alloc_many (length ps) s = Some (ps, s') \<and> rep s' qs"
proof (induction ps arbitrary: s)
  case (Cons p ps)
  then obtain s1 where "alloc s = Some (p, s1)" "rep s1 (ps @ qs)"
    using alloc_Cons [of s p "ps @ qs"] by auto
  then show ?case using Cons.IH [of s1] by auto
qed simp

lemma free_many_rep:
  "rep s qs \<Longrightarrow> distinct (ps @ qs) \<Longrightarrow> \<forall>p \<in> set ps. ok s p \<Longrightarrow> rep (fold free (rev ps) s) (ps @ qs)"
proof (induction ps)
  case (Cons p ps)
  have "ok (fold free ps' s) p = ok s p" for ps'
    by (induction ps' rule: rev_induct) (simp_all add: ok_free)
  then show ?case using Cons by (simp add: free_rep)
qed simp

lemma alloc_not_stuck: "rep s ps \<Longrightarrow> \<exists>p s'. alloc s = Some (p, s')"
  using alloc_Cons alloc_Nil by (cases ps) blast+

lemma free_then_alloc:
  assumes "rep s ps" "ok s p" "p \<notin> set ps"
  shows "\<exists>s'. alloc (free p s) = Some (p, s') \<and> rep s' ps"
  using alloc_Cons [OF free_rep [OF assms]] .

lemma alloc_then_free:
  assumes "rep s (p # ps)"
  shows "\<exists>s'. alloc s = Some (p, s') \<and> rep (free p s') (p # ps)"
proof -
  obtain s' where s': "alloc s = Some (p, s')" "rep s' ps"
    using alloc_Cons [OF assms] by blast
  have "p \<notin> set ps" using rep_distinct [OF assms] by simp
  moreover have "ok s' p" using rep_ok [OF assms, of p] ok_alloc [OF s'(1), of p] by simp
  ultimately show ?thesis using s' free_rep by blast
qed

lemma alloc_fresh: "rep s (p # ps) \<Longrightarrow> alloc s = Some (q, s') \<Longrightarrow> q = p \<and> rep s' ps \<and> p \<notin> set ps"
  using alloc_Cons [of s p ps] rep_distinct [of s "p # ps"] by auto

end

section \<open>The free list\<close>

fun free_chain :: "mem \<Rightarrow> u64 \<Rightarrow> u64 list \<Rightarrow> bool" where
  "free_chain m a [] \<longleftrightarrow> a = 0"
| "free_chain m a (x # xs) \<longleftrightarrow> a = x \<and> x \<noteq> 0 \<and> free_chain m (load64 m x) xs"

lemma free_chain_cong:
  "(\<And>x. x \<in> set xs \<Longrightarrow> load64 m' x = load64 m x) \<Longrightarrow> free_chain m' a xs = free_chain m a xs"
  by (induction xs arbitrary: a) simp_all

lemma free_chain_0 [simp]: "free_chain m 0 xs \<longleftrightarrow> xs = []"
  by (cases xs) auto

text \<open>A page the allocator can hold: page-aligned, within 52 bits, and not at address NULL.\<close>

definition page_ok :: "'a machine_scheme \<Rightarrow> u64 \<Rightarrow> bool" where
  "page_ok s p \<longleftrightarrow> aligned 12 (hhdm_base s) \<and> aligned 12 p \<and> p < 2 ^ 52 \<and> p + hhdm_base s \<noteq> 0"

definition pmem_rep :: "'a kmem_scheme \<Rightarrow> u64 list \<Rightarrow> bool" where
  "pmem_rep s ps \<longleftrightarrow>
     free_chain (mem s) (freelist s) (map (\<lambda>p. p + hhdm_base s) ps) \<and> distinct ps \<and> (\<forall>p \<in> set ps. page_ok s p)"

lemma pmem_rep_0: "pmem_rep s ps \<Longrightarrow> freelist s = 0 \<longleftrightarrow> ps = []"
  by (cases ps) (auto simp: pmem_rep_def)

lemma aligned_ptov: "page_ok s p \<Longrightarrow> aligned 12 (p + hhdm_base s)"
  by (simp add: page_ok_def aligned_add)

lemma ptov_aligned3: "page_ok s p \<Longrightarrow> aligned 3 (p + hhdm_base s)"
  using aligned_mono [OF aligned_ptov, of s p 3] by simp

lemma pmem_alloc_Nil:
  "freelist s = 0 \<Longrightarrow> pmem_alloc s = Some (0, term_puts (bytes_of ''No free space, sorry :(\<newline>'') s)"
  by (simp add: pmem_alloc_def kprintf_plain)

lemma pmem_alloc_Cons:
  "freelist s \<noteq> 0 \<Longrightarrow> pmem_alloc s =
     Some (freelist s - hhdm_base s, s\<lparr>freelist := load64 (mem s) (freelist s),
       free_page_counter := free_page_counter s - 1\<rparr>)"
  by (simp add: pmem_alloc_def)

lemma pmem_alloc_total: "\<exists>p s'. pmem_alloc s = Some (p, s')"
  by (cases "freelist s = 0") (simp_all add: pmem_alloc_Nil pmem_alloc_Cons)

lemma term_puts_kmem [simp]:
  "freelist (term_puts cs s) = freelist s" "free_page_counter (term_puts cs s) = free_page_counter s"
  "kmem.more (term_puts cs s) = kmem.more s"
proof -
  have "terminal.more (term_puts cs s) = terminal.more s" by simp
  then show "freelist (term_puts cs s) = freelist s" "free_page_counter (term_puts cs s) = free_page_counter s"
    "kmem.more (term_puts cs s) = kmem.more s"
    by (cases s; cases "term_puts cs s"; simp)+
qed

lemma pmem_rep_alloc:
  assumes "pmem_rep s (p # ps)"
  shows "\<exists>s'. pmem_alloc s = Some (p, s') \<and> pmem_rep s' ps"
proof -
  have "freelist s = p + hhdm_base s" "freelist s \<noteq> 0"
    using assms by (auto simp: pmem_rep_def ptov_def)
  then show ?thesis
    using assms by (simp add: pmem_alloc_Cons pmem_rep_def ptov_def page_ok_def)
qed

lemma free_chain_free:
  assumes "\<forall>q \<in> set ps. page_ok s q" "page_ok s p" "p \<notin> set ps"
  shows "free_chain (store64 (mem s) (p + hhdm_base s) v) a (map (\<lambda>p. p + hhdm_base s) ps)
    = free_chain (mem s) a (map (\<lambda>p. p + hhdm_base s) ps)"
  by (rule free_chain_cong) (use assms in \<open>auto simp: ptov_def load64_store64 ptov_aligned3\<close>)

lemma pmem_rep_free:
  assumes "pmem_rep s ps" "page_ok s p" "p \<notin> set ps"
  shows "pmem_rep (pmem_free p s) (p # ps)"
  using assms free_chain_free [of ps s p]
  by (simp add: pmem_rep_def pmem_free_def Let_def ptov_def page_ok_def)

interpretation pmem: page_allocator pmem_alloc pmem_free pmem_rep page_ok
proof unfold_locales
  fix s :: "'a kmem_scheme" and p q ps s'
  show "pmem_rep s (p # ps) \<Longrightarrow> \<exists>s'. pmem_alloc s = Some (p, s') \<and> pmem_rep s' ps"
    by (rule pmem_rep_alloc)
  show "pmem_rep s [] \<Longrightarrow> \<exists>s'. pmem_alloc s = Some (0, s') \<and> pmem_rep s' []"
    by (auto simp: pmem_rep_def pmem_alloc_Nil)
  show "pmem_rep s ps \<Longrightarrow> page_ok s p \<Longrightarrow> p \<notin> set ps \<Longrightarrow> pmem_rep (pmem_free p s) (p # ps)"
    by (rule pmem_rep_free)
  show "pmem_rep s ps \<Longrightarrow> distinct ps" "pmem_rep s ps \<Longrightarrow> p \<in> set ps \<Longrightarrow> page_ok s p"
    by (simp_all add: pmem_rep_def)
  show "pmem_alloc s = Some (q, s') \<Longrightarrow> page_ok s' p = page_ok s p"
    by (cases "freelist s = 0") (auto simp: pmem_alloc_Nil pmem_alloc_Cons page_ok_def)
  show "page_ok (pmem_free q s) p = page_ok s p"
    by (simp add: pmem_free_def Let_def page_ok_def)
qed

section \<open>Properties\<close>

text \<open>C8: while the free list holds pages, \<open>pmem_alloc\<close> gives out its first page and
  keeps the rest; a page it gave out is not on the list any more; freeing it restores the
  list. On the empty list it returns 0 and the list stays empty.\<close>

theorem pmem_alloc_free:
  assumes "pmem_rep s ps"
  shows "case ps of
      [] \<Rightarrow> \<exists>s'. pmem_alloc s = Some (0, s') \<and> pmem_rep s' []
    | p # qs \<Rightarrow> \<exists>s'. pmem_alloc s = Some (p, s') \<and> pmem_rep s' qs \<and> p \<notin> set qs \<and>
        pmem_rep (pmem_free p s') ps"
proof (cases ps)
  case Nil
  then show ?thesis using pmem.alloc_Nil assms by simp
next
  case (Cons p qs)
  then show ?thesis
    using pmem.alloc_then_free [of s p qs] pmem.alloc_fresh [of s p qs] assms by auto
qed

text \<open>C16: pages freed one after another are given out again in the opposite order, each
  once, and the list is then as it was before.\<close>

theorem pmem_lifo:
  assumes "pmem_rep s qs" "distinct (ps @ qs)" "\<forall>p \<in> set ps. page_ok s p"
  shows "\<exists>s'. pmem.alloc_many (length ps) (fold pmem_free (rev ps) s) = Some (ps, s') \<and> pmem_rep s' qs"
  by (rule pmem.alloc_many_rep, rule pmem.free_many_rep) (use assms in auto)

definition bare_machine :: kmem where
  "bare_machine = \<lparr>mem = (\<lambda>_. 0), cr0 = 0, cr3 = 0, hhdm_base = 0xFFFF800000000000, cpu_events = [],
     io_trace = [], devices = (\<lambda>_ _. 0), term_ptr = 0xFFFF8000000B8000, term_col = 0, term_row = 0,
     freelist = 0, free_page_counter = 0\<rparr>"

lemma bare_machine_rep: "pmem_rep bare_machine []"
  by (simp add: pmem_rep_def bare_machine_def)

lemma bare_machine_ok: "unat p mod 4096 = 0 \<Longrightarrow> p < 2 ^ 47 \<Longrightarrow> page_ok bare_machine p"
  by (auto simp: page_ok_def bare_machine_def aligned_def take_bit_eq_mod word_unat_eq_iff unat_mod
      word_less_nat_alt unat_word_ariths)

theorem pmem_alloc_free_witness:
  "\<exists>s'. pmem_alloc (pmem_free 0x3000 bare_machine) = Some (0x3000, s') \<and> pmem_rep s' [] \<and>
     pmem_rep (pmem_free 0x3000 s') [0x3000]"
proof -
  have "pmem_rep (pmem_free 0x3000 bare_machine) [0x3000]"
    by (rule pmem_rep_free [OF bare_machine_rep bare_machine_ok]) simp_all
  from pmem_alloc_free [OF this] show ?thesis by auto
qed

theorem pmem_lifo_witness:
  "\<exists>s'. pmem.alloc_many 2 (pmem_free 0x3000 (pmem_free 0x5000 bare_machine)) = Some ([0x3000, 0x5000], s') \<and>
     pmem_rep s' []"
proof -
  have "\<exists>s'. pmem.alloc_many (length [0x3000, 0x5000 :: u64]) (fold pmem_free (rev [0x3000, 0x5000]) bare_machine) =
      Some ([0x3000, 0x5000], s') \<and> pmem_rep s' []"
    by (rule pmem_lifo [OF bare_machine_rep]) (simp_all add: bare_machine_ok)
  then show ?thesis by (simp del: pmem.alloc_many.simps add: numeral_2_eq_2 [symmetric])
qed

end
