(* ===== verification/Pages.thy ===== *)
theory Pages
  imports AddrSpace PhysMem
begin

text \<open>
  Memory page by page: \<open>page_same m m' a\<close> says that the 4096 bytes at \<open>a\<close> are the same in
  both memories. What every store of the address-space code leaves alone is stated this way,
  and what a table or the free list says depends on its own pages only.
\<close>

named_theorems page_simps

definition page_same :: "mem \<Rightarrow> mem \<Rightarrow> u64 \<Rightarrow> bool" where
  "page_same m m' a \<longleftrightarrow> (\<forall>x < 0x1000. m' (a + x) = m (a + x))"

definition page_zero :: "mem \<Rightarrow> u64 \<Rightarrow> bool" where
  "page_zero m a \<longleftrightarrow> (\<forall>x < 0x1000. m (a + x) = 0)"

lemma page_same_refl [simp]: "page_same m m a"
  by (simp add: page_same_def)

lemma page_same_trans: "page_same m m1 a \<Longrightarrow> page_same m1 m2 a \<Longrightarrow> page_same m m2 a"
  by (simp add: page_same_def)

lemma page_zero_same: "page_zero m a \<Longrightarrow> page_same m m' a \<Longrightarrow> page_zero m' a"
  by (simp add: page_zero_def page_same_def)

lemma page_apart:
  assumes "aligned 12 a" "aligned 12 b" "a \<noteq> b" "x < 0x1000"
  shows "\<not> a + x - b < (0x1000 :: u64)"
proof
  assume less: "a + x - b < 0x1000"
  have "a + x = b + (a + x - b)" by simp
  then show False
    using aligned_add_eq_iff [of 12 a b x "a + x - b"] assms less by simp
qed

lemma slot_byte_less: "j < 512 \<Longrightarrow> i < 8 \<Longrightarrow> (8 * j + of_nat i :: u64) < 0x1000"
  by (simp add: word_less_nat_alt unat_word_ariths unat_of_nat)

lemma load64_page_same: "page_same m m' a \<Longrightarrow> j < 512 \<Longrightarrow> load64 m' (a + 8 * j) = load64 m (a + 8 * j)"
  by (rule load64_cong) (simp add: page_same_def add.assoc slot_byte_less)

lemma get_pte_page_same [page_simps]: "page_same m m' a \<Longrightarrow> j < 512 \<Longrightarrow> get_pte m' a j = get_pte m a j"
  by (simp add: get_pte_def load64_page_same)

lemma load_bytes_zero: "(\<And>i. i < n \<Longrightarrow> m (a + of_nat i) = 0) \<Longrightarrow> load_bytes m a n = 0"
proof (induction n arbitrary: a)
  case (Suc n)
  have "m a = 0" using Suc.prems [of 0] by simp
  moreover have "load_bytes m (a + 1) n = 0"
    by (rule Suc.IH) (use Suc.prems [of "Suc _"] in \<open>simp add: add.assoc\<close>)
  ultimately show ?case by simp
qed simp

lemma get_pte_zero [page_simps]: "page_zero m a \<Longrightarrow> j < 512 \<Longrightarrow> get_pte m a j = pte_of_word 0"
  unfolding get_pte_def load64_def
  by (subst load_bytes_zero) (simp_all add: page_zero_def add.assoc slot_byte_less)

lemma page_same_memset:
  "aligned 12 a \<Longrightarrow> aligned 12 b \<Longrightarrow> a \<noteq> b \<Longrightarrow> page_same m (memset m b c 0x1000) a"
  by (simp add: page_same_def memset_eq page_apart)

lemma page_zero_memset: "page_zero (memset m a 0 0x1000) a"
  by (simp add: page_zero_def memset_eq)

lemma page_same_store64:
  assumes "aligned 12 a" "aligned 12 b" "a \<noteq> b" "j < 512"
  shows "page_same m (store64 m (b + 8 * j) v) a"
  unfolding page_same_def
proof (intro allI impI)
  fix x :: u64 assume "x < 0x1000"
  show "store64 m (b + 8 * j) v (a + x) = m (a + x)"
  proof (rule store64_other_byte)
    fix i :: nat assume "i < 8"
    then have "8 * j + of_nat i < (0x1000 :: u64)" using assms(4) by (rule slot_byte_less [rotated])
    then show "a + x \<noteq> b + 8 * j + of_nat i"
      using page_apart [OF assms(1-3) \<open>x < 0x1000\<close>] by (auto simp: add.assoc)
  qed
qed

lemma page_same_set_pte:
  "aligned 12 a \<Longrightarrow> aligned 12 b \<Longrightarrow> a \<noteq> b \<Longrightarrow> j < 512 \<Longrightarrow> page_same m (set_pte m b j e) a"
  by (simp add: set_pte_def page_same_store64)

lemma page_same_outside_vga:
  assumes "outside_vga t m m'" "aligned 12 a" "aligned 12 t" "a \<noteq> t"
  shows "page_same m m' a"
  unfolding page_same_def
proof (intro allI impI)
  fix x :: u64 assume "x < 0x1000"
  then have "\<not> a + x - t < 0x1000" using page_apart [OF assms(2,3,4)] by simp
  then have "4000 \<le> a + x - t" by (simp add: word_less_nat_alt word_le_nat_alt)
  then show "m' (a + x) = m (a + x)" using assms(1) by (simp add: outside_vga_def)
qed

lemma pmem_free_page_same:
  assumes "page_ok s p" "aligned 12 a" "a \<noteq> p + hhdm_base s"
  shows "page_same (mem s) (mem (pmem_free p s)) a"
  using page_same_store64 [of a "p + hhdm_base s" 0 "mem s"] assms aligned_ptov [OF assms(1)]
  by (simp add: pmem_free_def Let_def)

section \<open>Well-formed states\<close>

lemma pmem_rep_cong:
  assumes "pmem_rep s ps" "freelist s' = freelist s" "hhdm_base s' = hhdm_base s"
    "\<And>q. q \<in> set ps \<Longrightarrow> page_same (mem s) (mem s') (q + hhdm_base s)"
  shows "pmem_rep s' ps"
proof -
  have "free_chain (mem s') (freelist s) (map (\<lambda>p. p + hhdm_base s) ps) =
        free_chain (mem s) (freelist s) (map (\<lambda>p. p + hhdm_base s) ps)"
    by (rule free_chain_cong) (use assms(4) load64_page_same [where j = 0] in auto)
  then show ?thesis
    using assms by (auto simp: pmem_rep_def page_ok_def)
qed

text \<open>
  The entries above level 1 let everything through, and no entry of levels 3 and 2 is a
  large page: then the processor's walk ends at the level-1 entry, with its permissions.
\<close>

definition pt_open :: "mem \<Rightarrow> u64 \<Rightarrow> u64 \<Rightarrow> bool" where
  "pt_open m h root \<longleftrightarrow>
     (\<forall>va d t. lower_half va \<and> d < 3 \<and> pt_base m h root va d = Some t \<longrightarrow>
        (0 < d \<longrightarrow> \<not> pte_page_size (get_pte m (t + h) (depth_index va d))) \<and>
        (pte_present (get_pte m (t + h) (depth_index va d)) \<longrightarrow>
           pte_user (get_pte m (t + h) (depth_index va d)) \<and>
           pte_writable (get_pte m (t + h) (depth_index va d)) \<and>
           \<not> pte_no_execute (get_pte m (t + h) (depth_index va d))))"

text \<open>
  The state in which the kernel maps pages: \<open>ps\<close> are the free pages, the tables of \<open>root\<close>
  form a tree and are not free, and neither page 0 nor the text buffer is a table or free.
\<close>

definition vm_inv :: "'a kmem_scheme \<Rightarrow> u64 \<Rightarrow> u64 list \<Rightarrow> bool" where
  "vm_inv s root ps \<longleftrightarrow>
     pmem_rep s ps \<and> pt_wf (mem s) (hhdm_base s) root \<and> pt_open (mem s) (hhdm_base s) root \<and>
     pt_tables (mem s) (hhdm_base s) root \<inter> set ps = {} \<and> 0 \<notin> set ps \<and>
     term_inv s \<and> term_ptr s = VGA_BUFFER + hhdm_base s \<and>
     VGA_BUFFER \<notin> pt_tables (mem s) (hhdm_base s) root \<and> VGA_BUFFER \<notin> set ps"

abbreviation leaf_of :: "'a machine_scheme \<Rightarrow> u64 \<Rightarrow> u64 \<Rightarrow> pt_entry option" where
  "leaf_of s root va \<equiv> pt_leaf (mem s) (hhdm_base s) root va"

abbreviation tables_of :: "'a machine_scheme \<Rightarrow> u64 \<Rightarrow> u64 set" where
  "tables_of s root \<equiv> pt_tables (mem s) (hhdm_base s) root"

abbreviation missing_of :: "'a machine_scheme \<Rightarrow> u64 \<Rightarrow> u64 \<Rightarrow> nat" where
  "missing_of s root va \<equiv> pt_missing (mem s) (hhdm_base s) root va"

lemma pt_open_cong:
  assumes "pt_open m h root"
    and "\<And>va d. lower_half va \<Longrightarrow> d < 3 \<Longrightarrow> pt_base m' h root va d = pt_base m h root va d"
    and "\<And>va d t. lower_half va \<Longrightarrow> d < 3 \<Longrightarrow> pt_base m h root va d = Some t \<Longrightarrow>
      get_pte m' (t + h) (depth_index va d) = get_pte m (t + h) (depth_index va d)"
  shows "pt_open m' h root"
  using assms(1) unfolding pt_open_def
  by (intro allI impI) (metis (no_types, lifting) assms(2,3))

lemma leaf_open:
  assumes wf: "pt_wf m h root" and c: "leaf_changes m m' h root va T" and "pt_open m h root"
  shows "pt_open m' h root"
proof (rule pt_open_cong [OF assms(3)])
  fix va' t and d :: nat assume low: "lower_half va'" and d: "d < 3"
  show "pt_base m' h root va' d = pt_base m h root va' d"
    using leaf_base [OF wf c low, of d] d by simp
  assume t: "pt_base m h root va' d = Some t"
  have "t \<noteq> T"
    using no_shareD(1) [OF wf _ low, of va 3 d T] c t d by (auto simp: leaf_changes_def)
  then show "get_pte m' (t + h) (depth_index va' d) = get_pte m (t + h) (depth_index va' d)"
    using c d pt_tables_I [OF low _ t] by (auto simp: leaf_changes_def)
qed

lemma grow_open:
  assumes wf: "pt_wf m h root" and g: "grows m m' h root va d T N" and open': "pt_open m h root"
    and zero: "\<And>j. j < 512 \<Longrightarrow> get_pte m' (N + h) j = pte_of_word 0"
    and e: "pte_page_size (get_pte m' (T + h) (depth_index va d)) = pte_page_size (get_pte m (T + h) (depth_index va d))"
      "pte_user (get_pte m' (T + h) (depth_index va d))" "pte_writable (get_pte m' (T + h) (depth_index va d))"
      "\<not> pte_no_execute (get_pte m' (T + h) (depth_index va d))"
  shows "pt_open m' h root"
  unfolding pt_open_def
proof (intro allI impI)
  fix va' t and k :: nat
  assume a: "lower_half va' \<and> k < 3 \<and> pt_base m' h root va' k = Some t"
  note g' = g [unfolded grows_def]
  show "(0 < k \<longrightarrow> \<not> pte_page_size (get_pte m' (t + h) (depth_index va' k))) \<and>
    (pte_present (get_pte m' (t + h) (depth_index va' k)) \<longrightarrow>
       pte_user (get_pte m' (t + h) (depth_index va' k)) \<and>
       pte_writable (get_pte m' (t + h) (depth_index va' k)) \<and>
       \<not> pte_no_execute (get_pte m' (t + h) (depth_index va' k)))"
  proof (cases "k \<le> d \<or> \<not> agree (Suc d) va va'")
    case True
    then have t: "pt_base m h root va' k = Some t" using grow_base [OF wf g, of va' k] a by simp
    have old: "(0 < k \<longrightarrow> \<not> pte_page_size (get_pte m (t + h) (depth_index va' k))) \<and>
      (pte_present (get_pte m (t + h) (depth_index va' k)) \<longrightarrow>
       pte_user (get_pte m (t + h) (depth_index va' k)) \<and>
       pte_writable (get_pte m (t + h) (depth_index va' k)) \<and>
       \<not> pte_no_execute (get_pte m (t + h) (depth_index va' k)))"
      using open' a t unfolding pt_open_def by blast
    show ?thesis
    proof (cases "t = T \<and> depth_index va' k = depth_index va d")
      case True
      then have "k = d" using no_shareD(1) [OF wf _ _ _ _ t, of va d] a g' by auto
      with True e old show ?thesis by simp
    next
      case False
      then have "get_pte m' (t + h) (depth_index va' k) = get_pte m (t + h) (depth_index va' k)"
        using g' a pt_tables_I [OF _ _ t] by auto
      with old show ?thesis by simp
    qed
  next
    case False
    then have "t = N" using grow_base [OF wf g, of va' k] a by (simp split: if_splits)
    then show ?thesis using zero a by (simp add: pte_of_word_def)
  qed
qed

section \<open>What the processor makes of the tables\<close>

lemma mmu_leaf:
  assumes "pt_open m h root" "lower_half va"
  shows "mmu_walk m h va 4 root = map_option (\<lambda>e.
    \<lparr>tr_phys = pte_frame e + (va AND 0xFFF), tr_user = pte_user e, tr_writable = pte_writable e,
     tr_executable = \<not> pte_no_execute e\<rparr>) (pt_leaf m h root va)"
proof -
  let ?e = "\<lambda>d t. get_pte m (t + h) (depth_index va d)"
  let ?F = "\<lambda>e. \<lparr>tr_phys = pte_frame e + (va AND 0xFFF), tr_user = pte_user e,
     tr_writable = pte_writable e, tr_executable = \<not> pte_no_execute e\<rparr>"
  have l3: "mmu_walk m h va 1 t = map_option ?F (pt_leaf m h root va)"
    if "pt_base m h root va 3 = Some t" for t
    using that by (simp add: pt_leaf_def depth_index_def Let_def tr_restrict_def)
  have up: "mmu_walk m h va (Suc i) t = map_option ?F (pt_leaf m h root va)"
    if i: "i < 4" "0 < i" and t: "pt_base m h root va (3 - i) = Some t"
      and next': "\<And>u. pt_base m h root va (Suc (3 - i)) = Some u \<Longrightarrow>
        mmu_walk m h va i u = map_option ?F (pt_leaf m h root va)" for i t
  proof -
    have o: "(0 < 3 - i \<longrightarrow> \<not> pte_page_size (?e (3 - i) t)) \<and>
      (pte_present (?e (3 - i) t) \<longrightarrow> pte_user (?e (3 - i) t) \<and> pte_writable (?e (3 - i) t) \<and> \<not> pte_no_execute (?e (3 - i) t))"
      using assms t i unfolding pt_open_def by (metis diff_less zero_less_numeral)
    have idx: "table_index va (Suc i) = depth_index va (3 - i)"
      using i by (simp add: depth_index_def)
    show ?thesis
    proof (cases "pte_present (?e (3 - i) t)")
      case True
      then have "pt_base m h root va (Suc (3 - i)) = Some (pte_frame (?e (3 - i) t))"
        using t by (simp add: Let_def)
      note IH = next' [OF this]
      have "tr_restrict (?e (3 - i) t) x = x" if "x = ?F y" for x y
        using o True by (simp add: tr_restrict_def that)
      then have "map_option (tr_restrict (?e (3 - i) t)) (map_option ?F z) = map_option ?F z" for z
        by (cases z) simp_all
      moreover have "\<not> (pte_page_size (?e (3 - i) t) \<and> (i = 1 \<or> i = 2))"
        using o i by auto
      ultimately show ?thesis using True IH by (auto simp add: idx Let_def)
    next
      case False
      then have "pt_base m h root va (Suc (3 - i)) = None" using t by (simp add: Let_def)
      then have "pt_base m h root va 3 = None"
        by (rule pt_base_None_mono) (use i in simp)
      then show ?thesis using False by (simp add: idx Let_def pt_leaf_def)
    qed
  qed
  have l2: "mmu_walk m h va 2 t = map_option ?F (pt_leaf m h root va)"
    if "pt_base m h root va 2 = Some t" for t
    using up [of 1 t] that l3 by (simp add: numeral_2_eq_2 numeral_3_eq_3)
  have l1: "mmu_walk m h va 3 t = map_option ?F (pt_leaf m h root va)"
    if "pt_base m h root va 1 = Some t" for t
    using up [of 2 t] that l2 by (simp del: mmu_walk_Suc pt_base.simps flip: numeral_2_eq_2)
  have "mmu_walk m h va (Suc 3) root = map_option ?F (pt_leaf m h root va)"
    using up [of 3 root] l1 by (simp del: mmu_walk_Suc pt_base.simps(2))
  then show ?thesis by simp
qed

end
