(* ===== verification/VirtMem.thy ===== *)
theory VirtMem
  imports Pages
begin

text \<open>
  Mapping, unmapping and protecting a page (\<open>vm_map\<close>, \<open>vm_unmap\<close>, \<open>vm_protect\<close> of
  \<open>kernel/page.c\<close>). Each loop over the four levels is a recursion on the level, its
  case 0 being the code after the loop. The theorems say, for a state with \<open>vm_inv\<close>, when
  each succeeds, what it does to the translation of every lower-half address and to every
  other page of memory, and that \<open>vm_inv\<close> is kept.
\<close>

section \<open>Operations\<close>

definition upd_pte :: "u64 \<Rightarrow> u64 \<Rightarrow> (pt_entry \<Rightarrow> pt_entry) \<Rightarrow> 'a machine_scheme \<Rightarrow> 'a machine_scheme" where
  "upd_pte table index f s = s\<lparr>mem := set_pte (mem s) table index (f (get_pte (mem s) table index))\<rparr>"

fun vm_map_loop ::
  "nat \<Rightarrow> u64 \<Rightarrow> bool \<Rightarrow> bool \<Rightarrow> bool \<Rightarrow> u64 \<Rightarrow> 'a kmem_scheme \<Rightarrow> (bool \<times> 'a kmem_scheme) option" where
  "vm_map_loop 0 address usable writable executable table s =
     do { s \<leftarrow> kprintf ''(vm_map) idk how you've got here but you're not supposed to be here\<newline>'' [] s;
          Some (False, s) }"
| "vm_map_loop (Suc i) address usable writable executable table s =
     (let index = table_index address (Suc i)
      in if pte_present (get_pte (mem s) table index)
         then if i = 0 then Some (False, s)
              else let table_phys = pte_frame (get_pte (mem s) table index)
                   in vm_map_loop i address usable writable executable (table_phys + hhdm_base s) s
         else do {
           (new_table_phys, s) \<leftarrow> pmem_alloc s;
           if new_table_phys = 0 then Some (False, s)
           else
             let new_table = new_table_phys + hhdm_base s;
                 s = s\<lparr>mem := memset (mem s) new_table 0 0x1000\<rparr>;
                 s = upd_pte table index (\<lambda>e. e\<lparr>pte_present := True\<rparr>) s;
                 s = upd_pte table index (\<lambda>e. e\<lparr>pte_address := ucast (drop_bit 12 new_table_phys)\<rparr>) s
             in if i = 0
                then let s = upd_pte table index (\<lambda>e. e\<lparr>pte_no_execute := \<not> executable\<rparr>) s;
                         s = upd_pte table index (\<lambda>e. e\<lparr>pte_user := usable\<rparr>) s;
                         s = upd_pte table index (\<lambda>e. e\<lparr>pte_writable := writable\<rparr>) s
                     in Some (True, invalidate_tlb address s)
                else let s = upd_pte table index (\<lambda>e. e\<lparr>pte_no_execute := False\<rparr>) s;
                         s = upd_pte table index (\<lambda>e. e\<lparr>pte_user := True\<rparr>) s;
                         s = upd_pte table index (\<lambda>e. e\<lparr>pte_writable := True\<rparr>) s;
                         table_phys = pte_frame (get_pte (mem s) table index)
                     in vm_map_loop i address usable writable executable (table_phys + hhdm_base s) s })"

definition vm_map ::
  "u64 \<Rightarrow> u64 \<Rightarrow> bool \<Rightarrow> bool \<Rightarrow> bool \<Rightarrow> 'a kmem_scheme \<Rightarrow> (bool \<times> 'a kmem_scheme) option" where
  "vm_map root address usable writable executable s =
     vm_map_loop 4 address usable writable executable (root + hhdm_base s) s"

fun vm_unmap_loop :: "nat \<Rightarrow> u64 \<Rightarrow> u64 \<Rightarrow> 'a kmem_scheme \<Rightarrow> (bool \<times> 'a kmem_scheme) option" where
  "vm_unmap_loop 0 address table s =
     do { s \<leftarrow> kprintf ''(vm_unmap) idk how you've got here but you're not supposed to be here\<newline>'' [] s;
          Some (False, s) }"
| "vm_unmap_loop (Suc i) address table s =
     (let index = table_index address (Suc i)
      in if pte_present (get_pte (mem s) table index)
         then if i = 0
              then let s = pmem_free (ucast (pte_address (get_pte (mem s) table index))) s;
                       s = upd_pte table index (\<lambda>e. e\<lparr>pte_present := False\<rparr>) s
                   in Some (True, invalidate_tlb address s)
              else let table_phys = pte_frame (get_pte (mem s) table index)
                   in vm_unmap_loop i address (table_phys + hhdm_base s) s
         else Some (False, s))"

definition vm_unmap :: "u64 \<Rightarrow> u64 \<Rightarrow> 'a kmem_scheme \<Rightarrow> (bool \<times> 'a kmem_scheme) option" where
  "vm_unmap root address s = vm_unmap_loop 4 address (root + hhdm_base s) s"

fun vm_protect_loop ::
  "nat \<Rightarrow> u64 \<Rightarrow> bool \<Rightarrow> bool \<Rightarrow> bool \<Rightarrow> u64 \<Rightarrow> 'a kmem_scheme \<Rightarrow> (bool \<times> 'a kmem_scheme) option" where
  "vm_protect_loop 0 address user writable executable table s =
     do { s \<leftarrow> kprintf ''(vm_protect) idk how you've got here but you're not supposed to be here\<newline>'' [] s;
          Some (False, s) }"
| "vm_protect_loop (Suc i) address user writable executable table s =
     (let index = table_index address (Suc i)
      in if pte_present (get_pte (mem s) table index)
         then if i = 0
              then let s = upd_pte table index (\<lambda>e. e\<lparr>pte_no_execute := \<not> executable\<rparr>) s;
                       s = upd_pte table index (\<lambda>e. e\<lparr>pte_user := user\<rparr>) s;
                       s = upd_pte table index (\<lambda>e. e\<lparr>pte_writable := writable\<rparr>) s
                   in Some (True, invalidate_tlb address s)
              else let table_phys = pte_frame (get_pte (mem s) table index)
                   in vm_protect_loop i address user writable executable (table_phys + hhdm_base s) s
         else Some (False, s))"

definition vm_protect ::
  "u64 \<Rightarrow> u64 \<Rightarrow> bool \<Rightarrow> bool \<Rightarrow> bool \<Rightarrow> 'a kmem_scheme \<Rightarrow> (bool \<times> 'a kmem_scheme) option" where
  "vm_protect root address user writable executable s =
     vm_protect_loop 4 address user writable executable (root + hhdm_base s) s"

lemma upd_pte_frame [frame_simps, simp]:
  "hhdm_base (upd_pte t i f s) = hhdm_base s" "cr3 (upd_pte t i f s) = cr3 s" "cr0 (upd_pte t i f s) = cr0 s"
  "machine.more (upd_pte t i f s) = machine.more s" "cpu_events (upd_pte t i f s) = cpu_events s"
  by (simp_all add: upd_pte_def)

lemma store_bytes_cong:
  "(\<And>b. (\<And>i. i < n \<Longrightarrow> b \<noteq> a + of_nat i) \<Longrightarrow> m b = m' b) \<Longrightarrow> store_bytes m a v n = store_bytes m' a v n"
proof (induction n arbitrary: m m' a v)
  case 0
  then show ?case by auto
next
  case (Suc n)
  have "store_bytes (m(a := ucast v)) (a + 1) (drop_bit 8 v) n = store_bytes (m'(a := ucast v)) (a + 1) (drop_bit 8 v) n"
  proof (rule Suc.IH)
    fix b assume b: "\<And>i. i < n \<Longrightarrow> b \<noteq> a + 1 + of_nat i"
    show "(m(a := ucast v)) b = (m'(a := ucast v)) b"
    proof (cases "b = a")
      case False
      have "b \<noteq> a + of_nat i" if "i < Suc n" for i
        using b [of "i - 1"] that False by (cases i) (auto simp: add.assoc)
      then show ?thesis using Suc.prems by simp
    qed simp
  qed
  then show ?case by simp
qed

lemma set_pte_twice [mem_simps]: "set_pte (set_pte m t i e) t i e' = set_pte m t i e'"
  unfolding set_pte_def store64_def by (rule store_bytes_cong) (rule store_bytes_out)

lemma upd_pte_twice:
  "aligned 12 t \<Longrightarrow> i < 512 \<Longrightarrow> upd_pte t i g (upd_pte t i f s) = upd_pte t i (\<lambda>e. g (f e)) s"
  by (simp add: upd_pte_def get_set_pte set_pte_twice)

section \<open>A page hung into a table\<close>

lemma hang_page:
  assumes "aligned 12 h" "aligned 12 p" "aligned 12 T" "p \<noteq> T" "i < 512"
    and m': "m' = set_pte (memset m (p + h) 0 0x1000) (T + h) i e"
  shows "get_pte m' (T + h) i = e" "page_zero m' (p + h)"
    "\<And>t j. aligned 12 t \<Longrightarrow> t \<noteq> p \<Longrightarrow> j < 512 \<Longrightarrow> t \<noteq> T \<or> j \<noteq> i \<Longrightarrow> get_pte m' (t + h) j = get_pte m (t + h) j"
    "\<And>a. aligned 12 a \<Longrightarrow> a \<noteq> p \<Longrightarrow> a \<noteq> T \<Longrightarrow> page_same m m' (a + h)"
proof -
  have al: "aligned 12 (a + h)" if "aligned 12 a" for a using that assms(1) by (simp add: aligned_add)
  show "get_pte m' (T + h) i = e" using al assms by (simp add: m' get_set_pte)
  have set: "page_same (memset m (p + h) 0 0x1000) m' (a + h)" if "aligned 12 a" "a \<noteq> T" for a
    using that al assms by (simp add: m' page_same_set_pte)
  have zero: "page_same m (memset m (p + h) 0 0x1000) (a + h)" if "aligned 12 a" "a \<noteq> p" for a
    using that al assms by (simp add: page_same_memset)
  show "page_zero m' (p + h)" using page_zero_memset set assms page_zero_same by blast
  show "page_same m m' (a + h)" if "aligned 12 a" "a \<noteq> p" "a \<noteq> T" for a
    using page_same_trans [OF zero set] that by simp
  show "get_pte m' (t + h) j = get_pte m (t + h) j"
    if "aligned 12 t" "t \<noteq> p" "j < 512" "t \<noteq> T \<or> j \<noteq> i" for t j
    using that al assms zero by (auto simp: m' get_set_pte get_pte_page_same)
qed

lemma missing_at:
  assumes "pt_base m h root va d = Some T" "d < 4" "\<not> pte_present (get_pte m (T + h) (depth_index va d))"
  shows "pt_missing m h root va = 4 - d"
proof -
  have "pt_base m h root va k = None \<longleftrightarrow> d < k" if "k \<le> 4" for k
  proof
    show "d < k" if "pt_base m h root va k = None"
      using that assms(1) pt_base_None_mono [of m h root va k d] by (fastforce simp: not_less)
    have "pt_base m h root va (Suc d) = None" using assms by simp
    then show "pt_base m h root va k = None" if "d < k"
      using that pt_base_None_mono [of m h root va "Suc d" k] by simp
  qed
  moreover have "d = 0 \<or> d = 1 \<or> d = 2 \<or> d = 3" using assms(2) by auto
  ultimately show ?thesis
    by (auto simp add: pt_missing_def simp del: pt_base.simps One_nat_def)
qed

lemma leaf_at:
  "pt_base m h root va 3 = Some T \<Longrightarrow> pt_leaf m h root va =
    (if pte_present (get_pte m (T + h) (depth_index va 3)) then Some (get_pte m (T + h) (depth_index va 3)) else None)"
  by (simp add: pt_leaf_def Let_def)

lemma leaf_None: "pt_base m h root va d = None \<Longrightarrow> d \<le> 3 \<Longrightarrow> pt_leaf m h root va = None"
  using pt_base_None_mono [of m h root va d 3] by (simp add: pt_leaf_def)

section \<open>What a mapping achieves\<close>

definition same_cpu :: "'a kmem_scheme \<Rightarrow> 'a kmem_scheme \<Rightarrow> bool" where
  "same_cpu s s' \<longleftrightarrow> hhdm_base s' = hhdm_base s \<and> cr0 s' = cr0 s \<and> cr3 s' = cr3 s \<and>
     term_ptr s' = term_ptr s \<and> kmem.more s' = kmem.more s"

lemma same_cpu_refl [simp]: "same_cpu s s"
  by (simp add: same_cpu_def)

lemma same_cpu_trans: "same_cpu s s1 \<Longrightarrow> same_cpu s1 s2 \<Longrightarrow> same_cpu s s2"
  by (simp add: same_cpu_def)

text \<open>
  The state after a page was mapped at \<open>va\<close> with the \<open>n\<close> pages the mapping needs: the last
  of them is the mapped one and is zero, the others are new tables.
\<close>

definition vm_mapped ::
  "u64 \<Rightarrow> u64 \<Rightarrow> bool \<Rightarrow> bool \<Rightarrow> bool \<Rightarrow> u64 list \<Rightarrow> nat \<Rightarrow> 'a kmem_scheme \<Rightarrow> 'a kmem_scheme \<Rightarrow> bool" where
  "vm_mapped root va u w x ps n s s' \<longleftrightarrow>
     vm_inv s' root (drop n ps) \<and> same_cpu s s' \<and>
     (\<exists>e. leaf_of s' root va = Some e \<and> pte_frame e = ps ! (n - 1) \<and>
        pte_user e = u \<and> pte_writable e = w \<and> pte_no_execute e = (\<not> x)) \<and>
     (\<forall>va'. lower_half va' \<and> \<not> same_page va va' \<longrightarrow> leaf_of s' root va' = leaf_of s root va') \<and>
     page_zero (mem s') (ps ! (n - 1) + hhdm_base s) \<and>
     tables_of s' root = tables_of s root \<union> set (take (n - 1) ps) \<and>
     (\<forall>a. aligned 12 a \<and> a \<notin> tables_of s root \<and> a \<notin> set (take n ps) \<longrightarrow>
        page_same (mem s) (mem s') (a + hhdm_base s))"

text \<open>The state after a mapping ran out of pages: the tables made on the way stay.\<close>

definition vm_exhausted :: "u64 \<Rightarrow> u64 list \<Rightarrow> 'a kmem_scheme \<Rightarrow> 'a kmem_scheme \<Rightarrow> bool" where
  "vm_exhausted root ps s s' \<longleftrightarrow>
     vm_inv s' root [] \<and> same_cpu s s' \<and>
     (\<forall>va'. lower_half va' \<longrightarrow> leaf_of s' root va' = leaf_of s root va') \<and>
     tables_of s' root = tables_of s root \<union> set ps \<and>
     (\<forall>a. aligned 12 a \<and> a \<notin> tables_of s root \<and> a \<notin> set ps \<and> a \<noteq> VGA_BUFFER \<longrightarrow>
        page_same (mem s) (mem s') (a + hhdm_base s))"

lemma vm_invD:
  assumes "vm_inv s root ps"
  shows "pmem_rep s ps" "pt_wf (mem s) (hhdm_base s) root" "pt_open (mem s) (hhdm_base s) root"
    "pt_tables (mem s) (hhdm_base s) root \<inter> set ps = {}" "0 \<notin> set ps" "term_inv s"
    "term_ptr s = VGA_BUFFER + hhdm_base s" "VGA_BUFFER \<notin> tables_of s root" "VGA_BUFFER \<notin> set ps"
    "aligned 12 (hhdm_base s)" "aligned 12 root"
  using assms by (simp_all add: vm_inv_def pt_wf_def)

lemma pt_base_page_same:
  assumes "pt_wf m h root"
    and "\<And>t. t \<in> pt_tables m h root \<Longrightarrow> page_same m m' (t + h)" and "lower_half va" "d \<le> 4"
  shows "pt_base m' h root va d = pt_base m h root va d"
proof (rule pt_base_cong)
  fix k t assume "k < d" and t: "pt_base m h root va k = Some t"
  then have "k < 4" using assms(4) by simp
  then show "get_pte m' (t + h) (depth_index va k) = get_pte m (t + h) (depth_index va k)"
    using assms(2) [OF pt_tables_I [OF assms(3) _ t]] by (simp add: get_pte_page_same)
qed

lemma tables_untouched:
  assumes wf: "pt_wf m h root" and o: "pt_open m h root"
    and same: "\<And>t. t \<in> pt_tables m h root \<Longrightarrow> page_same m m' (t + h)"
  shows "pt_wf m' h root" "pt_open m' h root" "pt_tables m' h root = pt_tables m h root"
    "lower_half va \<Longrightarrow> pt_leaf m' h root va = pt_leaf m h root va"
proof -
  have base: "pt_base m' h root va d = pt_base m h root va d" if "lower_half va" "d \<le> 4" for va d
    by (rule pt_base_page_same [OF wf same that])
  have e: "get_pte m' (t + h) (depth_index va d) = get_pte m (t + h) (depth_index va d)"
    if "lower_half va" "d < 4" "pt_base m h root va d = Some t" for va d t
    by (rule get_pte_page_same) (use same pt_tables_I that in auto)
  show "pt_wf m' h root"
    using wf unfolding pt_wf_def no_share_def by (metis base less_imp_le)
  show "pt_open m' h root"
    by (rule pt_open_cong [OF o]) (use base e in auto)
  show "pt_tables m' h root = pt_tables m h root"
    unfolding pt_tables_def by (metis base less_imp_le)
  show "pt_leaf m' h root va = pt_leaf m h root va" if "lower_half va"
    unfolding pt_leaf_def using base [OF that, of 3] e [OF that, of 3] by (auto split: option.split)
qed

lemma vga_aligned: "aligned 12 (VGA_BUFFER :: u64)"
  by (simp add: aligned_def take_bit_eq_mod word_unat_eq_iff unat_mod)

text \<open>Printing does not disturb a well-formed state.\<close>

lemma puts_page_same:
  assumes "vm_inv s root ps" "aligned 12 a" "a \<noteq> VGA_BUFFER"
  shows "page_same (mem s) (mem (term_puts cs s)) (a + hhdm_base s)"
  by (rule page_same_outside_vga [OF term_puts_outside [OF vm_invD(6) [OF assms(1)]]])
    (use vm_invD(7,10) [OF assms(1)] assms vga_aligned in \<open>auto intro: aligned_add\<close>)

lemma vm_inv_puts:
  assumes inv: "vm_inv s root ps"
  shows "vm_inv (term_puts cs s) root ps"
    "tables_of (term_puts cs s) root = tables_of s root"
    "lower_half va \<Longrightarrow> leaf_of (term_puts cs s) root va = leaf_of s root va"
proof -
  note D = vm_invD [OF inv]
  have t: "page_same (mem s) (mem (term_puts cs s)) (t + hhdm_base s)" if "t \<in> tables_of s root" for t
    using puts_page_same [OF inv pt_tables_aligned [OF D(2) that]] that D(8) by metis
  have q: "page_same (mem s) (mem (term_puts cs s)) (q + hhdm_base s)" if "q \<in> set ps" for q
    using puts_page_same [OF inv, of q] that D by (auto simp: pmem_rep_def page_ok_def)
  note U = tables_untouched [OF D(2,3) t]
  have "pmem_rep (term_puts cs s) ps" by (rule pmem_rep_cong [OF D(1)]) (use q in auto)
  then show "vm_inv (term_puts cs s) root ps"
    using D U(1,2,3) by (simp add: vm_inv_def)
  show "tables_of (term_puts cs s) root = tables_of s root"
    "lower_half va \<Longrightarrow> leaf_of (term_puts cs s) root va = leaf_of s root va"
    using U(3,4) by simp_all
qed

section \<open>One step of the mapping loop\<close>

text \<open>The state after the loop took page \<open>p\<close>, cleared it and pointed the entry at it.\<close>

definition hung :: "u64 \<Rightarrow> u64 \<Rightarrow> u64 \<Rightarrow> bool \<Rightarrow> bool \<Rightarrow> bool \<Rightarrow> 'a kmem_scheme \<Rightarrow> 'a kmem_scheme" where
  "hung p T index nx user wr s =
     upd_pte (T + hhdm_base s) index
       (\<lambda>e. e\<lparr>pte_present := True, pte_address := ucast (drop_bit 12 p), pte_no_execute := nx,
             pte_user := user, pte_writable := wr\<rparr>)
       (s\<lparr>mem := memset (mem s) (p + hhdm_base s) 0 0x1000\<rparr>)"

lemma upd_pte_hung:
  assumes "aligned 12 T" "aligned 12 (hhdm_base s)" "i < 512"
  shows "upd_pte (T + hhdm_base s) i (\<lambda>e. e\<lparr>pte_writable := wr\<rparr>)
    (upd_pte (T + hhdm_base s) i (\<lambda>e. e\<lparr>pte_user := us\<rparr>)
      (upd_pte (T + hhdm_base s) i (\<lambda>e. e\<lparr>pte_no_execute := nx\<rparr>)
        (upd_pte (T + hhdm_base s) i (\<lambda>e. e\<lparr>pte_address := ucast (drop_bit 12 p)\<rparr>)
          (upd_pte (T + hhdm_base s) i (\<lambda>e. e\<lparr>pte_present := True\<rparr>)
            (s\<lparr>mem := memset (mem s) (p + hhdm_base s) 0 0x1000\<rparr>))))) = hung p T i nx us wr s"
  using assms aligned_add [of 12 T "hhdm_base s"] by (simp add: upd_pte_twice hung_def)

lemma hung_facts:
  assumes inv: "vm_inv s root (p # ps)" and alloc: "pmem_alloc s = Some (p, s1)"
    and T: "T \<in> tables_of s root" and i: "i < 512"
    and s': "s' = hung p T i nx us wr s1"
  defines "e \<equiv> (get_pte (mem s) (T + hhdm_base s) i)\<lparr>pte_present := True, pte_address := ucast (drop_bit 12 p),
     pte_no_execute := nx, pte_user := us, pte_writable := wr\<rparr>"
  shows "get_pte (mem s') (T + hhdm_base s) i = e" "pte_frame e = p"
    "page_zero (mem s') (p + hhdm_base s)" "same_cpu s s'" "p \<notin> tables_of s root" "p \<noteq> VGA_BUFFER"
    "\<And>t j. t \<in> tables_of s root \<Longrightarrow> j < 512 \<Longrightarrow> t \<noteq> T \<or> j \<noteq> i \<Longrightarrow>
      get_pte (mem s') (t + hhdm_base s) j = get_pte (mem s) (t + hhdm_base s) j"
    "\<And>a. aligned 12 a \<Longrightarrow> a \<noteq> p \<Longrightarrow> a \<noteq> T \<Longrightarrow> page_same (mem s) (mem s') (a + hhdm_base s)"
    "pmem_rep s' ps" "term_inv s'"
proof -
  note D = vm_invD [OF inv]
  have "freelist s \<noteq> 0" using pmem_rep_0 [OF D(1)] by simp
  with alloc have s1: "mem s1 = mem s" "same_cpu s s1" "term_inv s1 = term_inv s"
    by (auto simp: pmem_alloc_Cons same_cpu_def term_inv_def)
  then have h: "hhdm_base s1 = hhdm_base s" by (simp add: same_cpu_def)
  have m': "mem s' = set_pte (memset (mem s) (p + hhdm_base s) 0 0x1000) (T + hhdm_base s) i
     ((get_pte (memset (mem s) (p + hhdm_base s) 0 0x1000) (T + hhdm_base s) i)\<lparr>pte_present := True,
       pte_address := ucast (drop_bit 12 p), pte_no_execute := nx, pte_user := us, pte_writable := wr\<rparr>)"
    by (simp add: s' hung_def upd_pte_def s1 h)
  have p: "page_ok s p" "p \<notin> set ps" using D(1) by (auto simp: pmem_rep_def)
  then have pa: "aligned 12 p" "p < 2 ^ 52" by (simp_all add: page_ok_def)
  show pT: "p \<notin> tables_of s root" "p \<noteq> VGA_BUFFER" using D(4,9) by auto
  have Ta: "aligned 12 T" "p \<noteq> T" using pt_tables_aligned [OF D(2) T] pT T by auto
  note H = hang_page [OF D(10) pa(1) Ta i m']
  have "page_same (mem s) (memset (mem s) (p + hhdm_base s) 0 0x1000) (T + hhdm_base s)"
    using pa Ta D(10) by (intro page_same_memset) (auto intro: aligned_add)
  then have "get_pte (memset (mem s) (p + hhdm_base s) 0 0x1000) (T + hhdm_base s) i = get_pte (mem s) (T + hhdm_base s) i"
    using i by (rule get_pte_page_same)
  then show "get_pte (mem s') (T + hhdm_base s) i = e" using H(1) by (simp add: e_def)
  show "pte_frame e = p" using pte_frame_of_address [OF pa] by (simp add: e_def pte_frame_def)
  show "page_zero (mem s') (p + hhdm_base s)" by (rule H(2))
  show "same_cpu s s'" using s1(2) by (cases s1) (simp add: s' hung_def upd_pte_def same_cpu_def)
  show "term_inv s'" using s1 D(6) by (simp add: s' hung_def upd_pte_def term_inv_def)
  show "get_pte (mem s') (t + hhdm_base s) j = get_pte (mem s) (t + hhdm_base s) j"
    if "t \<in> tables_of s root" "j < 512" "t \<noteq> T \<or> j \<noteq> i" for t j
    using H(3) pt_tables_aligned [OF D(2) that(1)] that pT by metis
  show same: "page_same (mem s) (mem s') (a + hhdm_base s)" if "aligned 12 a" "a \<noteq> p" "a \<noteq> T" for a
    by (rule H(4) [OF that])
  have rep: "pmem_rep s1 ps" using pmem.alloc_fresh [OF D(1) alloc] by simp
  have q: "page_same (mem s1) (mem s') (q + hhdm_base s1)" if "q \<in> set ps" for q
    using same [of q] that D(1,4) T p(2) by (auto simp: s1 h pmem_rep_def page_ok_def)
  show "pmem_rep s' ps"
    by (rule pmem_rep_cong [OF rep _ _ q]) (simp_all add: s' hung_def upd_pte_def)
qed

lemma same_cpuD: "same_cpu s s' \<Longrightarrow> hhdm_base s' = hhdm_base s" "same_cpu s s' \<Longrightarrow> term_ptr s' = term_ptr s"
  by (simp_all add: same_cpu_def)

text \<open>At level 1 the new page is the mapped one.\<close>

lemma map_leaf:
  assumes inv: "vm_inv s root (p # ps)" and alloc: "pmem_alloc s = Some (p, s1)" and low: "lower_half va"
    and T: "pt_base (mem s) (hhdm_base s) root va 3 = Some T"
    and s': "s' = hung p T (depth_index va 3) (\<not> x) u w s1"
  shows "vm_mapped root va u w x (p # ps) 1 s s'"
proof -
  note D = vm_invD [OF inv]
  have Tt: "T \<in> tables_of s root" using pt_tables_I [OF low _ T] by simp
  have i: "depth_index va 3 < 512" by simp
  note H = hung_facts [OF inv alloc Tt i s']
  note h = same_cpuD [OF H(4)]
  have c: "leaf_changes (mem s) (mem s') (hhdm_base s) root va T"
    using low T H(7) by (simp add: leaf_changes_def)
  note L = leaf_update [OF D(2) c]
  have inv': "vm_inv s' root ps"
    using D H leaf_wf [OF D(2) c] leaf_open [OF D(2) c D(3)] leaf_tables [OF D(2) c]
    by (simp add: vm_inv_def h)
  have new: "leaf_of s' root va = Some (get_pte (mem s') (T + hhdm_base s) (depth_index va 3))"
    using L [OF low] H(1) by (simp add: h same_page_def)
  show ?thesis
    unfolding vm_mapped_def
    using inv' H new leaf_tables [OF D(2) c] Tt by (auto simp: h L)
qed

text \<open>Above level 1 it is a table, and one page less is missing.\<close>

lemma map_grow:
  assumes inv: "vm_inv s root (p # ps)" and alloc: "pmem_alloc s = Some (p, s1)" and low: "lower_half va"
    and T: "pt_base (mem s) (hhdm_base s) root va d = Some T" and d: "d < 3"
    and absent: "\<not> pte_present (get_pte (mem s) (T + hhdm_base s) (depth_index va d))"
    and s': "s' = hung p T (depth_index va d) False True True s1"
  shows "vm_inv s' root ps" "same_cpu s s'" "pt_base (mem s') (hhdm_base s) root va (Suc d) = Some p"
    "missing_of s root va = Suc (missing_of s' root va)"
    "tables_of s' root = insert p (tables_of s root)"
    "\<And>va'. lower_half va' \<Longrightarrow> leaf_of s' root va' = leaf_of s root va'"
    "\<And>a. aligned 12 a \<Longrightarrow> a \<noteq> p \<Longrightarrow> a \<notin> tables_of s root \<Longrightarrow> page_same (mem s) (mem s') (a + hhdm_base s)"
    "pte_frame (get_pte (mem s') (T + hhdm_base s) (depth_index va d)) = p"
proof -
  note D = vm_invD [OF inv]
  have Tt: "T \<in> tables_of s root" using pt_tables_I [OF low _ T] d by simp
  have i: "depth_index va d < 512" using d by simp
  note H = hung_facts [OF inv alloc Tt i s']
  show same: "same_cpu s s'" by (rule H(4))
  note h = same_cpuD [OF same]
  have zero: "get_pte (mem s') (p + hhdm_base s) j = pte_of_word 0" if "j < 512" for j
    by (rule get_pte_zero [OF H(3) that])
  have g: "grows (mem s) (mem s') (hhdm_base s) root va d T p"
    using low d T absent H(1,2,5,7) zero by (simp add: grows_def pte_of_word_def)
  have e: "get_pte (mem s') (T + hhdm_base s) (depth_index va d) =
      (get_pte (mem s) (T + hhdm_base s) (depth_index va d))\<lparr>pte_present := True,
       pte_address := ucast (drop_bit 12 p), pte_no_execute := False, pte_user := True, pte_writable := True\<rparr>"
    by (rule H(1))
  have o: "pt_open (mem s') (hhdm_base s) root"
    by (rule grow_open [OF D(2) g D(3) zero]) (simp_all add: e)
  have tabs: "pt_tables (mem s') (hhdm_base s) root = insert p (tables_of s root)"
    by (rule grow_tables [OF D(2) g])
  have "p \<notin> set ps" using D(1) by (simp add: pmem_rep_def)
  then show "vm_inv s' root ps"
    using D H o grow_wf [OF D(2) g] tabs by (simp add: vm_inv_def h)
  show "pt_base (mem s') (hhdm_base s) root va (Suc d) = Some p"
    using grow_base [OF D(2) g low, of "Suc d"] d by simp
  show "missing_of s root va = Suc (missing_of s' root va)"
    using grow_missing [OF D(2) g] d by (simp add: h)
  show "tables_of s' root = insert p (tables_of s root)" using tabs by (simp add: h)
  show "leaf_of s' root va' = leaf_of s root va'" if "lower_half va'" for va'
    using grow_leaf [OF D(2) g that] by (simp add: h)
  show "page_same (mem s) (mem s') (a + hhdm_base s)"
    if "aligned 12 a" "a \<noteq> p" "a \<notin> tables_of s root" for a
    using H(8) [OF that(1,2)] that(3) Tt by blast
  show "pte_frame (get_pte (mem s') (T + hhdm_base s) (depth_index va d)) = p"
    using H(1,2) by simp
qed

lemma vm_mapped_after:
  assumes "vm_mapped root va u w x ps n s1 s'" "0 < n" "same_cpu s s1"
    "tables_of s1 root = insert p (tables_of s root)"
    "\<And>va'. lower_half va' \<Longrightarrow> leaf_of s1 root va' = leaf_of s root va'"
    "\<And>a. aligned 12 a \<Longrightarrow> a \<noteq> p \<Longrightarrow> a \<notin> tables_of s root \<Longrightarrow> page_same (mem s) (mem s1) (a + hhdm_base s)"
  shows "vm_mapped root va u w x (p # ps) (Suc n) s s'"
proof -
  have h: "hhdm_base s1 = hhdm_base s" using assms(3) by (simp add: same_cpu_def)
  obtain k where n: "n = Suc k" using assms(2) by (cases n) auto
  note V = assms(1) [unfolded vm_mapped_def h n]
  have pages: "page_same (mem s) (mem s') (a + hhdm_base s)"
    if "aligned 12 a" "a \<notin> tables_of s root" "a \<notin> set (take (Suc n) (p # ps))" for a
    using that V assms(4) by (intro page_same_trans [OF assms(6)]) (auto simp: n h)
  have "same_cpu s s'" using V same_cpu_trans [OF assms(3)] by blast
  then show ?thesis
    using V pages assms(4,5) by (simp add: vm_mapped_def h n)
qed

lemma vm_exhausted_after:
  assumes "vm_exhausted root ps s1 s'" "same_cpu s s1"
    "tables_of s1 root = insert p (tables_of s root)"
    "\<And>va'. lower_half va' \<Longrightarrow> leaf_of s1 root va' = leaf_of s root va'"
    "\<And>a. aligned 12 a \<Longrightarrow> a \<noteq> p \<Longrightarrow> a \<notin> tables_of s root \<Longrightarrow> page_same (mem s) (mem s1) (a + hhdm_base s)"
  shows "vm_exhausted root (p # ps) s s'"
proof -
  have h: "hhdm_base s1 = hhdm_base s" using assms(2) by (simp add: same_cpu_def)
  note V = assms(1) [unfolded vm_exhausted_def h]
  have pages: "page_same (mem s) (mem s') (a + hhdm_base s)"
    if "aligned 12 a" "a \<notin> tables_of s root" "a \<notin> set (p # ps)" "a \<noteq> VGA_BUFFER" for a
    using that V assms(3) by (intro page_same_trans [OF assms(5)]) (auto simp: h)
  have "same_cpu s s'" using V same_cpu_trans [OF assms(2)] by blast
  then show ?thesis
    using V pages assms(3,4) by (simp add: vm_exhausted_def h)
qed

lemma vm_exhausted_puts:
  assumes "vm_inv s root []"
  shows "vm_exhausted root [] s (term_puts cs s)"
  using vm_inv_puts [OF assms] puts_page_same [OF assms]
  by (simp add: vm_exhausted_def same_cpu_def)

section \<open>The mapping loop\<close>

lemma vm_map_loop_step:
  "pte_present (get_pte (mem s) t (table_index va (Suc i))) \<Longrightarrow> vm_map_loop (Suc i) va u w x t s =
    (if i = 0 then Some (False, s)
     else vm_map_loop i va u w x (pte_frame (get_pte (mem s) t (table_index va (Suc i))) + hhdm_base s) s)"
  "\<not> pte_present (get_pte (mem s) t (table_index va (Suc i))) \<Longrightarrow> pmem_alloc s = Some (0, s1) \<Longrightarrow>
    vm_map_loop (Suc i) va u w x t s = Some (False, s1)"
  by (simp_all add: Let_def)

lemma vm_map_loop_new:
  assumes "\<not> pte_present (get_pte (mem s) (T + hhdm_base s) index)" "pmem_alloc s = Some (p, s1)" "p \<noteq> 0"
    "hhdm_base s1 = hhdm_base s" "aligned 12 T" "aligned 12 (hhdm_base s)"
    "0 < l" "l \<le> 4" "index = table_index va l" "l = Suc i"
  shows "vm_map_loop (Suc i) va u w x (T + hhdm_base s) s =
    (if i = 0 then Some (True, invalidate_tlb va (hung p T index (\<not> x) u w s1))
     else let s' = hung p T index False True True s1
          in vm_map_loop i va u w x (pte_frame (get_pte (mem s') (T + hhdm_base s) index) + hhdm_base s') s')"
proof -
  have "index < 512" using assms(7-9) by simp
  then have "upd_pte (T + hhdm_base s) index (\<lambda>e. e\<lparr>pte_writable := wr\<rparr>)
    (upd_pte (T + hhdm_base s) index (\<lambda>e. e\<lparr>pte_user := us\<rparr>)
      (upd_pte (T + hhdm_base s) index (\<lambda>e. e\<lparr>pte_no_execute := nx\<rparr>)
        (upd_pte (T + hhdm_base s) index (\<lambda>e. e\<lparr>pte_address := ucast (drop_bit 12 p)\<rparr>)
          (upd_pte (T + hhdm_base s) index (\<lambda>e. e\<lparr>pte_present := True\<rparr>)
            (s1\<lparr>mem := memset (mem s1) (p + hhdm_base s) 0 0x1000\<rparr>))))) = hung p T index nx us wr s1"
    for nx us wr
    using upd_pte_hung [of T s1 index] assms by simp
  moreover have "table_index va (Suc i) = index" using assms(9,10) by simp
  moreover have "hhdm_base (hung p T index nx us wr s1) = hhdm_base s" for nx us wr
    using assms(4) by (simp add: hung_def)
  ultimately show ?thesis using assms(1-4) by (simp add: Let_def)
qed

declare vm_map_loop.simps(2) [simp del]

lemma invalidate_tlb_inv [simp]: "vm_inv (invalidate_tlb a s) root ps = vm_inv s root ps"
  by (simp add: vm_inv_def invalidate_tlb_def pmem_rep_def page_ok_def term_inv_def)

lemma invalidate_tlb_mapped [simp]:
  "vm_mapped root va u w x ps n s (invalidate_tlb a s') = vm_mapped root va u w x ps n s s'"
  unfolding vm_mapped_def by (simp add: same_cpu_def) (simp add: invalidate_tlb_def)

lemma vm_map_loop_spec:
  assumes "vm_inv s root ps" "lower_half va" "i \<le> 4" "0 < i"
    "pt_base (mem s) (hhdm_base s) root va (4 - i) = Some T"
  shows "(\<forall>e. leaf_of s root va = Some e \<longrightarrow> vm_map_loop i va u w x (T + hhdm_base s) s = Some (False, s)) \<and>
    (leaf_of s root va = None \<and> missing_of s root va \<le> length ps \<longrightarrow>
      (\<exists>s'. vm_map_loop i va u w x (T + hhdm_base s) s = Some (True, s') \<and>
        vm_mapped root va u w x ps (missing_of s root va) s s')) \<and>
    (leaf_of s root va = None \<and> length ps < missing_of s root va \<longrightarrow>
      (\<exists>s'. vm_map_loop i va u w x (T + hhdm_base s) s = Some (False, s') \<and> vm_exhausted root ps s s'))"
  using assms
proof (induction i arbitrary: s ps T)
  case (Suc i)
  define d where "d = 3 - i"
  define h where "h = hhdm_base s"
  have d: "4 - Suc i = d" "d < 4" "i = 3 - d" using Suc.prems by (auto simp: d_def)
  note inv = Suc.prems(1) and low = Suc.prems(2)
  note D = vm_invD [OF inv]
  have T: "pt_base (mem s) h root va d = Some T" using Suc.prems(5) unfolding h_def d(1) .
  have "Suc i = 4 - d" using d by simp
  then have idx: "table_index va (Suc i) = depth_index va d" by (simp only: depth_index_def)
  note st = vm_map_loop_step [of s "T + h" va i, unfolded idx]
  let ?e = "get_pte (mem s) (T + h) (depth_index va d)"
  show ?case
  proof (cases "pte_present ?e")
    case True
    show ?thesis
    proof (cases "i = 0")
      case True
      then have "d = 3" by (simp add: d_def)
      with T \<open>pte_present ?e\<close> have "leaf_of s root va = Some ?e"
        by (simp add: leaf_at h_def)
      then show ?thesis using True \<open>pte_present ?e\<close> st(1) by (simp add: h_def)
    next
      case False
      have "pt_base (mem s) h root va (4 - i) = Some (pte_frame ?e)"
        using T \<open>pte_present ?e\<close> False d by (simp add: Suc_diff_Suc Let_def)
      with False \<open>pte_present ?e\<close> show ?thesis
        using Suc.IH [of s ps "pte_frame ?e"] inv low Suc.prems(3) st(1) by (simp add: h_def)
    qed
  next
    case False
    have miss: "missing_of s root va = 4 - d"
      using missing_at [OF T d(2)] False by (simp add: h_def)
    have none: "leaf_of s root va = None"
    proof (cases "d = 3")
      case True
      then show ?thesis using leaf_at [of "mem s" h root va T] T False by (simp add: h_def)
    next
      case neq: False
      have "pt_base (mem s) h root va (Suc d) = None" using T False by simp
      then show ?thesis using leaf_None [of "mem s" h root va "Suc d"] neq d by (simp add: h_def)
    qed
    show ?thesis
    proof (cases ps)
      case Nil
      then have "freelist s = 0" using pmem_rep_0 [OF D(1)] by simp
      then show ?thesis
        using st(2) [OF _ pmem_alloc_Nil] False miss d(2) none
          vm_exhausted_puts [of s root] inv Nil
        by (auto simp: h_def)
    next
      case (Cons p ps')
      obtain s1 where alloc: "pmem_alloc s = Some (p, s1)"
        using pmem.alloc_Cons D(1) Cons by blast
      have p: "p \<noteq> 0" using D(5) Cons by auto
      have h1: "hhdm_base s1 = hhdm_base s"
        using alloc by (cases "freelist s = 0") (auto simp: pmem_alloc_Nil pmem_alloc_Cons)
      have Tt: "T \<in> tables_of s root" using pt_tables_I [OF low d(2)] T by (simp add: h_def)
      have Ta: "aligned 12 T" by (rule pt_tables_aligned [OF D(2) Tt])
      have new: "vm_map_loop (Suc i) va u w x (T + hhdm_base s) s =
        (if i = 0 then Some (True, invalidate_tlb va (hung p T (depth_index va d) (\<not> x) u w s1))
         else let s' = hung p T (depth_index va d) False True True s1
          in vm_map_loop i va u w x (pte_frame (get_pte (mem s') (T + hhdm_base s) (depth_index va d)) + hhdm_base s') s')"
        by (rule vm_map_loop_new [OF _ alloc p h1 Ta D(10), where l = "Suc i"])
          (use False Suc.prems idx in \<open>simp_all add: h_def\<close>)
      show ?thesis
      proof (cases "i = 0")
        case True
        then have d3: "d = 3" by (simp add: d_def)
        have "vm_mapped root va u w x (p # ps') 1 s (hung p T (depth_index va 3) (\<not> x) u w s1)"
          using map_leaf [OF _ alloc low] inv T Cons d3 by (simp add: h_def)
        then show ?thesis
          using new False True d3 miss none Cons by simp
      next
        case nz: False
        then have d3: "d < 3" using Suc.prems(3) by (simp add: d_def)
        define s' where "s' = hung p T (depth_index va d) False True True s1"
        have G: "vm_inv s root (p # ps')" "pt_base (mem s) (hhdm_base s) root va d = Some T"
          "\<not> pte_present (get_pte (mem s) (T + hhdm_base s) (depth_index va d))"
          using inv T False Cons by (simp_all add: h_def)
        note M = map_grow [OF G(1) alloc low G(2) d3 G(3) s'_def]
        have "Suc d = 4 - i" using d by simp
        then have b: "pt_base (mem s') (hhdm_base s') root va (4 - i) = Some p"
          using M(3) same_cpuD(1) [OF M(2)] by simp
        have eq: "vm_map_loop (Suc i) va u w x (T + hhdm_base s) s = vm_map_loop i va u w x (p + hhdm_base s') s'"
          using new nz M(8) same_cpuD(1) [OF M(2)] by (simp add: s'_def [symmetric])
        have "0 < missing_of s' root va" using M(4) miss d3 by simp
        then show ?thesis
          using Suc.IH [OF M(1) low _ _ b] Suc.prems(3) nz none M(4) M(6) [OF low] Cons
            vm_mapped_after [OF _ _ M(2,5,6,7)] vm_exhausted_after [OF _ M(2,5,6,7)]
          by (auto simp: eq)
      qed
    qed
  qed
qed simp

lemmas vm_map_spec = vm_map_loop_spec [where i = 4, simplified, folded vm_map_def]

section \<open>Changing and removing a leaf\<close>

declare vm_protect_loop.simps(2) [simp del] vm_unmap_loop.simps(2) [simp del]

lemma walk_induct:
  assumes base: "0 < i" "i \<le> 4" "pt_base m h root va (4 - i) = Some T"
    and one: "\<And>T. pt_base m h root va 3 = Some T \<Longrightarrow>
      pte_present (get_pte m (T + h) (depth_index va 3)) \<Longrightarrow> P 1 T"
    and absent: "\<And>i T. i < 4 \<Longrightarrow> pt_base m h root va (3 - i) = Some T \<Longrightarrow> pt_leaf m h root va = None \<Longrightarrow>
      \<not> pte_present (get_pte m (T + h) (table_index va (Suc i))) \<Longrightarrow> P (Suc i) T"
    and step: "\<And>i T. 0 < i \<Longrightarrow> i < 4 \<Longrightarrow> pt_base m h root va (3 - i) = Some T \<Longrightarrow>
      pte_present (get_pte m (T + h) (table_index va (Suc i))) \<Longrightarrow>
      P i (pte_frame (get_pte m (T + h) (table_index va (Suc i)))) \<Longrightarrow> P (Suc i) T"
  shows "P i T"
  using base
proof (induction i arbitrary: T)
  case (Suc i)
  then have i: "i < 4" and T: "pt_base m h root va (3 - i) = Some T" by simp_all
  have "Suc i = 4 - (3 - i)" using i by simp
  then have idx: "table_index va (Suc i) = depth_index va (3 - i)" by (simp only: depth_index_def)
  show ?case
  proof (cases "pte_present (get_pte m (T + h) (table_index va (Suc i)))")
    case True
    show ?thesis
    proof (cases "i = 0")
      case True
      then show ?thesis using one [of T] T \<open>pte_present _\<close> idx by simp
    next
      case False
      then have "Suc (3 - i) = 4 - i" using i by simp
      moreover have "pt_base m h root va (Suc (3 - i)) = Some (pte_frame (get_pte m (T + h) (table_index va (Suc i))))"
        using T True by (simp add: idx Let_def)
      ultimately have "P i (pte_frame (get_pte m (T + h) (table_index va (Suc i))))"
        using Suc.IH False i by simp
      then show ?thesis using step False i T True by blast
    qed
  next
    case False
    have "pt_leaf m h root va = None"
    proof (cases "i = 0")
      case True
      then show ?thesis using T False idx by (simp add: leaf_at)
    next
      case nz: False
      have "pt_base m h root va (Suc (3 - i)) = None" using T False by (simp add: idx)
      then show ?thesis by (rule leaf_None) (use nz i in simp)
    qed
    then show ?thesis using absent i T False by blast
  qed
qed simp

lemma vm_protect_walk:
  "vm_protect root va u w x s = (case pt_base (mem s) (hhdm_base s) root va 3 of
     Some T \<Rightarrow> if leaf_of s root va \<noteq> None then vm_protect_loop 1 va u w x (T + hhdm_base s) s else Some (False, s)
   | None \<Rightarrow> Some (False, s))"
proof -
  let ?r = "case pt_base (mem s) (hhdm_base s) root va 3 of
     Some T \<Rightarrow> if leaf_of s root va \<noteq> None then vm_protect_loop 1 va u w x (T + hhdm_base s) s else Some (False, s)
   | None \<Rightarrow> Some (False, s)"
  have "vm_protect_loop 4 va u w x (root + hhdm_base s) s = ?r"
  proof (rule walk_induct [where P = "\<lambda>i T. vm_protect_loop i va u w x (T + hhdm_base s) s = ?r" and i = 4 and T = root and m = "mem s" and h = "hhdm_base s" and root = root and va = va])
    fix i T assume "leaf_of s root va = None" "\<not> pte_present (get_pte (mem s) (T + hhdm_base s) (table_index va (Suc i)))"
    then show "vm_protect_loop (Suc i) va u w x (T + hhdm_base s) s = ?r"
      by (simp add: vm_protect_loop.simps Let_def split: option.split)
  next
    fix i T assume "0 < i" "pte_present (get_pte (mem s) (T + hhdm_base s) (table_index va (Suc i)))"
      "vm_protect_loop i va u w x (pte_frame (get_pte (mem s) (T + hhdm_base s) (table_index va (Suc i))) + hhdm_base s) s = ?r"
    then show "vm_protect_loop (Suc i) va u w x (T + hhdm_base s) s = ?r"
      by (simp add: vm_protect_loop.simps Let_def)
  qed (simp_all add: leaf_at)
  then show ?thesis by (simp add: vm_protect_def)
qed

lemma vm_unmap_walk:
  "vm_unmap root va s = (case pt_base (mem s) (hhdm_base s) root va 3 of
     Some T \<Rightarrow> if leaf_of s root va \<noteq> None then vm_unmap_loop 1 va (T + hhdm_base s) s else Some (False, s)
   | None \<Rightarrow> Some (False, s))"
proof -
  let ?r = "case pt_base (mem s) (hhdm_base s) root va 3 of
     Some T \<Rightarrow> if leaf_of s root va \<noteq> None then vm_unmap_loop 1 va (T + hhdm_base s) s else Some (False, s)
   | None \<Rightarrow> Some (False, s)"
  have "vm_unmap_loop 4 va (root + hhdm_base s) s = ?r"
  proof (rule walk_induct [where P = "\<lambda>i T. vm_unmap_loop i va (T + hhdm_base s) s = ?r" and i = 4 and T = root and m = "mem s" and h = "hhdm_base s" and root = root and va = va])
    fix i T assume "leaf_of s root va = None" "\<not> pte_present (get_pte (mem s) (T + hhdm_base s) (table_index va (Suc i)))"
    then show "vm_unmap_loop (Suc i) va (T + hhdm_base s) s = ?r"
      by (simp add: vm_unmap_loop.simps Let_def split: option.split)
  next
    fix i T assume "0 < i" "pte_present (get_pte (mem s) (T + hhdm_base s) (table_index va (Suc i)))"
      "vm_unmap_loop i va (pte_frame (get_pte (mem s) (T + hhdm_base s) (table_index va (Suc i))) + hhdm_base s) s = ?r"
    then show "vm_unmap_loop (Suc i) va (T + hhdm_base s) s = ?r"
      by (simp add: vm_unmap_loop.simps Let_def)
  qed (simp_all add: leaf_at)
  then show ?thesis by (simp add: vm_unmap_def)
qed

lemma set_leaf:
  assumes wf: "pt_wf m h root" and low: "lower_half va" and T: "pt_base m h root va 3 = Some T"
    and m': "m' = set_pte m (T + h) (depth_index va 3) e'"
  shows "leaf_changes m m' h root va T" "get_pte m' (T + h) (depth_index va 3) = e'"
    "\<And>a. aligned 12 a \<Longrightarrow> a \<notin> pt_tables m h root \<Longrightarrow> page_same m m' (a + h)"
proof -
  have Tt: "T \<in> pt_tables m h root" using pt_tables_I [OF low _ T] by simp
  have al: "aligned 12 (t + h)" if "t \<in> pt_tables m h root" for t
    using pt_tables_aligned [OF wf that] wf by (simp add: pt_wf_def aligned_add)
  have i: "depth_index va 3 < 512" by simp
  show "get_pte m' (T + h) (depth_index va 3) = e'"
    using al [OF Tt] by (simp add: m' get_set_pte)
  show "leaf_changes m m' h root va T"
    using low T al Tt by (auto simp: leaf_changes_def m' get_set_pte)
  show "page_same m m' (a + h)" if "aligned 12 a" "a \<notin> pt_tables m h root" for a
    unfolding m' by (rule page_same_set_pte)
      (use that al [OF Tt] Tt wf in \<open>auto simp: pt_wf_def intro: aligned_add\<close>)
qed

lemma leaf_someD:
  assumes "leaf_of s root va = Some e"
  obtains T where "pt_base (mem s) (hhdm_base s) root va 3 = Some T"
    "get_pte (mem s) (T + hhdm_base s) (depth_index va 3) = e" "pte_present e"
  using assms by (auto simp: pt_leaf_def Let_def split: option.splits if_splits)

lemma depth_index_3: "depth_index va 3 = table_index va 1"
  by (simp add: depth_index_def)

lemma vm_protect_unmapped: "leaf_of s root va = None \<Longrightarrow> vm_protect root va u w x s = Some (False, s)"
  by (simp add: vm_protect_walk split: option.split)

lemma vm_unmap_unmapped: "leaf_of s root va = None \<Longrightarrow> vm_unmap root va s = Some (False, s)"
  by (simp add: vm_unmap_walk split: option.split)

lemma vm_protect_mapped:
  assumes inv: "vm_inv s root ps" and low: "lower_half va" and leaf: "leaf_of s root va = Some e"
  shows "\<exists>s'. vm_protect root va u w x s = Some (True, s') \<and> vm_inv s' root ps \<and> same_cpu s s' \<and>
    tables_of s' root = tables_of s root \<and>
    (\<forall>va'. lower_half va' \<longrightarrow> leaf_of s' root va' =
       (if same_page va va' then Some (e\<lparr>pte_no_execute := \<not> x, pte_user := u, pte_writable := w\<rparr>)
        else leaf_of s root va')) \<and>
    (\<forall>a. aligned 12 a \<and> a \<notin> tables_of s root \<longrightarrow> page_same (mem s) (mem s') (a + hhdm_base s))"
proof -
  note D = vm_invD [OF inv]
  obtain T where T: "pt_base (mem s) (hhdm_base s) root va 3 = Some T"
    and e: "get_pte (mem s) (T + hhdm_base s) (depth_index va 3) = e" "pte_present e"
    using leaf by (rule leaf_someD)
  have Tt: "T \<in> tables_of s root" using pt_tables_I [OF low _ T] by simp
  have Ta: "aligned 12 (T + hhdm_base s)" using pt_tables_aligned [OF D(2) Tt] D(10) by (rule aligned_add)
  let ?e = "e\<lparr>pte_no_execute := \<not> x, pte_user := u, pte_writable := w\<rparr>"
  define s1 where "s1 = upd_pte (T + hhdm_base s) (depth_index va 3)
    (\<lambda>e. e\<lparr>pte_no_execute := \<not> x, pte_user := u, pte_writable := w\<rparr>) s"
  have run: "vm_protect root va u w x s = Some (True, invalidate_tlb va s1)"
    using T leaf e Ta vm_protect_loop.simps(2) [of 0 va u w x "T + hhdm_base s" s]
    by (simp add: vm_protect_walk Let_def upd_pte_twice s1_def depth_index_3)
  have m1: "mem s1 = set_pte (mem s) (T + hhdm_base s) (depth_index va 3) ?e"
    by (simp add: s1_def upd_pte_def e)
  note L = set_leaf [OF D(2) low T m1]
  note U = leaf_wf [OF D(2) L(1)] leaf_open [OF D(2) L(1) D(3)] leaf_tables [OF D(2) L(1)]
  have "page_same (mem s) (mem s1) (q + hhdm_base s)" if "q \<in> set ps" for q
    using L(3) [of q] that D(1,4) by (auto simp: pmem_rep_def page_ok_def)
  then have "pmem_rep s1 ps"
    by (rule pmem_rep_cong [OF D(1), rotated 2]) (simp_all add: s1_def upd_pte_def)
  then have "vm_inv s1 root ps"
    using D U by (simp add: vm_inv_def s1_def term_inv_def upd_pte_def)
  moreover have "same_cpu s (invalidate_tlb va s1)"
    by (cases s) (simp add: same_cpu_def s1_def upd_pte_def invalidate_tlb_def)
  moreover have "leaf_of s1 root va' = (if same_page va va' then Some ?e else leaf_of s root va')"
    if "lower_half va'" for va'
    using leaf_update [OF D(2) L(1) that] L(2) e by (simp add: s1_def Let_def)
  ultimately show ?thesis
    using run U(3) L(3) by (simp add: s1_def)
qed

text \<open>
  \<open>vm_unmap\<close> gives the frame number of the entry to \<open>pmem_free\<close>, not the frame's address:
  what it frees is the physical address \<open>n\<close>, where the page mapped stands at \<open>n << 12\<close>. The
  translation itself is removed when the eight bytes written there miss every table.
\<close>

lemma vm_unmap_mapped:
  assumes inv: "vm_inv s root ps" and low: "lower_half va" and leaf: "leaf_of s root va = Some e"
    and n: "n = (ucast (pte_address e) :: u64)"
    and miss: "\<And>t y i. t \<in> tables_of s root \<Longrightarrow> y < 0x1000 \<Longrightarrow> i < 8 \<Longrightarrow> t + y \<noteq> n + of_nat i"
  shows "\<exists>s'. vm_unmap root va s = Some (True, s') \<and> tables_of s' root = tables_of s root \<and>
    (\<forall>va'. lower_half va' \<longrightarrow> leaf_of s' root va' = (if same_page va va' then None else leaf_of s root va')) \<and>
    freelist s' = n + hhdm_base s \<and>
    (n + hhdm_base s \<noteq> 0 \<longrightarrow> (\<exists>s''. pmem_alloc s' = Some (n, s''))) \<and>
    pt_open (mem s') (hhdm_base s') root \<and> cr3 s' = cr3 s \<and> hhdm_base s' = hhdm_base s"
proof -
  note D = vm_invD [OF inv]
  obtain T where T: "pt_base (mem s) (hhdm_base s) root va 3 = Some T"
    and e: "get_pte (mem s) (T + hhdm_base s) (depth_index va 3) = e" "pte_present e"
    using leaf by (rule leaf_someD)
  have Tt: "T \<in> tables_of s root" using pt_tables_I [OF low _ T] by simp
  define s1 where "s1 = pmem_free n s"
  have h1: "hhdm_base s1 = hhdm_base s" by (simp add: s1_def pmem_free_def Let_def)
  have same: "page_same (mem s) (mem s1) (t + hhdm_base s)" if "t \<in> tables_of s root" for t
    unfolding page_same_def s1_def pmem_free_def Let_def
  proof (intro allI impI)
    fix y :: u64 assume y: "y < 0x1000"
    show "mem (s\<lparr>mem := store64 (mem s) (n + hhdm_base s) (freelist s), freelist := n + hhdm_base s,
        free_page_counter := free_page_counter (s\<lparr>mem := store64 (mem s) (n + hhdm_base s) (freelist s),
          freelist := n + hhdm_base s\<rparr>) + 1\<rparr>) (t + hhdm_base s + y) = mem s (t + hhdm_base s + y)"
    proof (simp, rule store64_other_byte)
      fix i :: nat assume "i < 8"
      then show "t + hhdm_base s + y \<noteq> n + hhdm_base s + of_nat i"
        using miss [OF that y] by (simp add: algebra_simps)
    qed
  qed
  then have U: "pt_wf (mem s1) (hhdm_base s) root" "pt_tables (mem s1) (hhdm_base s) root = tables_of s root"
    "lower_half va' \<Longrightarrow> pt_leaf (mem s1) (hhdm_base s) root va' = leaf_of s root va'"
    "pt_open (mem s1) (hhdm_base s) root" for va'
    using tables_untouched [OF D(2,3)] by blast+
  have T1: "pt_base (mem s1) (hhdm_base s) root va 3 = Some T"
    using pt_base_page_same [OF D(2) same low, of 3] T by simp
  have e1: "get_pte (mem s1) (T + hhdm_base s) (depth_index va 3) = e"
    using get_pte_page_same [OF same [OF Tt], of "depth_index va 3"] e by simp
  define s2 where "s2 = upd_pte (T + hhdm_base s) (depth_index va 3) (\<lambda>e. e\<lparr>pte_present := False\<rparr>) s1"
  have run: "vm_unmap root va s = Some (True, invalidate_tlb va s2)"
    using T leaf e vm_unmap_loop.simps(2) [of 0 va "T + hhdm_base s" s]
    by (simp add: vm_unmap_walk Let_def s2_def s1_def depth_index_3 n)
  have m2: "mem s2 = set_pte (mem s1) (T + hhdm_base s) (depth_index va 3) (e\<lparr>pte_present := False\<rparr>)"
    by (simp add: s2_def upd_pte_def e1)
  note L = set_leaf [OF U(1) low T1 m2]
  have leaves: "leaf_of s2 root va' = (if same_page va va' then None else leaf_of s root va')"
    if "lower_half va'" for va'
    using leaf_update [OF U(1) L(1) that] L(2) U(3) [OF that] by (simp add: s2_def h1 Let_def)
  have free: "freelist (invalidate_tlb va s2) = n + hhdm_base s"
    by (simp add: s2_def s1_def upd_pte_def invalidate_tlb_def pmem_free_def Let_def)
  have h: "hhdm_base (invalidate_tlb va s2) = hhdm_base s" by (simp add: s2_def h1)
  have c: "cr3 (invalidate_tlb va s2) = cr3 s"
    by (simp add: s2_def s1_def upd_pte_def invalidate_tlb_def pmem_free_def Let_def)
  have "pt_open (mem (invalidate_tlb va s2)) (hhdm_base (invalidate_tlb va s2)) root"
    using leaf_open [OF U(1) L(1) U(4)] unfolding h by simp
  then show ?thesis
    using run leaves free h c leaf_tables [OF U(1) L(1)] U(2) pmem_alloc_Cons [of "invalidate_tlb va s2"]
    by (simp add: s2_def h1)
qed

section \<open>Well-formed states exist\<close>

lemma empty_root:
  assumes "aligned 12 h" "aligned 12 root"
    and empty: "\<And>va. lower_half va \<Longrightarrow> \<not> pte_present (get_pte m (root + h) (depth_index va 0))"
  shows "pt_wf m h root" "pt_open m h root" "pt_tables m h root = {root}"
    "lower_half va \<Longrightarrow> pt_leaf m h root va = None" "lower_half va \<Longrightarrow> pt_missing m h root va = 4"
proof -
  have 1: "pt_base m h root va (Suc 0) = None" if "lower_half va" for va
    using empty [OF that] by simp
  have base: "d = 0 \<and> t = root" if "lower_half va" "pt_base m h root va d = Some t" for va d t
    using pt_base_None_mono [OF 1 [OF that(1)], of d] that(2) by (cases d) auto
  show "pt_wf m h root"
    using assms base unfolding pt_wf_def no_share_def by (metis agree_0)
  show "pt_open m h root"
    using base empty unfolding pt_open_def by blast
  show "pt_tables m h root = {root}"
    using base root_in_tables [of root m h] by (auto simp: pt_tables_def)
  show "pt_leaf m h root va = None" if "lower_half va"
    using leaf_None [OF 1 [OF that]] by simp
  show "pt_missing m h root va = 4" if "lower_half va"
    using missing_at [of m h root va 0 root] empty [OF that] by simp
qed

lemma vm_inv_free:
  assumes inv: "vm_inv s root ps" and p: "page_ok s p" "p \<notin> set ps" "p \<notin> tables_of s root" "p \<noteq> 0" "p \<noteq> VGA_BUFFER"
  shows "vm_inv (pmem_free p s) root (p # ps)" "tables_of (pmem_free p s) root = tables_of s root"
    "lower_half va \<Longrightarrow> leaf_of (pmem_free p s) root va = leaf_of s root va"
proof -
  note D = vm_invD [OF inv]
  have h: "hhdm_base (pmem_free p s) = hhdm_base s" "term_ptr (pmem_free p s) = term_ptr s"
    "term_inv (pmem_free p s) = term_inv s"
    by (simp_all add: pmem_free_def Let_def term_inv_def)
  have "page_same (mem s) (mem (pmem_free p s)) (t + hhdm_base s)" if "t \<in> tables_of s root" for t
    using that p D(10) pt_tables_aligned [OF D(2) that]
    by (intro pmem_free_page_same) (auto intro: aligned_add)
  then have U: "pt_wf (mem (pmem_free p s)) (hhdm_base s) root" "pt_open (mem (pmem_free p s)) (hhdm_base s) root"
    "pt_tables (mem (pmem_free p s)) (hhdm_base s) root = tables_of s root"
    "lower_half va \<Longrightarrow> pt_leaf (mem (pmem_free p s)) (hhdm_base s) root va = leaf_of s root va" for va
    using tables_untouched [OF D(2,3)] by blast+
  show "vm_inv (pmem_free p s) root (p # ps)"
    using D U p pmem_rep_free [OF D(1) p(1,2)] by (simp add: vm_inv_def h)
  show "tables_of (pmem_free p s) root = tables_of s root"
    "lower_half va \<Longrightarrow> leaf_of (pmem_free p s) root va = leaf_of s root va"
    using U(3,4) by (simp_all add: h)
qed

text \<open>A small machine: an empty root table at 0x1000 and \<open>n\<close> free pages from 0x2000 on.\<close>

definition small_machine :: kmem where
  "small_machine = \<lparr>mem = (\<lambda>_. 0), cr0 = 0, cr3 = 0x1000, hhdm_base = 0xFFFF800000000000, cpu_events = [],
     io_trace = [], devices = (\<lambda>_ _. 0), term_ptr = 0xFFFF8000000B8000, term_col = 0, term_row = 0,
     freelist = 0, free_page_counter = 0\<rparr>"

primrec with_pages :: "u64 list \<Rightarrow> kmem" where
  "with_pages [] = small_machine"
| "with_pages (p # ps) = pmem_free p (with_pages ps)"

lemma word_aligned_12: "aligned 12 (a :: u64) \<longleftrightarrow> unat a mod 4096 = 0"
  by (simp add: aligned_def take_bit_eq_mod word_unat_eq_iff unat_mod)

lemma small_machine_inv:
  "vm_inv small_machine 0x1000 []" "tables_of small_machine 0x1000 = {0x1000}"
  "lower_half va \<Longrightarrow> leaf_of small_machine 0x1000 va = None"
proof -
  have "get_pte (\<lambda>_. 0) t j = pte_of_word 0" if "j < 512" for t j
    using that by (rule get_pte_zero [rotated]) (simp add: page_zero_def)
  then have "\<not> pte_present (get_pte (\<lambda>_. 0) (0x1000 + hhdm_base small_machine) (depth_index va 0))" for va
    by (simp add: pte_of_word_def)
  moreover have "aligned 12 (hhdm_base small_machine)" "aligned 12 (0x1000 :: u64)"
    by (simp_all add: word_aligned_12 small_machine_def)
  ultimately have E: "pt_wf (mem small_machine) (hhdm_base small_machine) 0x1000"
    "pt_open (mem small_machine) (hhdm_base small_machine) 0x1000" "tables_of small_machine 0x1000 = {0x1000}"
    "lower_half va \<Longrightarrow> leaf_of small_machine 0x1000 va = None" for va
    using empty_root [of "hhdm_base small_machine" "0x1000" "mem small_machine"]
    by (simp_all add: small_machine_def)
  show "tables_of small_machine 0x1000 = {0x1000}" by (rule E(3))
  show "vm_inv small_machine 0x1000 []"
    using E(1-3) by (simp add: vm_inv_def pmem_rep_def small_machine_def term_inv_def)
  show "lower_half va \<Longrightarrow> leaf_of small_machine 0x1000 va = None" by (rule E(4))
qed

lemma with_pages_frame:
  "hhdm_base (with_pages ps) = 0xFFFF800000000000" "cr3 (with_pages ps) = 0x1000" "cr0 (with_pages ps) = 0"
  by (induction ps) (simp_all add: small_machine_def pmem_free_def Let_def)

definition pages_ok :: "u64 list \<Rightarrow> bool" where
  "pages_ok ps \<longleftrightarrow> distinct ps \<and> (\<forall>p \<in> set ps. unat p mod 4096 = 0 \<and> p < 2 ^ 47 \<and> p \<notin> {0, 0x1000, VGA_BUFFER})"

lemma with_pages_inv:
  assumes "pages_ok ps"
  shows "vm_inv (with_pages ps) 0x1000 ps \<and> tables_of (with_pages ps) 0x1000 = {0x1000} \<and>
    (\<forall>va. lower_half va \<longrightarrow> leaf_of (with_pages ps) 0x1000 va = None)"
  using assms
proof (induction ps)
  case Nil
  then show ?case using small_machine_inv by simp
next
  case (Cons p ps)
  have IH: "vm_inv (with_pages ps) 0x1000 ps" "tables_of (with_pages ps) 0x1000 = {0x1000}"
    "\<And>va. lower_half va \<Longrightarrow> leaf_of (with_pages ps) 0x1000 va = None"
    using Cons by (simp_all add: pages_ok_def)
  have p: "unat p mod 4096 = 0" "p < 2 ^ 47" "p \<notin> {0, 0x1000, VGA_BUFFER}" "p \<notin> set ps"
    using Cons.prems by (simp_all add: pages_ok_def)
  have "p + 0xFFFF800000000000 \<noteq> 0"
    using p(2) by (auto simp: word_less_nat_alt word_unat_eq_iff unat_word_ariths)
  then have ok: "page_ok (with_pages ps) p"
    using p(1,2) by (simp add: page_ok_def with_pages_frame word_aligned_12 word_less_nat_alt)
  have "p \<notin> tables_of (with_pages ps) 0x1000" "p \<noteq> 0" "p \<noteq> VGA_BUFFER" using p(3) IH(2) by auto
  note F = vm_inv_free [OF IH(1) ok p(4) this]
  show ?case using F IH(2,3) by simp
qed

lemma with_pages_empty:
  assumes "pages_ok ps" "lower_half va"
  shows "missing_of (with_pages ps) 0x1000 va = 4"
proof -
  have W: "tables_of (with_pages ps) 0x1000 = {0x1000}" "aligned 12 (hhdm_base (with_pages ps))"
    "vm_inv (with_pages ps) 0x1000 ps"
    using with_pages_inv [OF assms(1)] vm_invD(10) by blast+
  have "\<not> pte_present (get_pte (mem (with_pages ps)) (0x1000 + hhdm_base (with_pages ps)) (depth_index va 0))"
  proof
    assume "pte_present (get_pte (mem (with_pages ps)) (0x1000 + hhdm_base (with_pages ps)) (depth_index va 0))"
    then obtain t where t: "pt_base (mem (with_pages ps)) (hhdm_base (with_pages ps)) 0x1000 va (Suc 0) = Some t"
      by simp
    then have "t \<in> tables_of (with_pages ps) 0x1000" by (intro pt_tables_I [OF assms(2) _ t]) simp
    then have "pt_base (mem (with_pages ps)) (hhdm_base (with_pages ps)) 0x1000 va (Suc 0) = Some 0x1000"
      using t W(1) by simp
    then show False
      using no_shareD(1) [OF vm_invD(2) [OF W(3)] assms(2) assms(2), of 1 0 "0x1000"] by simp
  qed
  then show ?thesis using missing_at [of _ _ _ va 0] by simp
qed

text \<open>The same machine once it has mapped the page at which user programs are linked.\<close>

abbreviation user_base :: u64 where "user_base \<equiv> 0x500000000"

definition mapped_machine :: kmem where
  "mapped_machine = snd (the (vm_map 0x1000 user_base True True False (with_pages [0x2000, 0x3000, 0x4000, 0x5000])))"

lemma user_base_lower: "lower_half user_base"
  by (simp add: lower_half_def drop_bit_eq_div word_unat_eq_iff)

lemma four_pages_ok: "pages_ok [0x2000, 0x3000, 0x4000, 0x5000]"
  by (simp add: pages_ok_def)

lemma mapped_machine_facts:
  "vm_mapped 0x1000 user_base True True False [0x2000, 0x3000, 0x4000, 0x5000] 4
     (with_pages [0x2000, 0x3000, 0x4000, 0x5000]) mapped_machine"
proof -
  have W: "vm_inv (with_pages [0x2000, 0x3000, 0x4000, 0x5000]) 0x1000 [0x2000, 0x3000, 0x4000, 0x5000]"
    "leaf_of (with_pages [0x2000, 0x3000, 0x4000, 0x5000]) 0x1000 user_base = None"
    using with_pages_inv [OF four_pages_ok] user_base_lower by blast+
  have m: "missing_of (with_pages [0x2000, 0x3000, 0x4000, 0x5000]) 0x1000 user_base = 4"
    by (rule with_pages_empty [OF four_pages_ok user_base_lower])
  have "missing_of (with_pages [0x2000, 0x3000, 0x4000, 0x5000]) 0x1000 user_base
      \<le> length [0x2000, 0x3000, 0x4000, 0x5000 :: u64]" by (simp only: m) simp
  then obtain s' where "vm_map 0x1000 user_base True True False (with_pages [0x2000, 0x3000, 0x4000, 0x5000]) = Some (True, s')"
    "vm_mapped 0x1000 user_base True True False [0x2000, 0x3000, 0x4000, 0x5000]
      (missing_of (with_pages [0x2000, 0x3000, 0x4000, 0x5000]) 0x1000 user_base)
      (with_pages [0x2000, 0x3000, 0x4000, 0x5000]) s'"
    using vm_map_spec [OF W(1) user_base_lower, where u = True and w = True and x = False] W(2) by blast
  then show ?thesis by (simp only: m mapped_machine_def option.sel snd_conv)
qed

lemma mapped_machine_inv:
  "vm_inv mapped_machine 0x1000 []" "tables_of mapped_machine 0x1000 = {0x1000, 0x2000, 0x3000, 0x4000}"
  "\<exists>e. leaf_of mapped_machine 0x1000 user_base = Some e \<and> pte_frame e = 0x5000"
  "hhdm_base mapped_machine = 0xFFFF800000000000"
proof -
  note M = mapped_machine_facts [unfolded vm_mapped_def]
  have t: "tables_of (with_pages [0x2000, 0x3000, 0x4000, 0x5000]) 0x1000 = {0x1000}"
    using with_pages_inv [OF four_pages_ok] by blast
  have n: "drop 4 [0x2000, 0x3000, 0x4000, 0x5000 :: u64] = []"
    "take (4 - 1) [0x2000, 0x3000, 0x4000, 0x5000 :: u64] = [0x2000, 0x3000, 0x4000]"
    "[0x2000, 0x3000, 0x4000, 0x5000 :: u64] ! (4 - 1) = 0x5000"
    by (simp_all add: numeral_eq_Suc)
  show "vm_inv mapped_machine 0x1000 []" using M n(1) by metis
  show "tables_of mapped_machine 0x1000 = {0x1000, 0x2000, 0x3000, 0x4000}"
    using M unfolding n(2) t by auto
  show "\<exists>e. leaf_of mapped_machine 0x1000 user_base = Some e \<and> pte_frame e = 0x5000"
    using M unfolding n(3) by auto
  show "hhdm_base mapped_machine = 0xFFFF800000000000"
    using M by (simp add: same_cpu_def with_pages_frame del: with_pages.simps)
qed

section \<open>Properties\<close>

text \<open>C1: on an unmapped lower-half page, with as many free pages as tables and page are
  missing, \<open>vm_map\<close> succeeds; the processor, with \<open>root\<close> in CR3, then translates the address
  to the last page taken, with exactly the permissions asked for; that page is zero, no other
  lower-half page translates differently, no page of memory changes except the tables and
  the pages taken, and the address space stays well-formed.\<close>

theorem vm_map_correct:
  assumes "vm_inv s root ps" "lower_half va" "leaf_of s root va = None"
    and "missing_of s root va = n" "n \<le> length ps" "cr3 s AND 0x000FFFFFFFFFF000 = root"
  shows "\<exists>s'. vm_map root va u w x s = Some (True, s') \<and> vm_inv s' root (drop n ps) \<and>
    mmu_translate s' va = Some \<lparr>tr_phys = ps ! (n - 1) + (va AND 0xFFF), tr_user = u, tr_writable = w, tr_executable = x\<rparr> \<and>
    page_zero (mem s') (ps ! (n - 1) + hhdm_base s') \<and>
    (\<forall>va'. lower_half va' \<and> \<not> same_page va va' \<longrightarrow> mmu_translate s' va' = mmu_translate s va') \<and>
    (\<forall>a. aligned 12 a \<and> a \<notin> tables_of s root \<and> a \<notin> set (take n ps) \<longrightarrow>
       page_same (mem s) (mem s') (a + hhdm_base s))"
proof -
  obtain s' where s': "vm_map root va u w x s = Some (True, s')" "vm_mapped root va u w x ps n s s'"
    using vm_map_spec [OF assms(1,2), where u = u and w = w and x = x] assms(3-5) by auto
  note M = s'(2) [unfolded vm_mapped_def]
  have cpu: "cr3 s' = cr3 s" "hhdm_base s' = hhdm_base s" using M by (simp_all add: same_cpu_def)
  have open': "pt_open (mem s') (hhdm_base s') root" "pt_open (mem s) (hhdm_base s) root"
    using M assms(1) by (auto simp: vm_inv_def)
  have tr: "mmu_translate s' va' = map_option (\<lambda>e. \<lparr>tr_phys = pte_frame e + (va' AND 0xFFF), tr_user = pte_user e,
      tr_writable = pte_writable e, tr_executable = \<not> pte_no_execute e\<rparr>) (leaf_of s' root va')"
    "mmu_translate s va' = map_option (\<lambda>e. \<lparr>tr_phys = pte_frame e + (va' AND 0xFFF), tr_user = pte_user e,
      tr_writable = pte_writable e, tr_executable = \<not> pte_no_execute e\<rparr>) (leaf_of s root va')"
    if "lower_half va'" for va'
    using mmu_leaf [OF open'(1) that] mmu_leaf [OF open'(2) that] assms(6)
    by (simp_all add: mmu_translate_def cpu)
  show ?thesis
    using s'(1) M assms(2) by (auto simp: tr cpu)
qed

text \<open>C10: \<open>vm_map\<close> of a page that is already mapped fails and changes nothing at all.\<close>

theorem vm_map_refuses:
  assumes "vm_inv s root ps" "lower_half va" "leaf_of s root va = Some e"
  shows "vm_map root va u w x s = Some (False, s)"
  using vm_map_spec [OF assms(1,2), where u = u and w = w and x = x] assms(3) by blast

text \<open>C9: with too few free pages \<open>vm_map\<close> returns false: no translation changes, all
  pages that were free have become tables of the address space, and it stays well-formed.\<close>

theorem vm_map_exhausts:
  assumes "vm_inv s root ps" "lower_half va" "leaf_of s root va = None" "length ps < missing_of s root va"
  shows "\<exists>s'. vm_map root va u w x s = Some (False, s') \<and> vm_inv s' root [] \<and>
    tables_of s' root = tables_of s root \<union> set ps \<and>
    (\<forall>va'. lower_half va' \<longrightarrow> leaf_of s' root va' = leaf_of s root va')"
  using vm_map_spec [OF assms(1,2), where u = u and w = w and x = x] assms(3,4)
  unfolding vm_exhausted_def by blast

text \<open>C2: \<open>vm_protect\<close> of a mapped page succeeds and replaces its three permissions, and
  nothing else: the frame and the other bits of the entry, every other lower-half page, the
  free list and all memory outside the tables stay the same. On an unmapped page it fails
  and changes nothing.\<close>

theorem vm_protect_correct:
  assumes "vm_inv s root ps" "lower_half va"
  shows "(leaf_of s root va = None \<longrightarrow> vm_protect root va u w x s = Some (False, s)) \<and>
    (\<forall>e. leaf_of s root va = Some e \<longrightarrow>
      (\<exists>s'. vm_protect root va u w x s = Some (True, s') \<and> vm_inv s' root ps \<and>
        (\<forall>va'. lower_half va' \<longrightarrow> leaf_of s' root va' =
           (if same_page va va' then Some (e\<lparr>pte_no_execute := \<not> x, pte_user := u, pte_writable := w\<rparr>)
            else leaf_of s root va')) \<and>
        (\<forall>a. aligned 12 a \<and> a \<notin> tables_of s root \<longrightarrow> page_same (mem s) (mem s') (a + hhdm_base s))))"
  using vm_protect_mapped [OF assms, where u = u and w = w and x = x] vm_protect_unmapped by blast

text \<open>C11: \<open>vm_unmap\<close> of a mapped page removes its translation and no other, as long as the
  eight bytes at physical address \<open>n\<close> lie in no table, where \<open>n\<close> is the frame number in the
  entry; but what it puts on the free list, and what the next allocation returns, is \<open>n\<close>
  itself and not the page's address \<open>n << 12\<close>.\<close>

theorem vm_unmap_frees_frame_number:
  assumes "vm_inv s root ps" "lower_half va" "leaf_of s root va = Some e" "n = (ucast (pte_address e) :: u64)"
    and "n + hhdm_base s \<noteq> 0"
    and "\<And>t y i. t \<in> tables_of s root \<Longrightarrow> y < 0x1000 \<Longrightarrow> i < 8 \<Longrightarrow> t + y \<noteq> n + of_nat i"
  shows "\<exists>s' s''. vm_unmap root va s = Some (True, s') \<and> pmem_alloc s' = Some (n, s'') \<and>
    pte_frame e = push_bit 12 n \<and>
    (\<forall>va'. lower_half va' \<longrightarrow> leaf_of s' root va' = (if same_page va va' then None else leaf_of s root va'))"
  using vm_unmap_mapped [OF assms(1-4) assms(6)] assms(4,5) by (auto simp: pte_frame_def)

text \<open>C17: mapping a page and unmapping it again is a round trip for every translation: the page
  is translated in between, and afterwards the processor translates every lower-half address
  as before both calls. The eight bytes at the frame number that \<open>vm_unmap\<close> frees by mistake
  must lie in no table.\<close>

theorem vm_map_unmap_roundtrip:
  assumes "vm_inv s root ps" "lower_half va" "leaf_of s root va = None"
    and "missing_of s root va = n" "n \<le> length ps" "cr3 s AND 0x000FFFFFFFFFF000 = root"
    and "\<And>t y i. t \<in> tables_of s root \<union> set (take (n - 1) ps) \<Longrightarrow> y < 0x1000 \<Longrightarrow> i < 8 \<Longrightarrow>
      t + y \<noteq> drop_bit 12 (ps ! (n - 1)) + of_nat i"
  shows "\<exists>s1 s2. vm_map root va u w x s = Some (True, s1) \<and> mmu_translate s1 va \<noteq> None \<and>
    vm_unmap root va s1 = Some (True, s2) \<and> (\<forall>va'. lower_half va' \<longrightarrow> mmu_translate s2 va' = mmu_translate s va')"
proof -
  obtain s1 where s1: "vm_map root va u w x s = Some (True, s1)" "vm_mapped root va u w x ps n s s1"
    using vm_map_spec [OF assms(1,2), where u = u and w = w and x = x] assms(3-5) by auto
  note M = s1(2) [unfolded vm_mapped_def]
  obtain e where e: "leaf_of s1 root va = Some e" "pte_frame e = ps ! (n - 1)" using M by blast
  have inv: "vm_inv s1 root (drop n ps)" using M by blast
  have k: "drop_bit 12 (ps ! (n - 1)) = (ucast (pte_address e) :: u64)"
    unfolding e(2) [symmetric] pte_frame_def by (rule bit_word_eqI) (auto simp: bit_simps dest: bit_imp_le_length)
  have "t + y \<noteq> ucast (pte_address e) + of_nat i" if "t \<in> tables_of s1 root" "y < 0x1000" "i < 8" for t y i
    using assms(7) [of t y i] that M unfolding k by auto
  then obtain s2 where s2: "vm_unmap root va s1 = Some (True, s2)" "pt_open (mem s2) (hhdm_base s2) root"
    "cr3 s2 = cr3 s1" "hhdm_base s2 = hhdm_base s1"
    "\<forall>va'. lower_half va' \<longrightarrow> leaf_of s2 root va' = (if same_page va va' then None else leaf_of s1 root va')"
    using vm_unmap_mapped [OF inv assms(2) e(1) refl] by blast
  have c: "cr3 s1 = cr3 s" "hhdm_base s1 = hhdm_base s" using M by (simp_all add: same_cpu_def)
  note tr = mmu_leaf [OF vm_invD(3) [OF assms(1)]] mmu_leaf [OF vm_invD(3) [OF inv]] mmu_leaf [OF s2(2)]
  have "mmu_translate s2 va' = mmu_translate s va'" if low: "lower_half va'" for va'
  proof -
    have "leaf_of s2 root va' = leaf_of s root va'"
      using s2(5) low M assms(3) leaf_same_page [of va va' "mem s" "hhdm_base s" root] by auto
    then show ?thesis using tr(1,3) [OF low] by (simp add: mmu_translate_def s2(3,4) c assms(6))
  qed
  moreover have "mmu_translate s1 va \<noteq> None" using tr(2) [OF assms(2)] e(1) by (simp add: mmu_translate_def c assms(6))
  ultimately show ?thesis using s1(1) s2(1) by blast
qed

theorem vm_map_unmap_roundtrip_witness:
  "\<exists>s1 s2. vm_map 0x1000 user_base True False True (with_pages [0x2000, 0x3000, 0x4000, 0x5000]) = Some (True, s1) \<and>
    mmu_translate s1 user_base \<noteq> None \<and> vm_unmap 0x1000 user_base s1 = Some (True, s2) \<and> mmu_translate s2 user_base = None"
proof -
  let ?ps = "[0x2000, 0x3000, 0x4000, 0x5000 :: u64]" and ?s = "with_pages [0x2000, 0x3000, 0x4000, 0x5000]"
  have W: "vm_inv ?s 0x1000 ?ps" "leaf_of ?s 0x1000 user_base = None" "tables_of ?s 0x1000 = {0x1000}"
    using with_pages_inv [OF four_pages_ok] user_base_lower by blast+
  have n: "?ps ! (4 - 1) = 0x5000" "4 \<le> length ?ps" "take (4 - 1) ?ps = [0x2000, 0x3000, 0x4000]"
    by (simp_all add: numeral_eq_Suc)
  have c: "cr3 ?s AND 0x000FFFFFFFFFF000 = 0x1000" by (simp only: with_pages_frame) simp
  have miss: "t + y \<noteq> drop_bit 12 (?ps ! (4 - 1)) + of_nat i"
    if "t \<in> tables_of ?s 0x1000 \<union> set (take (4 - 1) ?ps)" "y < 0x1000" "i < 8" for t y i
  proof -
    have five: "drop_bit 12 (?ps ! (4 - 1)) = 5" unfolding n by (simp add: drop_bit_eq_div word_unat_eq_iff)
    have "unat (5 + of_nat i :: u64) < 0x1000" using that(3) by (simp add: unat_word_ariths unat_of_nat)
    moreover have "unat (t + y) \<ge> 0x1000"
      using that(1,2) unfolding n W(3) by (auto simp: unat_word_ariths word_less_nat_alt)
    ultimately show ?thesis unfolding five by auto
  qed
  have none: "mmu_translate ?s user_base = None"
    using mmu_leaf [OF vm_invD(3) [OF W(1)] user_base_lower] W(2) c by (simp add: mmu_translate_def)
  from vm_map_unmap_roundtrip [OF W(1) user_base_lower W(2) with_pages_empty [OF four_pages_ok user_base_lower] n(2) c miss,
      where u = True and w = False and x = True]
  show ?thesis using none user_base_lower by auto
qed

theorem vm_map_correct_witness:
  "\<exists>s'. vm_map 0x1000 user_base True False True (with_pages [0x2000, 0x3000, 0x4000, 0x5000]) = Some (True, s') \<and>
    vm_inv s' 0x1000 [] \<and>
    mmu_translate s' user_base =
      Some \<lparr>tr_phys = 0x5000, tr_user = True, tr_writable = False, tr_executable = True\<rparr>"
proof -
  let ?ps = "[0x2000, 0x3000, 0x4000, 0x5000 :: u64]"
  have W: "vm_inv (with_pages ?ps) 0x1000 ?ps" "leaf_of (with_pages ?ps) 0x1000 user_base = None"
    using with_pages_inv [OF four_pages_ok] user_base_lower by blast+
  have n: "drop 4 ?ps = []" "?ps ! (4 - 1) = 0x5000" "4 \<le> length ?ps" by (simp_all add: numeral_eq_Suc)
  have c: "cr3 (with_pages ?ps) AND 0x000FFFFFFFFFF000 = 0x1000" by (simp only: with_pages_frame) simp
  have o: "(0x5000 :: u64) + (user_base AND 0xFFF) = 0x5000" by simp
  note V = vm_map_correct [OF W(1) user_base_lower W(2) with_pages_empty [OF four_pages_ok user_base_lower] n(3) c,
      where u = True and w = False and x = True]
  show ?thesis using V unfolding n(1,2) o by blast
qed

theorem vm_map_refuses_witness:
  "vm_map 0x1000 user_base True True True mapped_machine = Some (False, mapped_machine)"
  using vm_map_refuses [OF mapped_machine_inv(1) user_base_lower] mapped_machine_inv(3) by blast

theorem vm_map_exhausts_witness:
  "\<exists>s'. vm_map 0x1000 user_base True True True (with_pages [0x2000]) = Some (False, s') \<and>
    vm_inv s' 0x1000 [] \<and> tables_of s' 0x1000 = {0x1000, 0x2000}"
proof -
  have ok: "pages_ok [0x2000]" by (simp add: pages_ok_def)
  have W: "vm_inv (with_pages [0x2000]) 0x1000 [0x2000]" "leaf_of (with_pages [0x2000]) 0x1000 user_base = None"
    "tables_of (with_pages [0x2000]) 0x1000 = {0x1000}"
    using with_pages_inv [OF ok] user_base_lower by blast+
  have "length [0x2000 :: u64] < missing_of (with_pages [0x2000]) 0x1000 user_base"
    by (simp only: with_pages_empty [OF ok user_base_lower]) simp
  from vm_map_exhausts [OF W(1) user_base_lower W(2) this, where u = True and w = True and x = True]
  show ?thesis unfolding W(3) by auto
qed

theorem vm_protect_correct_witness:
  "\<exists>s' e. vm_protect 0x1000 user_base True False True mapped_machine = Some (True, s') \<and>
    leaf_of s' 0x1000 user_base = Some e \<and> pte_frame e = 0x5000 \<and> \<not> pte_writable e \<and> \<not> pte_no_execute e"
proof -
  obtain e where e: "leaf_of mapped_machine 0x1000 user_base = Some e" "pte_frame e = 0x5000"
    using mapped_machine_inv(3) by blast
  from vm_protect_correct [OF mapped_machine_inv(1) user_base_lower, of True False True]
  show ?thesis using e user_base_lower by (fastforce simp: same_page_def pte_frame_def)
qed

theorem vm_unmap_frees_frame_number_witness:
  "\<exists>s' s''. vm_unmap 0x1000 user_base mapped_machine = Some (True, s') \<and> pmem_alloc s' = Some (5, s'') \<and>
    leaf_of s' 0x1000 user_base = None"
proof -
  obtain e where e: "leaf_of mapped_machine 0x1000 user_base = Some e" "pte_frame e = 0x5000"
    using mapped_machine_inv(3) by blast
  have n: "(ucast (pte_address e) :: u64) = 5"
  proof -
    have lt: "(ucast (pte_address e) :: u64) < 2 ^ 40"
      using unsigned_less [of "pte_address e", where 'a = nat] by (simp add: word_less_nat_alt unsigned_ucast_eq take_bit_nat_eq_self)
    have "drop_bit 12 (pte_frame e) = (5 :: u64)" by (simp add: e(2) drop_bit_eq_div word_unat_eq_iff)
    moreover have "drop_bit 12 (push_bit 12 x) = x" if "x < 2 ^ 40" for x :: u64
      using that by (simp add: drop_bit_eq_div push_bit_eq_mult word_unat_eq_iff unat_div unat_word_ariths word_less_nat_alt)
    ultimately show ?thesis using lt by (simp add: pte_frame_def)
  qed
  have miss: "t + y \<noteq> 5 + of_nat i"
    if "t \<in> tables_of mapped_machine 0x1000" "y < 0x1000" "i < 8" for t y i
  proof -
    have "unat (5 + of_nat i :: u64) < 0x1000" using that(3) by (simp add: unat_word_ariths unat_of_nat)
    moreover have "unat (t + y) \<ge> 0x1000"
      using that(1,2) by (auto simp: mapped_machine_inv(2) unat_word_ariths word_less_nat_alt)
    ultimately show ?thesis by auto
  qed
  have "5 + hhdm_base mapped_machine \<noteq> 0" by (simp add: mapped_machine_inv(4))
  from vm_unmap_frees_frame_number [OF mapped_machine_inv(1) user_base_lower e(1) n [symmetric] this miss]
  show ?thesis using user_base_lower by (auto simp: same_page_def)
qed

end
