(* ===== verification/Stivale.thy ===== *)
theory Stivale
  imports VirtMem
begin

text \<open>
  The bootloader's information (\<open>kernel/mem.c\<close>, structures of \<open>kernel/stivale2.h\<close>): a
  linked list of tags behind the pointer \<open>hdr\<close>, read through the processor's translation,
  so a NULL pointer faults unless page 0 is mapped. \<open>find_tag\<close> walks the list and need not
  end on a cyclic one, so it is a partial function; the theorem says what it returns on a
  list that ends.
\<close>

record boot = kmem +
  hdr :: u64

section \<open>Reads through the translation\<close>

fun vload :: "'a machine_scheme \<Rightarrow> u64 \<Rightarrow> nat \<Rightarrow> u64 option" where
  "vload s a 0 = Some 0"
| "vload s a (Suc n) =
     do { b \<leftarrow> vread s a; r \<leftarrow> vload s (a + 1) n; Some (ucast b OR push_bit 8 r) }"

lemma vread_upper [simp]: "upper_half a \<Longrightarrow> vread s a = Some (mem s a)"
  by (simp add: vread_def vaddr_def)

lemma vload_upper:
  "(\<And>i. i < n \<Longrightarrow> upper_half (a + of_nat i)) \<Longrightarrow> vload s a n = Some (load_bytes (mem s) a n)"
proof (induction n arbitrary: a)
  case (Suc n)
  have "vload s (a + 1) n = Some (load_bytes (mem s) (a + 1) n)"
    by (rule Suc.IH) (use Suc.prems [of "Suc _"] in \<open>simp add: add.assoc\<close>)
  then show ?case using Suc.prems [of 0] by simp
qed simp

lemma upper_half_iff: "upper_half a \<longleftrightarrow> 0xFFFF800000000000 \<le> a"
proof -
  have "drop_bit 47 a = 0x1FFFF \<longleftrightarrow> unat a div 2 ^ 47 = 0x1FFFF"
    by (simp add: drop_bit_eq_div word_unat_eq_iff unat_div)
  also have "\<dots> \<longleftrightarrow> 0xFFFF800000000000 \<le> unat a"
    using unsigned_less [of a, where 'a = nat] by auto
  finally show ?thesis by (simp add: upper_half_def word_le_nat_alt)
qed

lemma upper_half_add:
  "0xFFFF800000000000 \<le> a \<Longrightarrow> a \<le> 0xFFFFFFFFFFFFF000 \<Longrightarrow> i < 0x1000 \<Longrightarrow> upper_half (a + of_nat i)"
  by (simp add: upper_half_iff word_le_nat_alt unat_word_ariths unat_of_nat)

lemma vload8_upper:
  "0xFFFF800000000000 \<le> a \<Longrightarrow> a \<le> 0xFFFFFFFFFFFFF000 \<Longrightarrow> vload s a 8 = Some (load64 (mem s) a)"
  unfolding load64_def by (rule vload_upper) (simp add: upper_half_add)

text \<open>The offsets of \<open>struct stivale2_struct\<close> and of the tags used.\<close>

abbreviation HDR_TAGS :: u64 where "HDR_TAGS \<equiv> 128"
abbreviation TAG_NEXT :: u64 where "TAG_NEXT \<equiv> 8"
abbreviation TAG_BODY :: u64 where "TAG_BODY \<equiv> 16"

abbreviation STIVALE2_STRUCT_TAG_KERNEL_BASE_ADDRESS_ID :: u64 where
  "STIVALE2_STRUCT_TAG_KERNEL_BASE_ADDRESS_ID \<equiv> 0x060d78874a2a8af0"
abbreviation STIVALE2_STRUCT_TAG_MEMMAP_ID :: u64 where
  "STIVALE2_STRUCT_TAG_MEMMAP_ID \<equiv> 0x2187f79e8612de07"
abbreviation STIVALE2_STRUCT_TAG_MODULES_ID :: u64 where
  "STIVALE2_STRUCT_TAG_MODULES_ID \<equiv> 0x4b6fe466aade04ce"
abbreviation STIVALE2_STRUCT_TAG_HHDM_ID :: u64 where
  "STIVALE2_STRUCT_TAG_HHDM_ID \<equiv> 0xb0ed257db18cb58f"

section \<open>Finding a tag\<close>

partial_function (option) find_tag_loop :: "'a machine_scheme \<Rightarrow> u64 \<Rightarrow> u64 \<Rightarrow> u64 option" where
  "find_tag_loop s tid current =
     (if current = 0 then Some 0
      else do { identifier \<leftarrow> vload s current 8;
                if identifier = tid then Some current
                else do { n \<leftarrow> vload s (current + TAG_NEXT) 8; find_tag_loop s tid n } })"

definition find_tag :: "'a machine_scheme \<Rightarrow> u64 \<Rightarrow> u64 \<Rightarrow> u64 option" where
  "find_tag s header tid = do { current \<leftarrow> vload s (header + HDR_TAGS) 8; find_tag_loop s tid current }"

definition get_hhdm :: "'a boot_scheme \<Rightarrow> u64 option" where
  "get_hhdm s = do { hhdm \<leftarrow> find_tag s (hdr s) STIVALE2_STRUCT_TAG_HHDM_ID; vload s (hhdm + TAG_BODY) 8 }"

text \<open>A list of tags that ends: each with its address and identifier.\<close>

fun tag_chain :: "'a machine_scheme \<Rightarrow> u64 \<Rightarrow> (u64 \<times> u64) list \<Rightarrow> bool" where
  "tag_chain s p [] \<longleftrightarrow> p = 0"
| "tag_chain s p ((a, i) # ts) \<longleftrightarrow> p = a \<and> a \<noteq> 0 \<and> vload s a 8 = Some i \<and>
     (\<exists>n. vload s (a + TAG_NEXT) 8 = Some n \<and> tag_chain s n ts)"

definition tag_of :: "u64 \<Rightarrow> (u64 \<times> u64) list \<Rightarrow> u64" where
  "tag_of tid ts = (case find (\<lambda>(a, i). i = tid) ts of Some (a, i) \<Rightarrow> a | None \<Rightarrow> 0)"

lemma find_tag_loop_chain: "tag_chain s p ts \<Longrightarrow> find_tag_loop s tid p = Some (tag_of tid ts)"
proof (induction ts arbitrary: p)
  case Nil
  then show ?case by (subst find_tag_loop.simps) (simp add: tag_of_def)
next
  case (Cons t ts)
  obtain a i where t: "t = (a, i)" by (cases t)
  then obtain n where n: "p = a" "a \<noteq> 0" "vload s a 8 = Some i" "vload s (a + TAG_NEXT) 8 = Some n" "tag_chain s n ts"
    using Cons.prems by auto
  then show ?case
    using Cons.IH [OF n(5)] by (subst find_tag_loop.simps) (simp add: t tag_of_def)
qed

lemma find_tag_loop_sound:
  assumes "find_tag_loop s tid p = Some r"
  shows "\<exists>k. ((\<lambda>a. case vload s (a + TAG_NEXT) 8 of Some n \<Rightarrow> n | None \<Rightarrow> 0) ^^ k) p = r \<and>
    (r = 0 \<or> vload s r 8 = Some tid)"
proof (rule find_tag_loop.raw_induct [where P = "\<lambda>s tid p r. \<exists>k. ((\<lambda>a. case vload s (a + TAG_NEXT) 8 of Some n \<Rightarrow> n | None \<Rightarrow> 0) ^^ k) p = r \<and>
    (r = 0 \<or> vload s r 8 = Some tid)", OF _ assms])
  fix loop :: "'a machine_scheme \<Rightarrow> u64 \<Rightarrow> u64 \<Rightarrow> u64 option" and s tid p r
  let ?next = "\<lambda>s a. case vload s (a + TAG_NEXT) 8 of Some n \<Rightarrow> n | None \<Rightarrow> 0"
  assume IH: "\<And>s tid p r. loop s tid p = Some r \<Longrightarrow> \<exists>k. (?next s ^^ k) p = r \<and> (r = 0 \<or> vload s r 8 = Some tid)"
    and run: "(if p = 0 then Some 0
      else do { identifier \<leftarrow> vload s p 8;
                if identifier = tid then Some p
                else do { n \<leftarrow> vload s (p + TAG_NEXT) 8; loop s tid n } }) = Some r"
  consider "r = p" "p = 0 \<or> vload s p 8 = Some tid"
    | n where "vload s (p + TAG_NEXT) 8 = Some n" "loop s tid n = Some r"
    using run by (auto split: if_splits Option.bind_splits)
  then show "\<exists>k. (?next s ^^ k) p = r \<and> (r = 0 \<or> vload s r 8 = Some tid)"
  proof cases
    case 1
    then show ?thesis by (intro exI [of _ 0]) auto
  next
    case 2
    then obtain k where k: "(?next s ^^ k) n = r" "r = 0 \<or> vload s r 8 = Some tid" using IH by blast
    moreover have "(?next s ^^ Suc k) p = (?next s ^^ k) n" by (simp add: funpow_Suc_right 2(1) del: funpow.simps)
    ultimately show ?thesis by blast
  qed
qed

section \<open>The memory map\<close>

record mmap_entry =
  mmap_base :: u64
  mmap_length :: u64
  mmap_type :: u32

definition memmap_entries :: "'a machine_scheme \<Rightarrow> u64 \<Rightarrow> u64 option" where
  "memmap_entries s memmap = vload s (memmap + TAG_BODY) 8"

definition memmap_entry :: "'a machine_scheme \<Rightarrow> u64 \<Rightarrow> u64 \<Rightarrow> mmap_entry option" where
  "memmap_entry s memmap current =
     do { b \<leftarrow> vload s (memmap + TAG_BODY + 8 + 24 * current) 8;
          l \<leftarrow> vload s (memmap + TAG_BODY + 8 + 24 * current + 8) 8;
          t \<leftarrow> vload s (memmap + TAG_BODY + 8 + 24 * current + 16) 4;
          Some \<lparr>mmap_base = b, mmap_length = l, mmap_type = ucast t\<rparr> }"

partial_function (option) usable_loop ::
  "u64 \<Rightarrow> u64 \<Rightarrow> u64 \<Rightarrow> u64 \<Rightarrow> 'a boot_scheme \<Rightarrow> 'a boot_scheme option" where
  "usable_loop base_address memmap hhdm current s =
     do { n \<leftarrow> memmap_entries s memmap;
          if current < n
          then do { cur \<leftarrow> memmap_entry s memmap current;
                    s \<leftarrow> (if mmap_type cur = 1
                          then do { s \<leftarrow> kprint_s (Lit ''    '' 0) s;
                                    s \<leftarrow> kprint_d (mmap_base cur) s;
                                    let s = kprint_c (of_char CHR ''-'') s;
                                    s \<leftarrow> kprint_d (mmap_base cur + mmap_length cur) s;
                                    s \<leftarrow> kprint_s (Lit '' is mapped to '' 0) s;
                                    p \<leftarrow> vload s (base_address + TAG_BODY) 8;
                                    a \<leftarrow> vload s (hhdm + TAG_BODY) 8;
                                    s \<leftarrow> kprint_d (mmap_base cur - p + a) s;
                                    let s = kprint_c (of_char CHR ''-'') s;
                                    p \<leftarrow> vload s (base_address + TAG_BODY) 8;
                                    a \<leftarrow> vload s (hhdm + TAG_BODY) 8;
                                    s \<leftarrow> kprint_d (mmap_base cur - p + a + mmap_length cur) s;
                                    Some (kprint_c 10 s) }
                          else Some s);
                    usable_loop base_address memmap hhdm (current + 1) s }
          else Some s }"

definition usable_memory :: "u64 \<Rightarrow> 'a boot_scheme \<Rightarrow> 'a boot_scheme option" where
  "usable_memory header s =
     do { s \<leftarrow> kprint_s (Lit ''Usable memory: \<newline>'' 0) s;
          base_address \<leftarrow> find_tag s header STIVALE2_STRUCT_TAG_KERNEL_BASE_ADDRESS_ID;
          memmap \<leftarrow> find_tag s header STIVALE2_STRUCT_TAG_MEMMAP_ID;
          hhdm \<leftarrow> find_tag s header STIVALE2_STRUCT_TAG_HHDM_ID;
          usable_loop base_address memmap hhdm 0 s }"

section \<open>Properties\<close>

text \<open>C29: on a list of tags that ends, \<open>find_tag\<close> returns the first tag with the identifier
  asked for, or NULL when there is none.\<close>

theorem find_tag_first:
  assumes "vload s (header + HDR_TAGS) 8 = Some p" "tag_chain s p ts"
  shows "find_tag s header tid = Some (case find (\<lambda>(a, i). i = tid) ts of Some (a, i) \<Rightarrow> a | None \<Rightarrow> 0)"
  using assms find_tag_loop_chain [OF assms(2)] by (simp add: find_tag_def tag_of_def)

text \<open>A machine that has just been entered, with memory \<open>m\<close> and the header at \<open>0xFFFFFFFF80001000\<close>.\<close>

definition boot_machine :: "mem \<Rightarrow> boot" where
  "boot_machine m = \<lparr>mem = m, cr0 = 0, cr3 = 0x1000, hhdm_base = 0, cpu_events = [],
     io_trace = [], devices = (\<lambda>_ _. 0), term_ptr = 0xFFFF8000000B8000, term_col = 0, term_row = 0,
     freelist = 0, free_page_counter = 0, hdr = 0xFFFFFFFF80001000\<rparr>"

definition one_tag_machine :: boot where
  "one_tag_machine = boot_machine (store64 (store64 (store64 (\<lambda>_. 0) 0xFFFFFFFF80001080 0xFFFFFFFF80002000)
     0xFFFFFFFF80002000 STIVALE2_STRUCT_TAG_HHDM_ID) 0xFFFFFFFF80002010 0xFFFF800000000000)"

lemma one_tag_chain:
  "vload one_tag_machine (hdr one_tag_machine + HDR_TAGS) 8 = Some 0xFFFFFFFF80002000"
  "tag_chain one_tag_machine 0xFFFFFFFF80002000 [(0xFFFFFFFF80002000, STIVALE2_STRUCT_TAG_HHDM_ID)]"
  "vload one_tag_machine 0xFFFFFFFF80002010 8 = Some 0xFFFF800000000000"
proof -
  have al: "aligned 3 (0xFFFFFFFF80001080 :: u64)" "aligned 3 (0xFFFFFFFF80002000 :: u64)"
    "aligned 3 (0xFFFFFFFF80002010 :: u64)" "aligned 3 (0xFFFFFFFF80002008 :: u64)"
    by (simp_all add: aligned_def take_bit_eq_mod word_unat_eq_iff unat_mod)
  have z: "load64 (\<lambda>_. 0) a = 0" for a
    unfolding load64_def by (rule load_bytes_zero) simp
  show "vload one_tag_machine (hdr one_tag_machine + HDR_TAGS) 8 = Some 0xFFFFFFFF80002000"
    by (simp add: vload8_upper one_tag_machine_def boot_machine_def load64_store64 al)
  show "vload one_tag_machine 0xFFFFFFFF80002010 8 = Some 0xFFFF800000000000"
    by (simp add: vload8_upper one_tag_machine_def boot_machine_def load64_store64 al)
  show "tag_chain one_tag_machine 0xFFFFFFFF80002000 [(0xFFFFFFFF80002000, STIVALE2_STRUCT_TAG_HHDM_ID)]"
    by (simp add: vload8_upper one_tag_machine_def boot_machine_def load64_store64 al z)
qed

theorem find_tag_first_witness:
  "find_tag one_tag_machine (hdr one_tag_machine) STIVALE2_STRUCT_TAG_HHDM_ID = Some 0xFFFFFFFF80002000 \<and>
   find_tag one_tag_machine (hdr one_tag_machine) STIVALE2_STRUCT_TAG_MEMMAP_ID = Some 0"
  using find_tag_first [OF one_tag_chain(1,2), of STIVALE2_STRUCT_TAG_HHDM_ID]
    find_tag_first [OF one_tag_chain(1,2), of STIVALE2_STRUCT_TAG_MEMMAP_ID] by simp

text \<open>Whatever \<open>find_tag\<close> returns is NULL or the address of a tag with the identifier
  asked for, reached from the header along the tags' \<open>next\<close> pointers.\<close>

theorem find_tag_sound:
  assumes "find_tag s header tid = Some r"
  shows "\<exists>p k. vload s (header + HDR_TAGS) 8 = Some p \<and>
    ((\<lambda>a. case vload s (a + TAG_NEXT) 8 of Some n \<Rightarrow> n | None \<Rightarrow> 0) ^^ k) p = r \<and>
    (r = 0 \<or> vload s r 8 = Some tid)"
proof -
  obtain p where p: "vload s (header + HDR_TAGS) 8 = Some p" "find_tag_loop s tid p = Some r"
    using assms by (auto simp: find_tag_def split: Option.bind_splits)
  show ?thesis using p(1) find_tag_loop_sound [OF p(2)] by blast
qed

theorem find_tag_sound_witness:
  "\<exists>p k. vload one_tag_machine (hdr one_tag_machine + HDR_TAGS) 8 = Some p \<and>
    ((\<lambda>a. case vload one_tag_machine (a + TAG_NEXT) 8 of Some n \<Rightarrow> n | None \<Rightarrow> 0) ^^ k) p = 0xFFFFFFFF80002000"
proof -
  have "find_tag one_tag_machine (hdr one_tag_machine) STIVALE2_STRUCT_TAG_HHDM_ID = Some 0xFFFFFFFF80002000"
    using one_tag_chain find_tag_loop_chain [OF one_tag_chain(2)] by (simp add: find_tag_def tag_of_def)
  from find_tag_sound [OF this] show ?thesis by blast
qed

end
