(* ===== verification/MemInit.thy ===== *)
theory MemInit
  imports Stivale
begin

text \<open>
  Taking over memory (\<open>unmap_lower_half\<close>, \<open>mem_init\<close> and \<open>translate\<close> of
  \<open>kernel/page.c\<close>, \<open>init_init\<close> of \<open>kernel/boot.c\<close>): the tables of the lower half go to
  the free list, children before parents, and so do the usable regions of the memory map.
  \<open>l4_pages\<close> reads off the tables in the order they are freed; the theorem on
  \<open>unmap_lower_half\<close> says it frees exactly those and leaves an empty lower half.
\<close>

section \<open>Unmapping the lower half\<close>

text \<open>The loops over a level-2, a level-3 and the level-4 table, one body each.\<close>

definition l2_step :: "u64 \<Rightarrow> nat \<Rightarrow> 'a kmem_scheme \<Rightarrow> 'a kmem_scheme" where
  "l2_step l2_table l2_index s =
     (let e = get_pte (mem s) l2_table (of_nat l2_index)
      in if pte_present e \<and> \<not> pte_page_size e
         then pmem_free (pte_frame (get_pte (mem s) l2_table (of_nat l2_index))) s else s)"

definition l3_step :: "u64 \<Rightarrow> nat \<Rightarrow> 'a kmem_scheme \<Rightarrow> 'a kmem_scheme" where
  "l3_step l3_table l3_index s =
     (let e = get_pte (mem s) l3_table (of_nat l3_index)
      in if pte_present e \<and> \<not> pte_page_size e
         then let l2_table = ptov s (pte_frame e);
                  s = fold (l2_step l2_table) [0..<512] s
              in pmem_free (pte_frame (get_pte (mem s) l3_table (of_nat l3_index))) s
         else s)"

definition l4_step :: "u64 \<Rightarrow> nat \<Rightarrow> 'a kmem_scheme \<Rightarrow> 'a kmem_scheme" where
  "l4_step l4_table l4_index s =
     (if pte_present (get_pte (mem s) l4_table (of_nat l4_index))
      then let s = upd_pte l4_table (of_nat l4_index) (\<lambda>e. e\<lparr>pte_present := False\<rparr>) s;
               l3_table = ptov s (pte_frame (get_pte (mem s) l4_table (of_nat l4_index)));
               s = fold (l3_step l3_table) [0..<512] s
           in pmem_free (pte_frame (get_pte (mem s) l4_table (of_nat l4_index))) s
      else s)"

definition unmap_lower_half :: "u64 \<Rightarrow> 'a kmem_scheme \<Rightarrow> 'a kmem_scheme" where
  "unmap_lower_half root s =
     (let l4_table = ptov s root;
          s = fold (l4_step l4_table) [0..<256] s
      in write_cr3 (read_cr3 s) s)"

section \<open>Filling the free list\<close>

partial_function (option) free_region :: "u64 \<Rightarrow> u64 \<Rightarrow> 'a kmem_scheme \<Rightarrow> 'a kmem_scheme option" where
  "free_region at limit s =
     (if at < limit
      then let s = pmem_free at s
           in free_region (at + 0x1000) limit (s\<lparr>free_page_counter := free_page_counter s + 1\<rparr>)
      else Some s)"

partial_function (option) memmap_loop :: "u64 \<Rightarrow> u64 \<Rightarrow> 'a kmem_scheme \<Rightarrow> 'a kmem_scheme option" where
  "memmap_loop memmap current s =
     do { n \<leftarrow> memmap_entries s memmap;
          if current < n
          then do { cur \<leftarrow> memmap_entry s memmap current;
                    s \<leftarrow> (if mmap_type cur = 1 then free_region (mmap_base cur) (mmap_base cur + mmap_length cur) s else Some s);
                    memmap_loop memmap (current + 1) s }
          else Some s }"

definition init_init :: "'a boot_scheme \<Rightarrow> 'a boot_scheme option" where
  "init_init s = do { h \<leftarrow> get_hhdm s; Some (s\<lparr>hhdm_base := h\<rparr>) }"

definition mem_init :: "'a boot_scheme \<Rightarrow> 'a boot_scheme option" where
  "mem_init s =
     do { h \<leftarrow> get_hhdm s;
          let s = s\<lparr>hhdm_base := h\<rparr>;
          memmap \<leftarrow> find_tag s (hdr s) STIVALE2_STRUCT_TAG_MEMMAP_ID;
          s \<leftarrow> memmap_loop memmap 0 s;
          let s = unmap_lower_half (read_cr3 s) s;
          kprintf ''number of free pages are: %d\<newline>'' [Va_int (ucast (free_page_counter s))] s }"

section \<open>Printing a translation\<close>

fun translate_loop :: "nat \<Rightarrow> u64 \<Rightarrow> u64 \<Rightarrow> u64 \<Rightarrow> u64 \<Rightarrow> 'a boot_scheme \<Rightarrow> 'a boot_scheme option" where
  "translate_loop 0 address hhdm table_phys table s =
     (let result = table_phys + table_index address 0
      in kprintf ''%p maps to %p\<newline>'' [Va_int address, Va_int result] s)"
| "translate_loop (Suc i) address hhdm table_phys table s =
     (let index = table_index address (Suc i)
      in if pte_present (get_pte (mem s) table index)
         then do { s \<leftarrow> kprintf ''   level %d (index %d of %p)\<newline>'' [Va_int (of_nat (Suc i)), Va_int index, Va_int table] s;
                   s \<leftarrow> kprintf ''      %s'' [Va_str (Lit (if pte_user (get_pte (mem s) table index) then ''user '' else ''kernel '') 0)] s;
                   s \<leftarrow> kprintf ''%s'' [Va_str (Lit (if pte_writable (get_pte (mem s) table index) then ''writable '' else '''') 0)] s;
                   s \<leftarrow> kprintf ''%s'' [Va_str (Lit (if pte_no_execute (get_pte (mem s) table index) then '''' else ''executable'') 0)] s;
                   let table_phys = pte_frame (get_pte (mem s) table index);
                   let table = table_phys + hhdm;
                   s \<leftarrow> kprintf '' ->  %p\<newline>'' [Va_int table_phys] s;
                   translate_loop i address hhdm table_phys table s }
         else kprintf ''   Not Present!\<newline>'' [] s)"

fun print_indices :: "nat \<Rightarrow> u64 \<Rightarrow> 'a terminal_scheme \<Rightarrow> 'a terminal_scheme option" where
  "print_indices 0 address s =
     kprintf ''\<newline>   level %d index is: %p'' [Va_int 0, Va_int (table_index address 0)] s"
| "print_indices (Suc i) address s =
     do { s \<leftarrow> kprintf ''\<newline>   level %d index is: %p'' [Va_int (of_nat (Suc i)), Va_int (table_index address (Suc i))] s;
          print_indices i address s }"

definition translate :: "u64 \<Rightarrow> 'a boot_scheme \<Rightarrow> 'a boot_scheme option" where
  "translate address s =
     do { let table_phys = read_cr3 s AND 0xFFFFFFFFFFFFF000;
          hhdm \<leftarrow> get_hhdm s;
          let table = table_phys + hhdm;
          s \<leftarrow> kprintf ''og address: %p'' [Va_int address] s;
          s \<leftarrow> print_indices 4 address s;
          let s = kprint_c 10 s;
          s \<leftarrow> kprintf ''Translating %p \<newline>'' [Va_int address] s;
          translate_loop 4 address hhdm table_phys table s }"

lemma store_bytes_local: "m x = m' x \<Longrightarrow> store_bytes m a v n x = store_bytes m' a v n x"
proof (induction n arbitrary: m m' a v)
  case (Suc n)
  have "store_bytes (m(a := ucast v)) (a + 1) (drop_bit 8 v) n x = store_bytes (m'(a := ucast v)) (a + 1) (drop_bit 8 v) n x"
    by (rule Suc.IH) (use Suc.prems in simp)
  then show ?case by simp
qed simp

section \<open>Freeing commutes with clearing root entries\<close>

lemma store_bytes_commute:
  assumes "\<And>i j. i < n \<Longrightarrow> j < k \<Longrightarrow> a + of_nat i \<noteq> b + of_nat j"
  shows "store_bytes (store_bytes m a v n) b w k = store_bytes (store_bytes m b w k) a v n"
proof (rule ext)
  fix x
  consider (a) i where "i < n" "x = a + of_nat i" | (b) "\<And>i. i < n \<Longrightarrow> x \<noteq> a + of_nat i" by blast
  then show "store_bytes (store_bytes m a v n) b w k x = store_bytes (store_bytes m b w k) a v n x"
  proof cases
    case a
    then have "store_bytes (store_bytes m a v n) b w k x = store_bytes m a v n x"
      using assms by (intro store_bytes_out) metis
    also have "\<dots> = store_bytes (store_bytes m b w k) a v n x"
      by (rule store_bytes_local) (use a assms in \<open>auto intro!: store_bytes_out [symmetric]\<close>)
    finally show ?thesis .
  next
    case b
    then have "store_bytes (store_bytes m b w k) a v n x = store_bytes m b w k x"
      by (rule store_bytes_out)
    also have "\<dots> = store_bytes (store_bytes m a v n) b w k x"
      by (rule store_bytes_local) (use b in \<open>auto intro!: store_bytes_out [symmetric]\<close>)
    finally show ?thesis by simp
  qed
qed

lemma store64_set_pte_commute:
  assumes "aligned 12 p" "aligned 12 t" "p \<noteq> t" "i < 512"
  shows "set_pte (store64 m p v) t i e = store64 (set_pte m t i e) p v"
proof -
  have "aligned 3 p" using assms(1) by (rule aligned_mono) simp
  moreover have "aligned 3 (t + 8 * i)" by (rule slot_aligned3 [OF assms(2)])
  moreover have "p \<noteq> t + 8 * i" using slot_zero_eq_iff [OF assms(1,2,4)] assms(3) by simp
  ultimately have apart: "p + of_nat x \<noteq> t + 8 * i + of_nat y" if "x < 8" "y < 8" for x y
    using that by (rule aligned8_apart)
  show ?thesis
    unfolding set_pte_def store64_def by (rule store_bytes_commute) (rule apart)
qed

lemma pmem_free_upd_commute:
  assumes "aligned 12 (hhdm_base s)" "aligned 12 p" "aligned 12 t" "p \<noteq> t" "i < 512"
  shows "upd_pte (t + hhdm_base s) i f (pmem_free p s) = pmem_free p (upd_pte (t + hhdm_base s) i f s)"
proof -
  have al: "aligned 12 (p + hhdm_base s)" "aligned 12 (t + hhdm_base s)"
    using assms by (simp_all add: aligned_add)
  have "get_pte (store64 (mem s) (p + hhdm_base s) v) (t + hhdm_base s) i = get_pte (mem s) (t + hhdm_base s) i" for v
    using page_same_store64 [of "t + hhdm_base s" "p + hhdm_base s" 0 "mem s" v] al assms
    by (simp add: get_pte_page_same)
  then show ?thesis
    using store64_set_pte_commute [of "p + hhdm_base s" "t + hhdm_base s" i "mem s" "freelist s"] al assms
    by (simp add: upd_pte_def pmem_free_def Let_def)
qed

section \<open>Freeing a list of pages\<close>

abbreviation free_all :: "u64 list \<Rightarrow> 'a kmem_scheme \<Rightarrow> 'a kmem_scheme" where
  "free_all ps s \<equiv> fold pmem_free ps s"

lemma free_all_frame [simp]:
  "hhdm_base (free_all ps s) = hhdm_base s" "cr3 (free_all ps s) = cr3 s" "cr0 (free_all ps s) = cr0 s"
  "kmem.more (free_all ps s) = kmem.more s" "term_ptr (free_all ps s) = term_ptr s"
  "term_inv (free_all ps s) = term_inv s"
  by (induction ps arbitrary: s) (simp_all add: pmem_free_def Let_def term_inv_def)

lemma free_all_counter: "free_page_counter (free_all ps s) = free_page_counter s + of_nat (length ps)"
  by (induction ps arbitrary: s) (simp_all add: pmem_free_def Let_def)

lemma free_all_page_same:
  assumes "aligned 12 (hhdm_base s)" "\<forall>p \<in> set ps. aligned 12 p" "aligned 12 a" "a \<notin> set ps"
  shows "page_same (mem s) (mem (free_all ps s)) (a + hhdm_base s)"
  using assms
proof (induction ps arbitrary: s)
  case (Cons p ps)
  have h: "hhdm_base (pmem_free p s) = hhdm_base s" by (simp add: pmem_free_def Let_def)
  have "page_same (mem s) (mem (pmem_free p s)) (a + hhdm_base s)"
    using page_same_store64 [of "a + hhdm_base s" "p + hhdm_base s" 0 "mem s"] Cons.prems
    by (simp add: pmem_free_def Let_def aligned_add)
  moreover have "page_same (mem (pmem_free p s)) (mem (free_all ps (pmem_free p s))) (a + hhdm_base s)"
    using Cons.IH [of "pmem_free p s"] Cons.prems by (simp add: h)
  ultimately show ?case by (simp add: page_same_trans)
qed simp

lemma free_all_get_pte:
  assumes "aligned 12 (hhdm_base s)" "\<forall>p \<in> set ps. aligned 12 p" "aligned 12 t" "t \<notin> set ps" "i < 512"
  shows "get_pte (mem (free_all ps s)) (t + hhdm_base s) i = get_pte (mem s) (t + hhdm_base s) i"
  using free_all_page_same [OF assms(1-4)] assms(5) by (rule get_pte_page_same)

lemma free_all_upd_commute:
  assumes "aligned 12 (hhdm_base s)" "\<forall>p \<in> set ps. aligned 12 p" "aligned 12 t" "t \<notin> set ps" "i < 512"
  shows "upd_pte (t + hhdm_base s) i f (free_all ps s) = free_all ps (upd_pte (t + hhdm_base s) i f s)"
  using assms
proof (induction ps arbitrary: s)
  case (Cons p ps)
  have h: "hhdm_base (pmem_free p s) = hhdm_base s" by (simp add: pmem_free_def Let_def)
  have "upd_pte (t + hhdm_base s) i f (free_all ps (pmem_free p s)) =
      free_all ps (upd_pte (t + hhdm_base s) i f (pmem_free p s))"
    using Cons.IH [of "pmem_free p s"] Cons.prems by (simp add: h)
  then show ?case using pmem_free_upd_commute [of s p t i f] Cons.prems by auto
qed simp

section \<open>The tables of the lower half, children first\<close>

definition l2_group :: "mem \<Rightarrow> u64 \<Rightarrow> u64 \<Rightarrow> nat \<Rightarrow> u64 list" where
  "l2_group m h t i =
     (let e = get_pte m (t + h) (of_nat i) in if pte_present e \<and> \<not> pte_page_size e then [pte_frame e] else [])"

definition l2_pages :: "mem \<Rightarrow> u64 \<Rightarrow> u64 \<Rightarrow> u64 list" where
  "l2_pages m h t = concat (map (l2_group m h t) [0..<512])"

definition l3_group :: "mem \<Rightarrow> u64 \<Rightarrow> u64 \<Rightarrow> nat \<Rightarrow> u64 list" where
  "l3_group m h t i =
     (let e = get_pte m (t + h) (of_nat i)
      in if pte_present e \<and> \<not> pte_page_size e then l2_pages m h (pte_frame e) @ [pte_frame e] else [])"

definition l3_pages :: "mem \<Rightarrow> u64 \<Rightarrow> u64 \<Rightarrow> u64 list" where
  "l3_pages m h t = concat (map (l3_group m h t) [0..<512])"

definition l4_group :: "mem \<Rightarrow> u64 \<Rightarrow> u64 \<Rightarrow> nat \<Rightarrow> u64 list" where
  "l4_group m h t i =
     (let e = get_pte m (t + h) (of_nat i) in if pte_present e then l3_pages m h (pte_frame e) @ [pte_frame e] else [])"

definition lower_tables :: "mem \<Rightarrow> u64 \<Rightarrow> u64 \<Rightarrow> u64 list" where
  "lower_tables m h root = concat (map (l4_group m h root) [0..<256])"

lemma l2_pages_aligned: "p \<in> set (l2_pages m h t) \<Longrightarrow> aligned 12 p"
  by (auto simp: l2_pages_def l2_group_def Let_def split: if_splits)

lemma l3_pages_aligned: "p \<in> set (l3_pages m h t) \<Longrightarrow> aligned 12 p"
  by (auto simp: l3_pages_def l3_group_def Let_def l2_pages_aligned split: if_splits)

lemma lower_tables_aligned: "p \<in> set (lower_tables m h root) \<Longrightarrow> aligned 12 p"
  by (auto simp: lower_tables_def l4_group_def Let_def l3_pages_aligned split: if_splits)

lemma concat_upt_Suc: "concat (map g [0..<Suc i]) = concat (map g [0..<i]) @ g i"
  by simp

lemma concat_upt_split:
  assumes "i < n"
  shows "\<exists>zs. concat (map g [0..<n]) = concat (map g [0..<i]) @ g i @ zs"
proof -
  have "[0..<n] = [0..<i] @ i # [Suc i..<n]"
    using assms by (metis le_add1 le_add_same_cancel1 less_imp_add_positive upt_add_eq_append upt_rec zero_le)
  then show ?thesis by auto
qed

lemma fold_steps:
  assumes "\<And>i. i < n \<Longrightarrow> step i (free_all (concat (map g [0..<i])) s) = free_all (g i) (free_all (concat (map g [0..<i])) s)"
  shows "fold step [0..<n] s = free_all (concat (map g [0..<n])) s"
  using assms by (induction n) simp_all

lemma of_nat_512: "i < 512 \<Longrightarrow> (of_nat i :: u64) < 512"
  by (simp add: word_less_nat_alt unat_of_nat)

lemma l2_pages_cong: "page_same m m' (t + h) \<Longrightarrow> l2_pages m' h t = l2_pages m h t"
  unfolding l2_pages_def l2_group_def
  by (rule arg_cong [of _ _ concat]) (simp add: get_pte_page_same of_nat_512)

lemma l3_pages_cong:
  assumes "page_same m m' (t + h)" "\<And>p. p \<in> set (l3_pages m h t) \<Longrightarrow> page_same m m' (p + h)"
  shows "l3_pages m' h t = l3_pages m h t"
proof -
  have "l3_group m' h t i = l3_group m h t i" if i: "i < 512" for i
  proof -
    have e: "get_pte m' (t + h) (of_nat i) = get_pte m (t + h) (of_nat i)"
      using get_pte_page_same [OF assms(1) of_nat_512 [OF i]] .
    show ?thesis
    proof (cases "pte_present (get_pte m (t + h) (of_nat i)) \<and> \<not> pte_page_size (get_pte m (t + h) (of_nat i))")
      case True
      then have "pte_frame (get_pte m (t + h) (of_nat i)) \<in> set (l3_group m h t i)"
        by (simp add: l3_group_def Let_def)
      then have "pte_frame (get_pte m (t + h) (of_nat i)) \<in> set (l3_pages m h t)"
        using i by (auto simp: l3_pages_def)
      then have "l2_pages m' h (pte_frame (get_pte m (t + h) (of_nat i))) = l2_pages m h (pte_frame (get_pte m (t + h) (of_nat i)))"
        using l2_pages_cong assms(2) by blast
      then show ?thesis by (simp add: l3_group_def e Let_def)
    next
      case False
      then show ?thesis by (auto simp add: l3_group_def e Let_def)
    qed
  qed
  then have "map (l3_group m' h t) [0..<512] = map (l3_group m h t) [0..<512]" by (intro map_cong) simp_all
  then show ?thesis by (simp only: l3_pages_def)
qed

lemma l2_fold:
  assumes "aligned 12 (hhdm_base s)" "aligned 12 t" "t \<notin> set (l2_pages (mem s) (hhdm_base s) t)"
  shows "fold (l2_step (t + hhdm_base s)) [0..<512] s = free_all (l2_pages (mem s) (hhdm_base s) t) s"
  unfolding l2_pages_def
proof (rule fold_steps)
  fix i :: nat assume i: "i < 512"
  let ?xs = "concat (map (l2_group (mem s) (hhdm_base s) t) [0..<i])"
  have sub: "set ?xs \<subseteq> set (l2_pages (mem s) (hhdm_base s) t)" using i by (fastforce simp: l2_pages_def)
  have "get_pte (mem (free_all ?xs s)) (t + hhdm_base s) (of_nat i) = get_pte (mem s) (t + hhdm_base s) (of_nat i)"
    by (rule free_all_get_pte) (use assms sub l2_pages_aligned of_nat_512 [OF i] in blast)+
  then show "l2_step (t + hhdm_base s) i (free_all ?xs s) =
      free_all (l2_group (mem s) (hhdm_base s) t i) (free_all ?xs s)"
    by (simp add: l2_step_def l2_group_def Let_def)
qed

lemma l3_fold:
  assumes "aligned 12 (hhdm_base s)" "aligned 12 t" "distinct (l3_pages (mem s) (hhdm_base s) t @ [t])"
  shows "fold (l3_step (t + hhdm_base s)) [0..<512] s = free_all (l3_pages (mem s) (hhdm_base s) t) s"
  unfolding l3_pages_def
proof (rule fold_steps)
  fix i :: nat assume i: "i < 512"
  let ?h = "hhdm_base s"
  let ?g = "l3_group (mem s) ?h t"
  let ?xs = "concat (map ?g [0..<i])"
  let ?s = "free_all ?xs s"
  let ?e = "get_pte (mem s) (t + ?h) (of_nat i)"
  obtain zs where split: "l3_pages (mem s) ?h t = ?xs @ ?g i @ zs"
    using concat_upt_split [OF i, of ?g] by (auto simp: l3_pages_def)
  have d: "distinct (?xs @ ?g i)" "t \<notin> set (?xs @ ?g i)" using assms(3) by (auto simp: split)
  have al: "\<forall>p \<in> set (?xs @ ?g i). aligned 12 p" using l3_pages_aligned [of _ "mem s" ?h t] unfolding split by auto
  have e: "get_pte (mem (free_all ys s)) (t + ?h) (of_nat i) = ?e" if "set ys \<subseteq> set (?xs @ ?g i)" for ys
    by (rule free_all_get_pte) (use assms al d that of_nat_512 [OF i] in blast)+
  have e0: "get_pte (mem ?s) (t + ?h) (of_nat i) = ?e" by (rule e) simp
  show "l3_step (t + ?h) i ?s = free_all (?g i) ?s"
  proof (cases "pte_present ?e \<and> \<not> pte_page_size ?e")
    case True
    let ?f = "pte_frame ?e"
    have g: "?g i = l2_pages (mem s) ?h ?f @ [?f]" using True by (simp add: l3_group_def Let_def)
    have same: "page_same (mem s) (mem ?s) (?f + ?h)"
      by (rule free_all_page_same) (use assms al d in \<open>auto simp: g\<close>)
    have l2: "l2_pages (mem ?s) ?h ?f = l2_pages (mem s) ?h ?f" by (rule l2_pages_cong [OF same])
    have "fold (l2_step (?f + hhdm_base ?s)) [0..<512] ?s = free_all (l2_pages (mem ?s) (hhdm_base ?s) ?f) ?s"
      by (rule l2_fold) (use assms d in \<open>auto simp: g l2\<close>)
    then have inner: "fold (l2_step (ptov ?s ?f)) [0..<512] ?s = free_all (?xs @ l2_pages (mem s) ?h ?f) s"
      by (simp add: ptov_def l2)
    have "get_pte (mem (free_all (?xs @ l2_pages (mem s) ?h ?f) s)) (t + ?h) (of_nat i) = ?e"
      by (rule e) (auto simp: g)
    then show ?thesis
      using True inner e0 by (simp add: l3_step_def Let_def g)
  next
    case False
    then have "?g i = []" unfolding l3_group_def Let_def by meson
    moreover have "l3_step (t + ?h) i ?s = ?s"
      using False e0 by (auto simp: l3_step_def Let_def)
    ultimately show ?thesis by simp
  qed
qed

section \<open>Clearing the root\<close>

definition clear_step :: "u64 \<Rightarrow> nat \<Rightarrow> 'a kmem_scheme \<Rightarrow> 'a kmem_scheme" where
  "clear_step l4_table i s =
     (if pte_present (get_pte (mem s) l4_table (of_nat i))
      then upd_pte l4_table (of_nat i) (\<lambda>e. e\<lparr>pte_present := False\<rparr>) s else s)"

definition clear_root :: "u64 \<Rightarrow> nat \<Rightarrow> 'a kmem_scheme \<Rightarrow> 'a kmem_scheme" where
  "clear_root root n s = fold (clear_step (root + hhdm_base s)) [0..<n] s"

lemma clear_step_frame [simp]: "hhdm_base (clear_step t i s) = hhdm_base s" "kmem.more (clear_step t i s) = kmem.more s"
  "freelist (clear_step t i s) = freelist s" "free_page_counter (clear_step t i s) = free_page_counter s"
  "cr3 (clear_step t i s) = cr3 s" "cr0 (clear_step t i s) = cr0 s" "term_ptr (clear_step t i s) = term_ptr s"
  "term_inv (clear_step t i s) = term_inv s"
  by (simp_all add: clear_step_def upd_pte_def term_inv_def)

lemma clear_root_Suc: "clear_root root (Suc n) s = clear_step (root + hhdm_base s) n (clear_root root n s)"
  by (simp add: clear_root_def)

lemma clear_root_frame [simp]: "hhdm_base (clear_root r n s) = hhdm_base s" "kmem.more (clear_root r n s) = kmem.more s"
  "freelist (clear_root r n s) = freelist s" "free_page_counter (clear_root r n s) = free_page_counter s"
  "cr3 (clear_root r n s) = cr3 s" "cr0 (clear_root r n s) = cr0 s" "term_ptr (clear_root r n s) = term_ptr s"
  "term_inv (clear_root r n s) = term_inv s"
  by (induction n) (simp_all add: clear_root_Suc, simp_all add: clear_root_def)

lemma of_nat_inj_512: "i < 512 \<Longrightarrow> j < 512 \<Longrightarrow> (of_nat i :: u64) = of_nat j \<longleftrightarrow> i = j"
  by (auto simp: word_unat_eq_iff unat_of_nat)

lemma clear_root_mem:
  assumes "aligned 12 (hhdm_base s)" "aligned 12 root" "n \<le> 512"
  shows "j < 512 \<Longrightarrow> get_pte (mem (clear_root root n s)) (root + hhdm_base s) (of_nat j) =
      (let e = get_pte (mem s) (root + hhdm_base s) (of_nat j) in if j < n then e\<lparr>pte_present := False\<rparr> else e)"
    and "aligned 12 a \<Longrightarrow> a \<noteq> root \<Longrightarrow> page_same (mem s) (mem (clear_root root n s)) (a + hhdm_base s)"
proof -
  have al: "aligned 12 (root + hhdm_base s)" using assms by (simp add: aligned_add)
  show "j < 512 \<Longrightarrow> get_pte (mem (clear_root root n s)) (root + hhdm_base s) (of_nat j) =
      (let e = get_pte (mem s) (root + hhdm_base s) (of_nat j) in if j < n then e\<lparr>pte_present := False\<rparr> else e)"
    using assms(3)
  proof (induction n)
    case (Suc n)
    then show ?case using al
      by (auto simp: clear_root_Suc clear_step_def upd_pte_def get_set_pte of_nat_512 of_nat_inj_512 Let_def less_Suc_eq)
  qed (simp add: clear_root_def)
  show "aligned 12 a \<Longrightarrow> a \<noteq> root \<Longrightarrow> page_same (mem s) (mem (clear_root root n s)) (a + hhdm_base s)"
    using assms(3)
  proof (induction n)
    case (Suc n)
    have "page_same (mem (clear_root root n s)) (mem (clear_root root (Suc n) s)) (a + hhdm_base s)"
      using page_same_set_pte [of "a + hhdm_base s" "root + hhdm_base s" "of_nat n"] Suc.prems assms al of_nat_512 [of n]
      by (simp add: clear_root_Suc clear_step_def upd_pte_def aligned_add)
    then show ?case using Suc page_same_trans by auto
  qed (simp add: clear_root_def)
qed

lemma l4_fold:
  assumes al: "aligned 12 (hhdm_base s)" "aligned 12 root"
    and dist: "distinct (lower_tables (mem s) (hhdm_base s) root @ [root])" and "n \<le> 256"
  shows "fold (l4_step (root + hhdm_base s)) [0..<n] s =
    free_all (concat (map (l4_group (mem s) (hhdm_base s) root) [0..<n])) (clear_root root n s)"
  using assms(4)
proof (induction n)
  case (Suc n)
  let ?h = "hhdm_base s"
  let ?g = "l4_group (mem s) ?h root"
  let ?xs = "concat (map ?g [0..<n])"
  let ?e = "get_pte (mem s) (root + ?h) (of_nat n)"
  obtain zs where split: "lower_tables (mem s) ?h root = ?xs @ ?g n @ zs"
    using concat_upt_split [of n 256 ?g] Suc.prems by (auto simp: lower_tables_def)
  have d: "distinct (?xs @ ?g n)" "root \<notin> set (?xs @ ?g n)" using dist by (auto simp: split)
  have ap: "\<forall>p \<in> set (?xs @ ?g n). aligned 12 p"
    using lower_tables_aligned [of _ "mem s" ?h root] unfolding split by auto
  have n: "n < 512" "n \<le> 512" "Suc n \<le> 512" using Suc.prems by simp_all
  have IH: "fold (l4_step (root + ?h)) [0..<n] s = free_all ?xs (clear_root root n s)"
    using Suc by simp
  have re: "get_pte (mem (free_all ys c)) (root + ?h) (of_nat n) = get_pte (mem c) (root + ?h) (of_nat n)"
    if "set ys \<subseteq> set (?xs @ ?g n)" "hhdm_base c = ?h" for ys and c :: "'a kmem_scheme"
    unfolding that(2) [symmetric]
    by (rule free_all_get_pte) (use that al d ap of_nat_512 [OF n(1)] in auto)
  have e0: "get_pte (mem (free_all ?xs (clear_root root n s))) (root + ?h) (of_nat n) = ?e"
    using re [of ?xs "clear_root root n s"] clear_root_mem(1) [OF al n(2,1)] by simp
  show ?case
  proof (cases "pte_present ?e")
    case False
    then have "?g n = []" by (simp add: l4_group_def Let_def)
    moreover have "l4_step (root + ?h) n (free_all ?xs (clear_root root n s)) = free_all ?xs (clear_root root n s)"
      using False e0 by (simp add: l4_step_def)
    moreover have "clear_root root (Suc n) s = clear_root root n s"
      using False clear_root_mem(1) [OF al n(2,1)] by (simp add: clear_root_Suc clear_step_def)
    ultimately show ?thesis using IH by simp
  next
    case True
    let ?f = "pte_frame ?e"
    let ?c = "clear_root root (Suc n) s"
    let ?s = "free_all ?xs ?c"
    have g: "?g n = l3_pages (mem s) ?h ?f @ [?f]" using True by (simp add: l4_group_def Let_def)
    have c: "?c = upd_pte (root + ?h) (of_nat n) (\<lambda>e. e\<lparr>pte_present := False\<rparr>) (clear_root root n s)"
      using True clear_root_mem(1) [OF al n(2,1)] by (simp add: clear_root_Suc clear_step_def)
    have upd: "upd_pte (root + ?h) (of_nat n) (\<lambda>e. e\<lparr>pte_present := False\<rparr>) (free_all ?xs (clear_root root n s)) = ?s"
      using free_all_upd_commute [of "clear_root root n s" ?xs root "of_nat n"] al ap d of_nat_512 [OF n(1)]
      by (simp add: c)
    have e1: "get_pte (mem (free_all ys ?c)) (root + ?h) (of_nat n) = ?e\<lparr>pte_present := False\<rparr>"
      if "set ys \<subseteq> set (?xs @ ?g n)" for ys
      using re [OF that, of ?c] clear_root_mem(1) [OF al n(3,1)] by simp
    have f1: "pte_frame (get_pte (mem (free_all ys ?c)) (root + ?h) (of_nat n)) = ?f"
      if "set ys \<subseteq> set (?xs @ ?g n)" for ys
      using e1 [OF that] by (simp add: pte_frame_def)
    have same: "page_same (mem s) (mem ?s) (a + ?h)" if "a \<in> set (?g n)" for a
    proof (rule page_same_trans)
      show "page_same (mem s) (mem ?c) (a + ?h)"
        by (rule clear_root_mem(2) [OF al n(3)]) (use ap d that in auto)
      show "page_same (mem ?c) (mem ?s) (a + ?h)"
        using free_all_page_same [of ?c ?xs a] al ap d that by auto
    qed
    have l3: "l3_pages (mem ?s) ?h ?f = l3_pages (mem s) ?h ?f"
      by (rule l3_pages_cong) (simp_all add: same g)
    have "fold (l3_step (?f + hhdm_base ?s)) [0..<512] ?s = free_all (l3_pages (mem ?s) (hhdm_base ?s) ?f) ?s"
      by (rule l3_fold) (use al d in \<open>simp_all add: l3 g\<close>)
    then have inner: "fold (l3_step (ptov ?s ?f)) [0..<512] ?s = free_all (?xs @ l3_pages (mem s) ?h ?f) ?c"
      by (simp add: ptov_def l3)
    have f2: "pte_frame (get_pte (mem ?s) (root + ?h) (of_nat n)) = ?f" by (rule f1) simp
    have f3: "pte_frame (get_pte (mem (free_all (?xs @ l3_pages (mem s) ?h ?f) ?c)) (root + ?h) (of_nat n)) = ?f"
      by (rule f1) (auto simp: g)
    have "l4_step (root + ?h) n (free_all ?xs (clear_root root n s)) =
        pmem_free ?f (free_all (?xs @ l3_pages (mem s) ?h ?f) ?c)"
      using True e0 by (simp only: l4_step_def Let_def upd f2 inner f3 if_True)
    then show ?thesis using IH by (simp add: g)
  qed
qed (simp add: clear_root_def)

lemma unmap_lower_half_eq:
  assumes "aligned 12 (hhdm_base s)" "aligned 12 root"
    and "distinct (lower_tables (mem s) (hhdm_base s) root @ [root])"
  shows "unmap_lower_half root s =
    write_cr3 (cr3 s) (free_all (lower_tables (mem s) (hhdm_base s) root) (clear_root root 256 s))"
  using l4_fold [OF assms order_refl]
  by (simp add: unmap_lower_half_def Let_def ptov_def read_cr3_def lower_tables_def)

section \<open>The lower half after unmapping\<close>

text \<open>
  What unmapping relies on: the free list holds \<open>ps\<close>, the tables \<open>ts\<close> below the lower half
  of \<open>root\<close> form a tree, and tables, root, free pages and text buffer are apart.
\<close>

definition handover :: "'a kmem_scheme \<Rightarrow> u64 \<Rightarrow> u64 list \<Rightarrow> u64 list \<Rightarrow> bool" where
  "handover s root ts ps \<longleftrightarrow>
     pmem_rep s ps \<and> aligned 12 (hhdm_base s) \<and> aligned 12 root \<and> ts = lower_tables (mem s) (hhdm_base s) root \<and>
     distinct (ts @ [root] @ ps) \<and> (\<forall>t \<in> set ts. page_ok s t) \<and> 0 \<notin> set (ts @ ps) \<and>
     term_inv s \<and> term_ptr s = VGA_BUFFER + hhdm_base s \<and> VGA_BUFFER \<notin> set (ts @ [root] @ ps)"

lemma depth_index_0_lower: "lower_half va \<Longrightarrow> unat (depth_index va 0) < 256"
proof -
  assume low: "lower_half va"
  have "\<not> bit (depth_index va 0) n" if "8 \<le> n" for n
  proof -
    have "\<not> bit va (47 + (n - 8))"
    proof -
      have "bit (drop_bit 47 va) (n - 8) = bit (0 :: u64) (n - 8)" using low by (simp only: lower_half_def)
      then show ?thesis by (simp add: bit_drop_bit_eq)
    qed
    then show ?thesis using that by (simp add: depth_index_def bit_table_index)
  qed
  then have "take_bit 8 (depth_index va 0) = depth_index va 0"
    by (intro bit_word_eqI) (metis bit_take_bit_iff not_less)
  moreover have "take_bit 8 (depth_index va 0) < 2 ^ 8"
    by (simp add: take_bit_eq_mod word_less_nat_alt unat_mod)
  ultimately have "depth_index va 0 < 2 ^ 8" by simp
  then show ?thesis by (simp add: word_less_nat_alt)
qed

lemma unmapped_lower:
  assumes ho: "handover s root ts ps"
  defines "s' \<equiv> unmap_lower_half root s"
  shows "vm_inv s' root (rev ts @ ps)"
    "\<And>va. lower_half va \<Longrightarrow> leaf_of s' root va = None \<and> missing_of s' root va = 4"
    "\<And>j. 256 \<le> j \<Longrightarrow> j < 512 \<Longrightarrow> get_pte (mem s') (root + hhdm_base s) (of_nat j) = get_pte (mem s) (root + hhdm_base s) (of_nat j)"
    "\<And>a. aligned 12 a \<Longrightarrow> a \<noteq> root \<Longrightarrow> a \<notin> set ts \<Longrightarrow> page_same (mem s) (mem s') (a + hhdm_base s)"
    "free_page_counter s' = free_page_counter s + of_nat (length ts)"
    "hhdm_base s' = hhdm_base s" "cr3 s' = cr3 s" "cr0 s' = cr0 s" "kmem.more s' = kmem.more s"
proof -
  note H = ho [unfolded handover_def]
  let ?h = "hhdm_base s"
  let ?c = "clear_root root 256 s"
  have s': "s' = write_cr3 (cr3 s) (free_all ts ?c)"
    unfolding s'_def using H unmap_lower_half_eq [of s root] by auto
  have tsa: "\<forall>p \<in> set ts. aligned 12 p" using H lower_tables_aligned by blast
  have al: "aligned 12 ?h" "aligned 12 root" using H by simp_all
  have cp: "page_same (mem s) (mem ?c) (a + ?h)" if "aligned 12 a" "a \<noteq> root" for a
    using clear_root_mem(2) [OF al, of 256 a] that by simp
  have fp: "page_same (mem ?c) (mem s') (a + ?h)" if "aligned 12 a" "a \<notin> set ts" for a
    using free_all_page_same [of ?c ts a] that al tsa by (simp add: s' write_cr3_def)
  show same: "page_same (mem s) (mem s') (a + ?h)" if "aligned 12 a" "a \<noteq> root" "a \<notin> set ts" for a
    using page_same_trans [OF cp fp] that by blast
  have root: "get_pte (mem s') (root + ?h) (of_nat j) =
      (let e = get_pte (mem s) (root + ?h) (of_nat j) in if j < 256 then e\<lparr>pte_present := False\<rparr> else e)" if "j < 512" for j
    using get_pte_page_same [OF fp of_nat_512 [OF that], of root] clear_root_mem(1) [OF al, of 256 j] that H by auto
  then show "get_pte (mem s') (root + ?h) (of_nat j) = get_pte (mem s) (root + ?h) (of_nat j)"
    if "256 \<le> j" "j < 512" for j using that by simp
  show "hhdm_base s' = hhdm_base s" "cr3 s' = cr3 s" "cr0 s' = cr0 s" "kmem.more s' = kmem.more s"
    by (simp_all add: s' write_cr3_def)
  show "free_page_counter s' = free_page_counter s + of_nat (length ts)"
    by (simp add: s' write_cr3_def free_all_counter)
  have empty: "\<not> pte_present (get_pte (mem s') (root + ?h) (depth_index va 0))" if "lower_half va" for va
    using root [of "unat (depth_index va 0)"] depth_index_0_lower [OF that] by (simp add: Let_def)
  note E = empty_root [OF al, of "mem s'", OF empty]
  show "leaf_of s' root va = None \<and> missing_of s' root va = 4" if "lower_half va" for va
    using E(4,5) [OF _ that] \<open>hhdm_base s' = hhdm_base s\<close> by simp
  have crep: "pmem_rep ?c ps"
    by (rule pmem_rep_cong [of s]) (use H cp in \<open>auto simp: pmem_rep_def page_ok_def\<close>)
  have "pmem_rep (free_all (rev (rev ts)) ?c) (rev ts @ ps)"
    by (rule pmem.free_many_rep [OF crep]) (use H in \<open>auto simp: page_ok_def\<close>)
  then have "pmem_rep s' (rev ts @ ps)"
    by (simp add: s' write_cr3_def pmem_rep_def page_ok_def)
  moreover have "term_inv (write_cr3 v c) = term_inv c" "term_ptr (write_cr3 v c) = term_ptr c"
    for v and c :: "'a kmem_scheme" by (simp_all add: write_cr3_def term_inv_def)
  then have "term_inv s' = term_inv s" "term_ptr s' = term_ptr s"
    by (simp_all add: s')
  moreover have "term_inv s" "term_ptr s = VGA_BUFFER + ?h" "root \<noteq> VGA_BUFFER" "VGA_BUFFER \<notin> set (rev ts @ ps)"
    "0 \<notin> set (rev ts @ ps)" "root \<notin> set (rev ts @ ps)"
    using H by auto
  ultimately show "vm_inv s' root (rev ts @ ps)"
    using E(1-3) \<open>hhdm_base s' = hhdm_base s\<close> \<open>term_inv s' = term_inv s\<close> \<open>term_ptr s' = term_ptr s\<close> by (simp add: vm_inv_def)
qed

section \<open>The memory map\<close>

definition region_pages :: "u64 \<Rightarrow> u64 \<Rightarrow> u64 list" where
  "region_pages b l = map (\<lambda>k. b + of_nat k * 0x1000) [0..<unat l div 0x1000]"

definition usable_pages :: "mmap_entry list \<Rightarrow> u64 list" where
  "usable_pages es = concat (map (\<lambda>e. if mmap_type e = 1 then region_pages (mmap_base e) (mmap_length e) else []) es)"

text \<open>Freeing with the second increment of the counter that \<open>mem_init\<close> makes.\<close>

definition free_counted :: "u64 list \<Rightarrow> 'a kmem_scheme \<Rightarrow> 'a kmem_scheme" where
  "free_counted ps s =
     (free_all ps s)\<lparr>free_page_counter := free_page_counter s + 2 * of_nat (length ps)\<rparr>"

lemma pmem_free_counter: "pmem_free p (s\<lparr>free_page_counter := c\<rparr>) = (pmem_free p s)\<lparr>free_page_counter := c + 1\<rparr>"
  by (simp add: pmem_free_def Let_def)

lemma free_all_counter_upd: "free_all ps (s\<lparr>free_page_counter := c\<rparr>) = (free_all ps s)\<lparr>free_page_counter := c + of_nat (length ps)\<rparr>"
  by (induction ps arbitrary: s c) (simp_all add: pmem_free_counter add.assoc)

lemma free_counted_simps:
  "free_counted [] s = s"
  "free_counted (p # ps) s = free_counted ps ((pmem_free p s)\<lparr>free_page_counter := free_page_counter s + 1 + 1\<rparr>)"
  "free_counted (ps @ qs) s = free_counted qs (free_counted ps s)"
  by (simp_all add: free_counted_def free_all_counter_upd algebra_simps)

lemma region_pages_Suc:
  assumes "unat l div 0x1000 = Suc n" "unat l mod 0x1000 = 0"
  shows "region_pages b l = b # region_pages (b + 0x1000) (l - 0x1000)"
    "unat (l - 0x1000) = unat l - 0x1000" "0x1000 \<le> unat l"
proof -
  have le: "0x1000 \<le> unat l" using assms by (metis div_eq_0_iff not_less nat.distinct(1) zero_neq_numeral)
  then have sub: "unat (l - 0x1000) = unat l - 0x1000"
    by (simp add: unat_sub word_le_nat_alt)
  show "0x1000 \<le> unat l" by (rule le)
  show "unat (l - 0x1000) = unat l - 0x1000" by (rule sub)
  have "unat (l - 0x1000) div 0x1000 = n" using assms(1) le by (simp add: sub)
  then show "region_pages b l = b # region_pages (b + 0x1000) (l - 0x1000)"
    unfolding region_pages_def assms(1) upt_conv_Cons [OF zero_less_Suc] map_Suc_upt [symmetric]
    by (simp add: algebra_simps)
qed

lemma free_region_pages:
  assumes "unat l mod 0x1000 = 0" "unat b + unat l < 2 ^ 64"
  shows "free_region b (b + l) s = Some (free_counted (region_pages b l) s)"
  using assms
proof (induction "unat l div 0x1000" arbitrary: b l s)
  case 0
  then have "unat l = 0" by (metis add.right_neutral mult_0_right mult_div_mod_eq)
  then have "l = 0" by (simp add: unat_eq_0)
  then show ?case by (subst free_region.simps) (simp add: region_pages_def free_counted_simps)
next
  case (Suc n)
  note R = region_pages_Suc(1) [OF Suc.hyps(2) [symmetric] Suc.prems(1), of b]
    region_pages_Suc(2,3) [OF Suc.hyps(2) [symmetric] Suc.prems(1)]
  have b: "unat (b + 0x1000) = unat b + 0x1000" using Suc.prems(2) R(3) by (simp add: unat_word_ariths)
  have less: "b < b + l" using Suc.prems(2) R(3) by (simp add: word_less_nat_alt unat_word_ariths)
  have "free_region (b + 0x1000) (b + 0x1000 + (l - 0x1000)) s' = Some (free_counted (region_pages (b + 0x1000) (l - 0x1000)) s')" for s' :: "'a kmem_scheme"
  proof (rule Suc.hyps(1))
    show "n = unat (l - 0x1000) div 0x1000" using Suc.hyps(2) R(2,3) by simp
    show "unat (l - 0x1000) mod 0x1000 = 0" using Suc.prems(1) le_mod_geq [OF R(3)] R(2) by simp
    show "unat (b + 0x1000) + unat (l - 0x1000) < 2 ^ 64" using Suc.prems(2) R(2,3) b by simp
  qed
  then show ?case
    using less by (subst free_region.simps) (simp add: R(1) free_counted_simps pmem_free_def Let_def)
qed

text \<open>
  The memory map at \<open>memmap\<close> reads as the entries \<open>es\<close>; it lies in the upper half and not in
  the first bytes of a page it calls usable, and its usable regions are whole pages.
\<close>

definition memmap_at :: "'a machine_scheme \<Rightarrow> u64 \<Rightarrow> mmap_entry list \<Rightarrow> bool" where
  "memmap_at s memmap es \<longleftrightarrow> memmap_entries s memmap = Some (of_nat (length es)) \<and>
     (\<forall>k < length es. memmap_entry s memmap (of_nat k) = Some (es ! k))"

definition memmap_ok :: "'a machine_scheme \<Rightarrow> u64 \<Rightarrow> mmap_entry list \<Rightarrow> bool" where
  "memmap_ok s memmap es \<longleftrightarrow>
     memmap_at s memmap es \<and> 0xFFFF800000000000 \<le> memmap \<and> unat memmap + 24 * length es + 24 < 2 ^ 64 \<and>
     (\<forall>p \<in> set (usable_pages es). \<forall>x < 24 + 24 * length es. \<forall>i < 8. memmap + of_nat x \<noteq> p + hhdm_base s + of_nat i) \<and>
     (\<forall>e \<in> set es. mmap_type e = 1 \<longrightarrow> unat (mmap_length e) mod 0x1000 = 0 \<and> unat (mmap_base e) + unat (mmap_length e) < 2 ^ 64)"

lemma free_all_byte:
  "(\<And>p i. p \<in> set ps \<Longrightarrow> i < 8 \<Longrightarrow> b \<noteq> p + hhdm_base s + of_nat i) \<Longrightarrow> mem (free_all ps s) b = mem s b"
proof (induction ps arbitrary: s)
  case (Cons p ps)
  have h: "hhdm_base (pmem_free p s) = hhdm_base s" by (simp add: pmem_free_def Let_def)
  have "mem (free_all ps (pmem_free p s)) b = mem (pmem_free p s) b"
    by (rule Cons.IH) (use Cons.prems in \<open>simp add: h\<close>)
  also have "\<dots> = mem s b"
    using Cons.prems store64_other_byte [of b "p + hhdm_base s"] by (simp add: pmem_free_def Let_def)
  finally show ?case by simp
qed simp

lemma vload_same:
  assumes "\<And>i. i < n \<Longrightarrow> upper_half (a + of_nat i)" "\<And>i. i < n \<Longrightarrow> mem s' (a + of_nat i) = mem s (a + of_nat i)"
  shows "vload s' a n = vload s a n"
  using assms by (simp add: vload_upper load_bytes_cong [of n "mem s'" a "mem s"])

lemma memmap_at_freed:
  assumes ok: "memmap_ok s memmap es" and sub: "set ps \<subseteq> set (usable_pages es)"
  shows "memmap_at (free_counted ps s) memmap es"
proof -
  let ?s = "free_counted ps s"
  note M = ok [unfolded memmap_ok_def]
  have b: "upper_half (memmap + of_nat x)" "mem ?s (memmap + of_nat x) = mem s (memmap + of_nat x)"
    if x: "x < 24 + 24 * length es" for x
  proof -
    have "unat (memmap + of_nat x) = unat memmap + x"
      using M x by (simp add: unat_word_ariths unat_of_nat)
    then show "upper_half (memmap + of_nat x)" using M by (simp add: upper_half_iff word_le_nat_alt)
    show "mem ?s (memmap + of_nat x) = mem s (memmap + of_nat x)"
      unfolding free_counted_def using M sub x
      by (simp, intro free_all_byte) blast
  qed
  have v: "vload ?s (memmap + of_nat y) n = vload s (memmap + of_nat y) n" if "y + n \<le> 24 + 24 * length es" for y n
  proof (rule vload_same)
    fix i assume "i < n"
    then show "upper_half (memmap + of_nat y + of_nat i)"
      "mem ?s (memmap + of_nat y + of_nat i) = mem s (memmap + of_nat y + of_nat i)"
      using b [of "y + i"] that by (simp_all add: add.assoc)
  qed
  have "memmap_entries ?s memmap = memmap_entries s memmap"
    using v [of 16 8] by (simp add: memmap_entries_def)
  moreover have "memmap_entry ?s memmap (of_nat k) = memmap_entry s memmap (of_nat k)" if "k < length es" for k
    using v [of "24 + 24 * k" 8] v [of "32 + 24 * k" 8] v [of "40 + 24 * k" 4] that
    by (simp add: memmap_entry_def add.assoc)
  ultimately show ?thesis using M by (simp add: memmap_at_def)
qed

lemma usable_pages_take:
  "k < length es \<Longrightarrow> usable_pages (take (Suc k) es) =
     usable_pages (take k es) @ (if mmap_type (es ! k) = 1 then region_pages (mmap_base (es ! k)) (mmap_length (es ! k)) else [])"
  by (simp add: usable_pages_def take_Suc_conv_app_nth)

lemma usable_pages_take_subset: "set (usable_pages (take k es)) \<subseteq> set (usable_pages es)"
  using set_take_subset [of k es] by (auto simp: usable_pages_def)

lemma memmap_loop_frees:
  assumes ok: "memmap_ok s memmap es" and "k \<le> length es"
  shows "memmap_loop memmap (of_nat k) (free_counted (usable_pages (take k es)) s) = Some (free_counted (usable_pages es) s)"
  using assms(2)
proof (induction "length es - k" arbitrary: k)
  case 0
  have "memmap_at (free_counted (usable_pages (take k es)) s) memmap es"
    by (rule memmap_at_freed [OF ok usable_pages_take_subset])
  then show ?case using 0 by (subst memmap_loop.simps) (simp add: memmap_at_def)
next
  case (Suc n)
  let ?s = "free_counted (usable_pages (take k es)) s"
  have k: "k < length es" using Suc.hyps(2) by simp
  have at: "memmap_at ?s memmap es" by (rule memmap_at_freed [OF ok usable_pages_take_subset])
  have "length es < 2 ^ 64" using ok by (simp add: memmap_ok_def)
  then have less: "(of_nat k :: u64) < of_nat (length es)"
    using k by (simp add: word_less_nat_alt unat_of_nat)
  have e: "memmap_entry ?s memmap (of_nat k) = Some (es ! k)" "memmap_entries ?s memmap = Some (of_nat (length es))"
    using at k by (simp_all add: memmap_at_def)
  have "(if mmap_type (es ! k) = 1 then free_region (mmap_base (es ! k)) (mmap_base (es ! k) + mmap_length (es ! k)) ?s else Some ?s)
      = Some (free_counted (usable_pages (take (Suc k) es)) s)"
    using free_region_pages [of "mmap_length (es ! k)" "mmap_base (es ! k)" ?s] ok k
    by (simp add: usable_pages_take free_counted_simps memmap_ok_def)
  moreover have "memmap_loop memmap (of_nat (Suc k)) (free_counted (usable_pages (take (Suc k) es)) s) =
      Some (free_counted (usable_pages es) s)"
    by (rule Suc.hyps(1)) (use Suc.hyps(2) k in simp_all)
  ultimately show ?case
    using less e by (subst memmap_loop.simps) (simp add: add.commute)
qed

section \<open>Taking over memory\<close>

lemma lower_tables_cong:
  assumes "page_same m m' (root + h)" "\<And>p. p \<in> set (lower_tables m h root) \<Longrightarrow> page_same m m' (p + h)"
  shows "lower_tables m' h root = lower_tables m h root"
proof -
  have "l4_group m' h root i = l4_group m h root i" if i: "i < 256" for i
  proof -
    have "i < 512" using i by simp
    then have e: "get_pte m' (root + h) (of_nat i) = get_pte m (root + h) (of_nat i)"
      by (rule get_pte_page_same [OF assms(1) of_nat_512])
    show ?thesis
    proof (cases "pte_present (get_pte m (root + h) (of_nat i))")
      case True
      let ?f = "pte_frame (get_pte m (root + h) (of_nat i))"
      have "set (l4_group m h root i) \<subseteq> set (lower_tables m h root)" using i by (fastforce simp: lower_tables_def)
      moreover have g: "l4_group m h root i = l3_pages m h ?f @ [?f]" using True by (simp add: l4_group_def Let_def)
      ultimately have "l3_pages m' h ?f = l3_pages m h ?f"
        by (intro l3_pages_cong) (use assms(2) in auto)
      then show ?thesis unfolding g using True by (simp add: l4_group_def e Let_def)
    next
      case False
      then show ?thesis by (simp add: l4_group_def e Let_def)
    qed
  qed
  then have "map (l4_group m' h root) [0..<256] = map (l4_group m h root) [0..<256]" by (intro map_cong) simp_all
  then show ?thesis by (simp only: lower_tables_def)
qed

lemma handover_freed:
  assumes ho: "handover s root ts []" and "distinct us" "set us \<inter> set ts = {}" "root \<notin> set us"
    "\<forall>p \<in> set us. page_ok s p" "0 \<notin> set us" "VGA_BUFFER \<notin> set us"
  shows "handover (free_counted us s) root ts (rev us)"
proof -
  note H = ho [unfolded handover_def]
  let ?s = "free_counted us s"
  have f: "hhdm_base ?s = hhdm_base s" "term_inv ?s = term_inv s" "term_ptr ?s = term_ptr s"
    using free_all_frame(1,5,6) [of us s] by (simp_all add: free_counted_def term_inv_def)
  have al: "aligned 12 (hhdm_base s)" "\<forall>p \<in> set us. aligned 12 p" using H assms(5) by (simp_all add: page_ok_def)
  have same: "page_same (mem s) (mem ?s) (a + hhdm_base s)" if "aligned 12 a" "a \<notin> set us" for a
    using free_all_page_same [OF al that] by (simp add: free_counted_def)
  have "lower_tables (mem ?s) (hhdm_base s) root = lower_tables (mem s) (hhdm_base s) root"
    by (rule lower_tables_cong) (use same H assms lower_tables_aligned in blast)+
  moreover have "pmem_rep (free_all (rev (rev us)) s) (rev us @ [])"
    by (rule pmem.free_many_rep) (use H assms in auto)
  then have "pmem_rep ?s (rev us)" by (simp add: free_counted_def pmem_rep_def page_ok_def)
  ultimately show ?thesis
    using H assms f by (auto simp: handover_def page_ok_def)
qed

text \<open>
  The state in which the bootloader enters the kernel, as far as \<open>mem_init\<close> reads it: the
  direct map is at \<open>h\<close>, the memory map lists \<open>es\<close>, the tables of the lower half are \<open>ts\<close>, and
  the usable pages are apart from each other, from the tables and from the text buffer.
\<close>

definition boot_memory :: "'a boot_scheme \<Rightarrow> u64 \<Rightarrow> u64 \<Rightarrow> mmap_entry list \<Rightarrow> u64 list \<Rightarrow> bool" where
  "boot_memory s h memmap es ts \<longleftrightarrow>
     get_hhdm s = Some h \<and> find_tag (s\<lparr>hhdm_base := h\<rparr>) (hdr s) STIVALE2_STRUCT_TAG_MEMMAP_ID = Some memmap \<and>
     memmap_ok (s\<lparr>hhdm_base := h\<rparr>) memmap es \<and> handover (s\<lparr>hhdm_base := h\<rparr>) (cr3 s) ts [] \<and>
     distinct (usable_pages es) \<and> set (usable_pages es) \<inter> set ts = {} \<and> cr3 s \<notin> set (usable_pages es) \<and>
     (\<forall>p \<in> set (usable_pages es). page_ok (s\<lparr>hhdm_base := h\<rparr>) p) \<and>
     0 \<notin> set (usable_pages es) \<and> VGA_BUFFER \<notin> set (usable_pages es)"

lemma mem_init_spec:
  assumes "boot_memory s h memmap es ts"
  shows "\<exists>s'. mem_init s = Some s' \<and> hhdm_base s' = h \<and> cr3 s' = cr3 s \<and>
    vm_inv s' (cr3 s) (rev ts @ rev (usable_pages es)) \<and>
    (\<forall>va. lower_half va \<longrightarrow> leaf_of s' (cr3 s) va = None) \<and>
    free_page_counter s' = free_page_counter s + 2 * of_nat (length (usable_pages es)) + of_nat (length ts)"
proof -
  note B = assms [unfolded boot_memory_def]
  let ?s = "s\<lparr>hhdm_base := h\<rparr>"
  let ?s1 = "free_counted (usable_pages es) ?s"
  have f1: "hhdm_base ?s1 = h" "cr3 ?s1 = cr3 s"
    by (simp_all add: free_counted_def)
  have loop: "memmap_loop memmap 0 ?s = Some ?s1"
    using memmap_loop_frees [of ?s memmap es 0] B by (simp add: usable_pages_def free_counted_simps)
  have ho: "handover ?s1 (cr3 s) ts (rev (usable_pages es))"
    by (rule handover_freed) (use B in auto)
  define s2 where "s2 = unmap_lower_half (cr3 s) ?s1"
  note U = unmapped_lower [OF ho, folded s2_def]
  obtain out where out: "kprintf ''number of free pages are: %d\<newline>'' [Va_int (ucast (free_page_counter s2))] s2 = Some (term_puts out s2)"
  proof -
    have "fmt_out ''number of free pages are: %d\<newline>'' [Va_int (ucast (free_page_counter s2))] \<noteq> None"
      by (simp add: conv_out_def)
    then obtain out where "fmt_out ''number of free pages are: %d\<newline>'' [Va_int (ucast (free_page_counter s2))] = Some out"
      by blast
    then show thesis
      using that kprintf_out [of "[Va_int (ucast (free_page_counter s2))]" "''number of free pages are: %d\<newline>''" s2]
      by (simp add: lit_args_def del: fmt_out.simps)
  qed
  have run: "mem_init s = Some (term_puts out s2)"
    using B loop out f1 by (simp add: mem_init_def read_cr3_def s2_def)
  note P = vm_inv_puts [OF U(1), where cs = out]
  have "free_page_counter s2 = free_page_counter s + 2 * of_nat (length (usable_pages es)) + of_nat (length ts)"
    using U(5) by (simp add: free_counted_def)
  then show ?thesis
    using run P U f1 by (intro exI [of _ "term_puts out s2"]) simp
qed

end
