(* ===== verification/TableTree.thy ===== *)
theory TableTree
  imports MemInit
begin

text \<open>
  The two readings of the tables of the lower half agree: on a well-formed address space
  without large pages the list \<open>lower_tables\<close> that \<open>unmap_lower_half\<close> frees holds each
  table that \<open>vm_map\<close> and the processor can reach below the root, once. So what a mapping
  took for its tables an unmapping gives back.
\<close>

section \<open>An address with a chosen index\<close>

definition with_field :: "u64 \<Rightarrow> nat \<Rightarrow> u64 \<Rightarrow> u64" where
  "with_field va k j = (va AND NOT (push_bit k (mask 9))) OR push_bit k j"

definition with_index :: "u64 \<Rightarrow> nat \<Rightarrow> u64 \<Rightarrow> u64" where
  "with_index va d j = with_field va (39 - 9 * d) j"

lemma bit_small_index: "j < 512 \<Longrightarrow> bit (j :: u64) n \<Longrightarrow> n < 9"
proof -
  assume "j < 512" "bit j n"
  then have "take_bit 9 j = j" by (simp add: take_bit_less_self)
  with \<open>bit j n\<close> show "n < 9" by (metis bit_take_bit_iff)
qed

lemma bit_with_field:
  assumes "j < 512" "n < 64"
  shows "bit (with_field va k j) n \<longleftrightarrow> (if k \<le> n \<and> n < k + 9 then bit j (n - k) else bit va n)"
proof (cases "k \<le> n \<and> n < k + 9")
  case True
  then have "n - k < 9" by auto
  then show ?thesis using True assms(2)
    by (simp add: with_field_def bit_or_iff bit_and_iff bit_not_iff bit_push_bit_iff bit_mask_iff)
next
  case False
  then have "\<not> (k \<le> n \<and> n - k < 9)" by auto
  moreover have "\<not> (k \<le> n \<and> bit j (n - k))" using calculation bit_small_index [OF assms(1)] by blast
  ultimately show ?thesis using False assms(2)
    by (auto simp: with_field_def bit_or_iff bit_and_iff bit_not_iff bit_push_bit_iff bit_mask_iff)
qed

lemma depth_index_bit:
  "k < 4 \<Longrightarrow> bit (depth_index va k) n \<longleftrightarrow> n < 9 \<and> bit va (39 - 9 * k + n)"
proof -
  assume "k < 4"
  then have "9 * (4 - k) + 3 + n = 39 - 9 * k + n" by simp
  with \<open>k < 4\<close> show ?thesis by (simp add: depth_index_def bit_table_index)
qed

lemma with_index_same:
  assumes "d < 4" "j < 512"
  shows "depth_index (with_index va d j) d = j"
proof (rule bit_word_eqI)
  fix n
  define k where "k = 39 - 9 * d"
  have "k + n < 64" if "n < 9" using that by (simp add: k_def)
  then have "n < 9 \<and> bit (with_field va k j) (k + n) \<longleftrightarrow> n < 9 \<and> bit j n"
    using bit_with_field [OF assms(2), of "k + n"] by auto
  also have "\<dots> \<longleftrightarrow> bit j n" using bit_small_index [OF assms(2)] by blast
  finally show "bit (depth_index (with_index va d j) d) n = bit j n"
    using assms(1) by (simp add: depth_index_bit with_index_def k_def)
qed

lemma with_index_other:
  assumes "k < 4" "d < 4" "k \<noteq> d" "j < 512"
  shows "depth_index (with_index va d j) k = depth_index va k"
proof (rule bit_word_eqI)
  fix n
  define a b where "a = 39 - 9 * k" and "b = 39 - 9 * d"
  have "a + 9 \<le> b \<or> b + 9 \<le> a" using assms(1-3) unfolding a_def b_def by linarith
  then have "\<not> (b \<le> a + n \<and> a + n < b + 9)" if "n < 9" using that by auto
  moreover have "a + n < 64" if "n < 9" using that by (simp add: a_def)
  ultimately have "n < 9 \<Longrightarrow> bit (with_field va b j) (a + n) = bit va (a + n)"
    using bit_with_field [OF assms(4), of "a + n"] by auto
  then show "bit (depth_index (with_index va d j) k) n = bit (depth_index va k) n"
    using assms(1) by (auto simp: depth_index_bit with_index_def a_def b_def)
qed

lemma lower_half_bits: "lower_half va \<longleftrightarrow> (\<forall>n. \<not> bit va (47 + n))"
proof
  assume "lower_half va"
  then have "bit (drop_bit 47 va) n = bit (0 :: u64) n" for n by (simp only: lower_half_def)
  then show "\<forall>n. \<not> bit va (47 + n)" by (simp add: bit_drop_bit_eq)
next
  assume "\<forall>n. \<not> bit va (47 + n)"
  then show "lower_half va"
    unfolding lower_half_def by (intro bit_word_eqI) (simp add: bit_drop_bit_eq)
qed

lemma lower_with_index:
  assumes "lower_half va" "d < 4" "j < 512" "d = 0 \<longrightarrow> j < 256"
  shows "lower_half (with_index va d j)"
  unfolding lower_half_bits
proof
  fix n
  define k where "k = 39 - 9 * d"
  have va: "\<not> bit va (47 + n)" using assms(1) by (simp add: lower_half_bits)
  show "\<not> bit (with_index va d j) (47 + n)"
  proof (cases "47 + n < 64 \<and> k \<le> 47 + n \<and> 47 + n < k + 9")
    case True
    then have "k = 39" "n = 0" by (auto simp: k_def)
    then have "d = 0" using assms(2) by (auto simp: k_def)
    then have "take_bit 8 j = j" using assms(4) by (simp add: take_bit_less_self)
    then have "\<not> bit j 8" by (metis bit_take_bit_iff less_irrefl)
    then show ?thesis
      using bit_with_field [OF assms(3), of 47 va 39] \<open>k = 39\<close> \<open>n = 0\<close>
      by (simp add: with_index_def k_def)
  next
    case False
    then show ?thesis
      using bit_with_field [OF assms(3), of "47 + n" va k] va bit_imp_le_length [of "with_field va k j" "47 + n"]
      by (auto simp: with_index_def k_def)
  qed
qed

lemma exists_index:
  assumes "lower_half va" "d < 4" "j < 512" "d = 0 \<longrightarrow> j < 256"
  shows "\<exists>va'. lower_half va' \<and> agree d va va' \<and> depth_index va' d = j"
  by (rule exI [of _ "with_index va d j"])
    (use assms in \<open>simp add: lower_with_index with_index_same agree_def with_index_other\<close>)

section \<open>The list and the tree\<close>

lemma in_concat_upt: "x \<in> set (concat (map g [0..<n])) \<longleftrightarrow> (\<exists>i < n. x \<in> set (g i))"
  by auto

lemma distinct_groups:
  "(\<And>i. i < n \<Longrightarrow> distinct (g i)) \<Longrightarrow> (\<And>i j x. i < n \<Longrightarrow> j < n \<Longrightarrow> x \<in> set (g i) \<Longrightarrow> x \<in> set (g j) \<Longrightarrow> i = j) \<Longrightarrow>
   distinct (concat (map g [0..<n]))"
proof (induction n)
  case (Suc n)
  have "x \<notin> set (g n)" if "i < n" "x \<in> set (g i)" for i x
    using Suc.prems(2) [of i n x] that by auto
  then have "set (concat (map g [0..<n])) \<inter> set (g n) = {}" by auto
  moreover have "distinct (concat (map g [0..<n]))"
    by (rule Suc.IH) (use Suc.prems in \<open>auto intro: less_SucI\<close>)
  ultimately show ?case using Suc.prems(1) [of n] by simp
qed simp

lemma reach_entry:
  assumes "lower_half va" "pt_base m h root va d = Some t" "d < 4" "i < 512" "d = 0 \<longrightarrow> i < 256"
    and "pte_present (get_pte m (t + h) (of_nat i))"
  shows "\<exists>va'. lower_half va' \<and> agree d va va' \<and> depth_index va' d = of_nat i \<and>
    pt_base m h root va' (Suc d) = Some (pte_frame (get_pte m (t + h) (of_nat i)))"
proof -
  have "d = 0 \<longrightarrow> (of_nat i :: u64) < 256" using assms(4,5) by (simp add: word_less_nat_alt unat_of_nat)
  then obtain va' where va': "lower_half va'" "agree d va va'" "depth_index va' d = of_nat i"
    using exists_index [OF assms(1,3) of_nat_512 [OF assms(4)]] by blast
  then have "pt_base m h root va' d = Some t" using pt_base_agree [OF va'(2), of m h root] assms(2) by simp
  then show ?thesis using va' assms(6) by (intro exI [of _ va']) simp
qed

lemma base_SucD:
  assumes "pt_base m h root va (Suc d) = Some x"
  shows "\<exists>t. pt_base m h root va d = Some t \<and> pte_present (get_pte m (t + h) (depth_index va d)) \<and>
    x = pte_frame (get_pte m (t + h) (depth_index va d))"
  using assms by (auto simp: Let_def split: option.splits if_splits)

lemma small_entry:
  "pt_open m h root \<Longrightarrow> lower_half va \<Longrightarrow> d \<in> {1, 2} \<Longrightarrow> pt_base m h root va d = Some t \<Longrightarrow>
   \<not> pte_page_size (get_pte m (t + h) (depth_index va d))"
  unfolding pt_open_def by fastforce

lemma l2_group_reach:
  assumes "lower_half va" "pt_base m h root va 2 = Some t" "i < 512" "x \<in> set (l2_group m h t i)"
  shows "\<exists>va'. lower_half va' \<and> agree 2 va va' \<and> depth_index va' 2 = of_nat i \<and> pt_base m h root va' 3 = Some x"
proof -
  have "pte_present (get_pte m (t + h) (of_nat i))" "x = pte_frame (get_pte m (t + h) (of_nat i))"
    using assms(4) by (auto simp: l2_group_def Let_def split: if_splits)
  then show ?thesis using reach_entry [OF assms(1,2) _ assms(3)] by (simp add: numeral_3_eq_3 numeral_2_eq_2)
qed

lemma l2_pages_reach:
  "lower_half va \<Longrightarrow> pt_base m h root va 2 = Some t \<Longrightarrow> x \<in> set (l2_pages m h t) \<Longrightarrow>
   \<exists>va'. lower_half va' \<and> agree 2 va va' \<and> pt_base m h root va' 3 = Some x"
  unfolding l2_pages_def using l2_group_reach by fastforce

lemma l2_pages_all:
  assumes "pt_open m h root" "lower_half va'" "pt_base m h root va' 2 = Some t" "pt_base m h root va' 3 = Some x"
  shows "x \<in> set (l2_pages m h t)"
proof -
  have "pt_base m h root va' (Suc 2) = Some x" using assms(4) by simp
  from base_SucD [OF this] assms(3) have "x \<in> set (l2_group m h t (unat (depth_index va' 2)))"
    using small_entry [OF assms(1,2) _ assms(3)] by (auto simp: l2_group_def Let_def)
  moreover have "unat (depth_index va' 2) < 512" using depth_index_less [of 2 va'] by (simp add: word_less_nat_alt)
  ultimately show ?thesis by (auto simp: l2_pages_def)
qed

lemma l2_pages_distinct:
  assumes "pt_wf m h root" "lower_half va" "pt_base m h root va 2 = Some t"
  shows "distinct (l2_pages m h t)"
  unfolding l2_pages_def
proof (rule distinct_groups)
  fix i j :: nat and x assume i: "i < 512" "j < 512" "x \<in> set (l2_group m h t i)" "x \<in> set (l2_group m h t j)"
  obtain a b where ab: "lower_half a" "depth_index a 2 = of_nat i" "pt_base m h root a 3 = Some x"
    "lower_half b" "depth_index b 2 = of_nat j" "pt_base m h root b 3 = Some x"
    using l2_group_reach [OF assms(2,3) i(1,3)] l2_group_reach [OF assms(2,3) i(2,4)] by blast
  then have "agree 3 a b" using no_shareD(2) [OF assms(1) ab(1,4), of 3 3 x] by simp
  then have "(of_nat i :: u64) = of_nat j" using ab by (simp add: agree_def)
  then show "i = j" using of_nat_inj_512 i by blast
qed (simp add: l2_group_def Let_def)

text \<open>One level up.\<close>

lemma l3_group_reach:
  assumes "lower_half va" "pt_base m h root va 1 = Some t" "i < 512" "x \<in> set (l3_group m h t i)"
  shows "\<exists>va' k. k \<in> {2, 3} \<and> lower_half va' \<and> agree 1 va va' \<and> depth_index va' 1 = of_nat i \<and> pt_base m h root va' k = Some x"
proof -
  let ?f = "pte_frame (get_pte m (t + h) (of_nat i))"
  have e: "pte_present (get_pte m (t + h) (of_nat i))" "x = ?f \<or> x \<in> set (l2_pages m h ?f)"
    using assms(4) by (auto simp: l3_group_def Let_def split: if_splits)
  then obtain a where a: "lower_half a" "agree 1 va a" "depth_index a 1 = of_nat i" "pt_base m h root a 2 = Some ?f"
    using reach_entry [OF assms(1,2) _ assms(3)] by (auto simp: numeral_2_eq_2)
  from e(2) show ?thesis
  proof
    assume "x = ?f"
    then show ?thesis using a by blast
  next
    assume "x \<in> set (l2_pages m h ?f)"
    then obtain b where b: "lower_half b" "agree 2 a b" "pt_base m h root b 3 = Some x"
      using l2_pages_reach [OF a(1,4)] by blast
    have "agree 1 a b" "depth_index b 1 = of_nat i" using b(2) a(3) by (simp_all add: agree_def)
    then show ?thesis using b a(2) agree_trans by blast
  qed
qed

lemma l3_pages_reach:
  "lower_half va \<Longrightarrow> pt_base m h root va 1 = Some t \<Longrightarrow> x \<in> set (l3_pages m h t) \<Longrightarrow>
   \<exists>va' k. k \<in> {2, 3} \<and> lower_half va' \<and> agree 1 va va' \<and> pt_base m h root va' k = Some x"
  unfolding l3_pages_def using l3_group_reach by fastforce

lemma l3_pages_all:
  assumes "pt_open m h root" "lower_half va'" "pt_base m h root va' 1 = Some t" "pt_base m h root va' k = Some x" "k \<in> {2, 3}"
  shows "x \<in> set (l3_pages m h t)"
proof -
  have "pt_base m h root va' 2 \<noteq> None"
  proof
    assume "pt_base m h root va' 2 = None"
    then have "pt_base m h root va' k = None" by (rule pt_base_None_mono) (use assms(5) in auto)
    then show False using assms(4) by simp
  qed
  then obtain u where u: "pt_base m h root va' (Suc 1) = Some u" "pt_base m h root va' 2 = Some u"
    by (auto simp: numeral_2_eq_2)
  have g: "l3_group m h t (unat (depth_index va' 1)) = l2_pages m h u @ [u]"
    using base_SucD [OF u(1)] assms(3) small_entry [OF assms(1,2) _ assms(3)] by (auto simp: l3_group_def Let_def)
  have "x = u \<or> x \<in> set (l2_pages m h u)"
    using l2_pages_all [OF assms(1,2) u(2)] assms(4,5) u(2) by auto
  then have "x \<in> set (l3_group m h t (unat (depth_index va' 1)))" unfolding g by auto
  moreover have "unat (depth_index va' 1) < 512" using depth_index_less [of 1 va'] by (simp add: word_less_nat_alt)
  ultimately show ?thesis by (auto simp: l3_pages_def)
qed

lemma l3_pages_distinct:
  assumes wf: "pt_wf m h root" and "lower_half va" "pt_base m h root va 1 = Some t"
  shows "distinct (l3_pages m h t)"
  unfolding l3_pages_def
proof (rule distinct_groups)
  fix i j :: nat and x assume i: "i < 512" "j < 512" "x \<in> set (l3_group m h t i)" "x \<in> set (l3_group m h t j)"
  obtain a b k k' where ab: "lower_half a" "depth_index a 1 = of_nat i" "pt_base m h root a k = Some x" "k \<in> {2, 3}"
    "lower_half b" "depth_index b 1 = of_nat j" "pt_base m h root b k' = Some x" "k' \<in> {2, 3}"
    using l3_group_reach [OF assms(2,3) i(1,3)] l3_group_reach [OF assms(2,3) i(2,4)] by blast
  then have "agree k a b" "1 < k" using no_shareD(2) [OF wf ab(1,5), of k k' x] by auto
  then have "(of_nat i :: u64) = of_nat j" using ab by (simp add: agree_def)
  then show "i = j" using of_nat_inj_512 i by blast
next
  fix i :: nat assume i: "i < 512"
  let ?f = "pte_frame (get_pte m (t + h) (of_nat i))"
  show "distinct (l3_group m h t i)"
  proof (cases "pte_present (get_pte m (t + h) (of_nat i))")
    case True
    then obtain a where a: "lower_half a" "pt_base m h root a 2 = Some ?f"
      using reach_entry [OF assms(2,3) _ i] by (auto simp: numeral_2_eq_2)
    have "?f \<notin> set (l2_pages m h ?f)"
    proof
      assume "?f \<in> set (l2_pages m h ?f)"
      then obtain b where "lower_half b" "pt_base m h root b 3 = Some ?f" using l2_pages_reach [OF a] by blast
      then show False using no_shareD(1) [OF wf a(1), of b 2 3 ?f] a(2) by simp
    qed
    then show ?thesis using l2_pages_distinct [OF wf a] by (simp add: l3_group_def Let_def)
  qed (simp add: l3_group_def Let_def)
qed

text \<open>The whole lower half.\<close>

lemma l4_group_reach:
  assumes "i < 256" "x \<in> set (l4_group m h root i)"
  shows "\<exists>va k. k \<in> {1, 2, 3} \<and> lower_half va \<and> depth_index va 0 = of_nat i \<and> pt_base m h root va k = Some x"
proof -
  let ?f = "pte_frame (get_pte m (root + h) (of_nat i))"
  have e: "pte_present (get_pte m (root + h) (of_nat i))" "x = ?f \<or> x \<in> set (l3_pages m h ?f)"
    using assms(2) by (auto simp: l4_group_def Let_def split: if_splits)
  have "lower_half 0" by (simp add: lower_half_def)
  from reach_entry [OF this, of m h root 0 root i] assms(1) e(1)
  obtain a where a: "lower_half a" "depth_index a 0 = of_nat i" "pt_base m h root a 1 = Some ?f"
    by (auto simp del: pt_base.simps(2))
  from e(2) show ?thesis
  proof
    assume "x = ?f"
    then show ?thesis using a by blast
  next
    assume "x \<in> set (l3_pages m h ?f)"
    then obtain b k where b: "k \<in> {2, 3}" "lower_half b" "agree 1 a b" "pt_base m h root b k = Some x"
      using l3_pages_reach [OF a(1,3)] by blast
    have "depth_index b 0 = of_nat i" using b(3) a(2) by (simp add: agree_def)
    then show ?thesis using b by blast
  qed
qed

lemma lower_tables_all:
  assumes "pt_open m h root" "lower_half va" "pt_base m h root va k = Some x" "k \<in> {1, 2, 3}"
  shows "x \<in> set (lower_tables m h root)"
proof -
  have "pt_base m h root va 1 \<noteq> None"
  proof
    assume "pt_base m h root va 1 = None"
    then have "pt_base m h root va k = None" by (rule pt_base_None_mono) (use assms(4) in auto)
    then show False using assms(3) by simp
  qed
  then obtain u where u: "pt_base m h root va (Suc 0) = Some u" "pt_base m h root va 1 = Some u"
    by (auto simp del: pt_base.simps(2))
  have g: "l4_group m h root (unat (depth_index va 0)) = l3_pages m h u @ [u]"
    using base_SucD [OF u(1)] by (auto simp: l4_group_def Let_def)
  have "x = u \<or> x \<in> set (l3_pages m h u)"
    using l3_pages_all [OF assms(1,2) u(2) assms(3)] assms(3,4) u(2) by auto
  then have "x \<in> set (l4_group m h root (unat (depth_index va 0)))" by (auto simp: g)
  then show ?thesis using depth_index_0_lower [OF assms(2)] by (auto simp: lower_tables_def)
qed

lemma lower_tables_distinct:
  assumes wf: "pt_wf m h root"
  shows "distinct (lower_tables m h root)"
  unfolding lower_tables_def
proof (rule distinct_groups)
  fix i j :: nat and x assume i: "i < 256" "j < 256" "x \<in> set (l4_group m h root i)" "x \<in> set (l4_group m h root j)"
  obtain a b k k' where ab: "lower_half a" "depth_index a 0 = of_nat i" "pt_base m h root a k = Some x" "k \<in> {1, 2, 3}"
    "lower_half b" "depth_index b 0 = of_nat j" "pt_base m h root b k' = Some x" "k' \<in> {1, 2, 3}"
    using l4_group_reach [OF i(1,3)] l4_group_reach [OF i(2,4)] by blast
  then have "agree k a b" "0 < k" using no_shareD(2) [OF wf ab(1,5), of k k' x] by auto
  then have "(of_nat i :: u64) = of_nat j" using ab by (simp add: agree_def)
  then show "i = j" using of_nat_inj_512 [of i j] i by simp
next
  fix i :: nat assume i: "i < 256"
  let ?f = "pte_frame (get_pte m (root + h) (of_nat i))"
  show "distinct (l4_group m h root i)"
  proof (cases "pte_present (get_pte m (root + h) (of_nat i))")
    case True
    have "lower_half 0" by (simp add: lower_half_def)
    from reach_entry [OF this, of m h root 0 root i] i True
    obtain a where a: "lower_half a" "pt_base m h root a 1 = Some ?f"
      by (auto simp del: pt_base.simps(2))
    have "?f \<notin> set (l3_pages m h ?f)"
    proof
      assume "?f \<in> set (l3_pages m h ?f)"
      then obtain b k where "k \<in> {2, 3}" "lower_half b" "pt_base m h root b k = Some ?f"
        using l3_pages_reach [OF a] by blast
      then show False using no_shareD(1) [OF wf a(1), of b 1 k ?f] a(2) by auto
    qed
    then show ?thesis using l3_pages_distinct [OF wf a] by (simp add: l4_group_def Let_def)
  qed (simp add: l4_group_def Let_def)
qed

lemma lower_tables_tree:
  assumes wf: "pt_wf m h root" and "pt_open m h root"
  shows "set (lower_tables m h root) = pt_tables m h root - {root}" "distinct (lower_tables m h root @ [root])"
proof -
  have sub: "x \<in> pt_tables m h root - {root}" if x: "x \<in> set (lower_tables m h root)" for x
  proof -
    obtain i where i: "i < 256" "x \<in> set (l4_group m h root i)"
      using x unfolding lower_tables_def in_concat_upt by blast
    obtain va k where va: "k \<in> {1, 2, 3}" "lower_half va" "pt_base m h root va k = Some x"
      using l4_group_reach [OF i] by blast
    have k: "k < 4" "0 < k" using va(1) by auto
    have "x \<in> pt_tables m h root" by (rule pt_tables_I [OF va(2) k(1) va(3)])
    moreover have "x \<noteq> root"
      using no_shareD(1) [OF wf va(2,2) k(1), of 0 x] va(3) k(2) by fastforce
    ultimately show ?thesis by simp
  qed
  have "x \<in> set (lower_tables m h root)" if x: "x \<in> pt_tables m h root" "x \<noteq> root" for x
  proof -
    obtain va k where va: "lower_half va" "k < 4" "pt_base m h root va k = Some x"
      using x(1) by (auto simp: pt_tables_def)
    have "k \<noteq> 0" using va(3) x(2) by (cases k) auto
    then have "k \<in> {1, 2, 3}" using va(2) by auto
    then show ?thesis by (rule lower_tables_all [OF assms(2) va(1,3)])
  qed
  then show "set (lower_tables m h root) = pt_tables m h root - {root}" using sub by blast
  show "distinct (lower_tables m h root @ [root])"
    using lower_tables_distinct [OF wf] sub by auto
qed

lemma pte_frame_less: "pte_frame e < 2 ^ 52"
proof -
  have "unat (ucast (pte_address e) :: u64) < 2 ^ 40"
    using unsigned_less [of "pte_address e", where 'a = nat] by (simp add: unsigned_ucast_eq take_bit_nat_eq_self)
  then show ?thesis
    by (simp add: pte_frame_def push_bit_eq_mult word_less_nat_alt unat_word_ariths)
qed

lemma table_page_ok:
  assumes "pt_wf (mem s) (hhdm_base s) root" "t \<in> tables_of s root" "t \<noteq> root" "t + hhdm_base s \<noteq> 0"
  shows "page_ok s t"
proof -
  obtain va k where va: "lower_half va" "k < 4" "pt_base (mem s) (hhdm_base s) root va k = Some t"
    using assms(2) by (auto simp: pt_tables_def)
  then obtain j where "k = Suc j" using assms(3) by (cases k) auto
  then obtain e where "t = pte_frame e" using base_SucD va(3) by blast
  then show ?thesis
    using assms pt_tables_aligned [OF assms(1,2)] pte_frame_less [of e] by (simp add: page_ok_def pt_wf_def)
qed

lemma vm_inv_handover:
  assumes inv: "vm_inv s root ps" and nz: "\<And>t. t \<in> tables_of s root \<Longrightarrow> t \<noteq> root \<Longrightarrow> t \<noteq> 0 \<and> t + hhdm_base s \<noteq> 0"
  shows "handover s root (lower_tables (mem s) (hhdm_base s) root) ps"
proof -
  note D = vm_invD [OF inv]
  note T = lower_tables_tree [OF D(2,3)]
  have "page_ok s t" if "t \<in> set (lower_tables (mem s) (hhdm_base s) root)" for t
    using table_page_ok [OF D(2)] nz T(1) that by blast
  moreover have "distinct ps" using D(1) by (simp add: pmem_rep_def)
  moreover have "root \<in> tables_of s root" by (rule root_in_tables)
  ultimately show ?thesis
    using D T nz unfolding handover_def by auto
qed

section \<open>Properties\<close>

text \<open>C23: on a well-formed address space \<open>unmap_lower_half\<close> gives to the free list every
  table of the lower half except the root, each once, and no other page; afterwards no
  lower-half address is mapped, the upper half of the root table and every page that is not
  one of the tables are unchanged, and the address space is well-formed.\<close>

theorem unmap_lower_half_frees_tables:
  assumes "vm_inv s root ps"
    and "\<And>t. t \<in> tables_of s root \<Longrightarrow> t \<noteq> root \<Longrightarrow> t \<noteq> 0 \<and> t + hhdm_base s \<noteq> 0"
    and "s' = unmap_lower_half root s"
  shows "\<exists>qs. vm_inv s' root (qs @ ps) \<and> distinct qs \<and> set qs = tables_of s root - {root} \<and>
    (\<forall>va. lower_half va \<longrightarrow> leaf_of s' root va = None) \<and>
    (\<forall>j. 256 \<le> j \<and> j < 512 \<longrightarrow>
       get_pte (mem s') (root + hhdm_base s') (of_nat j) = get_pte (mem s) (root + hhdm_base s) (of_nat j)) \<and>
    (\<forall>a. aligned 12 a \<and> a \<notin> tables_of s root \<longrightarrow> page_same (mem s) (mem s') (a + hhdm_base s))"
proof -
  note D = vm_invD [OF assms(1)]
  note T = lower_tables_tree [OF D(2,3)]
  note U = unmapped_lower [OF vm_inv_handover [OF assms(1,2)], folded assms(3)]
  have r: "root \<in> tables_of s root" by (rule root_in_tables)
  show ?thesis
    by (rule exI [of _ "rev (lower_tables (mem s) (hhdm_base s) root)"])
      (use U T r in auto)
qed

theorem unmap_lower_half_frees_tables_witness:
  "\<exists>qs. vm_inv (unmap_lower_half 0x1000 mapped_machine) 0x1000 qs \<and> set qs = {0x2000, 0x3000, 0x4000} \<and>
    leaf_of (unmap_lower_half 0x1000 mapped_machine) 0x1000 user_base = None"
proof -
  have nz: "t \<noteq> 0 \<and> t + hhdm_base mapped_machine \<noteq> 0"
    if "t \<in> tables_of mapped_machine 0x1000" "t \<noteq> 0x1000" for t
    using that unfolding mapped_machine_inv(2) by (auto simp: mapped_machine_inv(4))
  have "tables_of mapped_machine 0x1000 - {0x1000} = {0x2000, 0x3000, 0x4000}"
    by (auto simp: mapped_machine_inv(2))
  with unmap_lower_half_frees_tables [OF mapped_machine_inv(1) nz refl]
  show ?thesis using user_base_lower by auto
qed

text \<open>C22: \<open>mem_init\<close>, entered with the bootloader's memory map and page tables, returns with
  every usable page and every table of the old lower half on the free list, an empty lower
  half, and a state in which \<open>vm_map\<close> works. Its counter of free pages counts each usable
  page twice.\<close>

theorem mem_init_takes_over:
  assumes "boot_memory s h memmap es ts"
  shows "\<exists>s'. mem_init s = Some s' \<and> vm_inv s' (cr3 s) (rev ts @ rev (usable_pages es)) \<and>
    (\<forall>va. lower_half va \<longrightarrow> leaf_of s' (cr3 s) va = None) \<and> hhdm_base s' = h \<and>
    free_page_counter s' = free_page_counter s + 2 * of_nat (length (usable_pages es)) + of_nat (length ts)"
  using mem_init_spec [OF assms] by blast

text \<open>A boot with the direct map at \<open>0xFFFF800000000000\<close> and one usable region of two pages.\<close>

definition boot_words :: "(u64 \<times> u64) list" where
  "boot_words = [(0xFFFFFFFF80001080, 0xFFFFFFFF80002000),
     (0xFFFFFFFF80002000, STIVALE2_STRUCT_TAG_HHDM_ID), (0xFFFFFFFF80002008, 0xFFFFFFFF80003000),
     (0xFFFFFFFF80002010, 0xFFFF800000000000),
     (0xFFFFFFFF80003000, STIVALE2_STRUCT_TAG_MEMMAP_ID), (0xFFFFFFFF80003008, 0),
     (0xFFFFFFFF80003010, 1), (0xFFFFFFFF80003018, 0x2000), (0xFFFFFFFF80003020, 0x2000),
     (0xFFFFFFFF80003028, 1)]"

definition boot_mem :: mem where
  "boot_mem = (\<lambda>a. if 0xFFFFFFFF80000000 \<le> a then fold (\<lambda>(a, v) m. store64 m a v) boot_words (\<lambda>_. 0) a else 0)"

lemma boot_word:
  assumes "(a, v) \<in> set boot_words"
  shows "load64 boot_mem a = v" "0xFFFF800000000000 \<le> a" "a \<le> 0xFFFFFFFFFFFFF000"
proof -
  have al: "\<forall>(a, v) \<in> set boot_words. aligned 3 a \<and> 0xFFFFFFFF80001000 \<le> a \<and> a \<le> 0xFFFFFFFF80004000"
    by (simp add: boot_words_def aligned_def take_bit_eq_mod word_unat_eq_iff unat_mod)
  have b: "aligned 3 a" "0xFFFFFFFF80001000 \<le> a" "a \<le> 0xFFFFFFFF80004000" using al assms by auto
  then show "0xFFFF800000000000 \<le> a" "a \<le> 0xFFFFFFFFFFFFF000" by (simp_all add: word_le_nat_alt)
  have "load64 boot_mem a = load64 (fold (\<lambda>(a, v) m. store64 m a v) boot_words (\<lambda>_. 0)) a"
  proof (rule load64_cong)
    fix i :: nat assume "i < 8"
    then have "0xFFFFFFFF80000000 \<le> a + of_nat i"
      using b(2,3) by (simp add: word_le_nat_alt unat_word_ariths unat_of_nat)
    then show "boot_mem (a + of_nat i) = fold (\<lambda>(a, v) m. store64 m a v) boot_words (\<lambda>_. 0) (a + of_nat i)"
      by (simp add: boot_mem_def)
  qed
  also have "\<dots> = v"
    using assms al by (auto simp: boot_words_def load64_store64)
  finally show "load64 boot_mem a = v" .
qed

lemma boot_vload: "(a, v) \<in> set boot_words \<Longrightarrow> mem s = boot_mem \<Longrightarrow> vload s a 8 = Some v"
  using boot_word [of a v] by (simp add: vload8_upper)

lemma boot_vload4:
  assumes "mem s = boot_mem"
  shows "vload s 0xFFFFFFFF80003028 4 = Some 1"
proof -
  have "vload s 0xFFFFFFFF80003028 4 = Some (load_bytes (mem s) 0xFFFFFFFF80003028 4)"
    by (rule vload_upper) (simp add: upper_half_add)
  moreover have "load_bytes boot_mem 0xFFFFFFFF80003028 4 = take_bit 32 (load64 boot_mem 0xFFFFFFFF80003028)"
    using load_bytes_prefix [of 4 8 boot_mem "0xFFFFFFFF80003028"] by (simp add: load64_def)
  moreover have "load64 boot_mem 0xFFFFFFFF80003028 = 1" by (rule boot_word) (simp add: boot_words_def)
  ultimately show ?thesis by (simp add: assms)
qed

lemma boot_pages: "usable_pages [\<lparr>mmap_base = 0x2000, mmap_length = 0x2000, mmap_type = 1\<rparr>] = [0x2000, 0x3000]"
proof -
  have "[0..<2] = [0, Suc 0]" by (simp add: numeral_2_eq_2)
  then show ?thesis by (simp add: usable_pages_def region_pages_def)
qed

lemma boot_memory_example:
  "boot_memory (boot_machine boot_mem) 0xFFFF800000000000 0xFFFFFFFF80003000 [\<lparr>mmap_base = 0x2000, mmap_length = 0x2000, mmap_type = 1\<rparr>] []"
proof -
  let ?s = "boot_machine boot_mem"
  let ?s' = "?s\<lparr>hhdm_base := 0xFFFF800000000000\<rparr>"
  let ?es = "[\<lparr>mmap_base = 0x2000, mmap_length = 0x2000, mmap_type = 1\<rparr>]"
  have m: "mem ?s = boot_mem" "mem ?s' = boot_mem" "hdr ?s = 0xFFFFFFFF80001000" "cr3 ?s = 0x1000"
    by (simp_all add: boot_machine_def)
  have v: "vload s a 8 = Some v" if "mem s = boot_mem" "(a, v) \<in> set boot_words" for s :: boot and a v
    using boot_vload that by blast
  have chain: "tag_chain s 0xFFFFFFFF80002000
      [(0xFFFFFFFF80002000, STIVALE2_STRUCT_TAG_HHDM_ID), (0xFFFFFFFF80003000, STIVALE2_STRUCT_TAG_MEMMAP_ID)]"
    "vload s (hdr ?s + HDR_TAGS) 8 = Some 0xFFFFFFFF80002000" if "mem s = boot_mem" for s :: boot
    using v [OF that] by (simp_all add: boot_words_def m)
  have hhdm: "get_hhdm ?s = Some 0xFFFF800000000000"
    using chain(2) [OF m(1)] find_tag_loop_chain [OF chain(1) [OF m(1)]] v [OF m(1), of "0xFFFFFFFF80002010"]
    by (simp add: get_hhdm_def find_tag_def tag_of_def boot_words_def del: tag_chain.simps)
  have memmap: "find_tag ?s' (hdr ?s) STIVALE2_STRUCT_TAG_MEMMAP_ID = Some 0xFFFFFFFF80003000"
    using chain(2) [OF m(2)] find_tag_loop_chain [OF chain(1) [OF m(2)]]
    by (simp add: find_tag_def tag_of_def del: tag_chain.simps)
  note pages = boot_pages
  have ok: "memmap_ok ?s' 0xFFFFFFFF80003000 ?es"
    unfolding memmap_ok_def pages
  proof (intro conjI)
    show "memmap_at ?s' 0xFFFFFFFF80003000 ?es"
      using v [OF m(2), of "0xFFFFFFFF80003010"] v [OF m(2), of "0xFFFFFFFF80003018"]
        v [OF m(2), of "0xFFFFFFFF80003020"] boot_vload4 [OF m(2)]
      by (simp add: memmap_at_def memmap_entries_def memmap_entry_def boot_words_def)
    show "\<forall>p\<in>set [0x2000, 0x3000]. \<forall>x<24 + 24 * length ?es. \<forall>i<8.
        0xFFFFFFFF80003000 + of_nat x \<noteq> p + hhdm_base ?s' + of_nat i"
    proof (intro ballI allI impI)
      fix p :: u64 and x i :: nat assume "p \<in> set [0x2000, 0x3000]" "x < 24 + 24 * length ?es" "i < 8"
      then have "unat (0xFFFFFFFF80003000 + of_nat x :: u64) \<ge> 0xFFFFFFFF80003000"
        "unat (p + hhdm_base ?s' + of_nat i) < 0xFFFF800000004000"
        by (auto simp: unat_word_ariths unat_of_nat)
      then show "0xFFFFFFFF80003000 + of_nat x \<noteq> p + hhdm_base ?s' + of_nat i" by (intro notI) simp
    qed
  qed simp_all
  have zero: "page_zero boot_mem (0x1000 + 0xFFFF800000000000)"
    by (simp add: page_zero_def boot_mem_def word_less_nat_alt word_le_nat_alt unat_word_ariths)
  have "l4_group boot_mem 0xFFFF800000000000 0x1000 i = []" if "i < 256" for i
    using get_pte_zero [OF zero of_nat_512, of i] that by (simp add: l4_group_def Let_def pte_of_word_def)
  then have "map (l4_group boot_mem 0xFFFF800000000000 0x1000) [0..<256] = map (\<lambda>_. []) [0..<256]"
    by (intro map_cong) simp_all
  then have tabs: "lower_tables boot_mem 0xFFFF800000000000 0x1000 = []"
    unfolding lower_tables_def by (simp only: concat_eq_Nil_conv) simp
  have "handover ?s' (cr3 ?s) [] []"
    by (simp add: handover_def m tabs pmem_rep_def word_aligned_12 term_inv_def) (simp add: boot_machine_def)
  then show ?thesis
    using hhdm memmap ok by (simp add: boot_memory_def pages m page_ok_def word_aligned_12)
qed

theorem mem_init_takes_over_witness:
  "\<exists>s'. mem_init (boot_machine boot_mem) = Some s' \<and> vm_inv s' 0x1000 [0x3000, 0x2000] \<and> free_page_counter s' = 4"
proof -
  note boot_pages
  moreover have "cr3 (boot_machine boot_mem) = 0x1000" "free_page_counter (boot_machine boot_mem) = 0"
    by (simp_all add: boot_machine_def)
  ultimately show ?thesis using mem_init_takes_over [OF boot_memory_example] by auto
qed

end
