(* ===== verification/Keyboard.thy ===== *)
theory Keyboard
  imports Stivale
begin

text \<open>
  The keyboard (\<open>kernel/systemcalls.c\<close> up to \<open>kgetc\<close>, \<open>keyboard_interrupt\<close> of
  \<open>kernel/boot.c\<close>): scan codes to characters, the circular buffer of 100 characters with
  its signed 8-bit length and indices, and the reader that waits for a character. An index
  outside an array is the result None. \<open>kgetc\<close> takes a schedule, the number of keyboard
  interrupts before each time it looks at the length; interrupts between any two of its
  memory accesses are the step relation of \<open>KeyboardSteps\<close>.
\<close>

record kernel = boot +
  buffer :: "u8 list"
  buffer_length :: u8
  reading_index :: u8
  writing_index :: u8

definition keys :: "u8 list" where
  "keys = [0, 27] @ bytes_of ''1234567890-='' @ [8, 9] @ bytes_of ''qwertyuiop[]'' @ [10, 0] @
     bytes_of ''asdfghjkl;'' @ [39] @ bytes_of ''`'' @ [0, 92] @ bytes_of ''zxcvbnm,./'' @
     [0, 42, 0, 32] @ replicate 16 0 @ [45, 0, 0, 0, 43] @ replicate 49 0"

section \<open>Operations\<close>

definition backspace :: "'a kernel_scheme \<Rightarrow> 'a kernel_scheme" where
  "backspace s =
     (let s = s\<lparr>buffer_length := buffer_length s - 1\<rparr>;
          s = s\<lparr>reading_index := reading_index s - 1\<rparr>
      in if sint (reading_index s) < 0 then s\<lparr>reading_index := 99\<rparr> else s)"

definition getkey :: "u8 \<Rightarrow> 'a kernel_scheme \<Rightarrow> (u8 \<times> 'a kernel_scheme) option" where
  "getkey code s =
     (if code = 0x01 then Some (0, s)
      else if code = 0x0E then Some (0, backspace s)
      else if code = 0x1D then Some (0, s)
      else if code = 0x2A \<or> code = 0x36 then Some (0, s)
      else if code = 0x38 then Some (0, s)
      else if code = 0x3A then Some (0, s)
      else if code \<ge> 0x81 then Some (0, s)
      else if unat code < length keys then Some (keys ! unat code, s)
      else None)"

definition char_write :: "u8 \<Rightarrow> 'a kernel_scheme \<Rightarrow> 'a kernel_scheme option" where
  "char_write key s =
     (if key = 0 then Some s
      else do {
        s \<leftarrow> kprintf ''%c'' [Va_int (scast key)] s;
        if 0 \<le> sint (writing_index s) \<and> sint (writing_index s) < int (length (buffer s))
        then let s = s\<lparr>buffer := (buffer s)[unat (writing_index s) := key]\<rparr>;
                 s = s\<lparr>writing_index := writing_index s + 1\<rparr>;
                 s = s\<lparr>buffer_length := buffer_length s + 1\<rparr>
             in Some (if sint (writing_index s) \<ge> 100 then s\<lparr>writing_index := 0\<rparr> else s)
        else None })"

abbreviation PIC1_COMMAND :: u16 where "PIC1_COMMAND \<equiv> 0x20"
abbreviation PIC_EOI :: u8 where "PIC_EOI \<equiv> 0x20"

definition keyboard_interrupt :: "'a kernel_scheme \<Rightarrow> 'a kernel_scheme option" where
  "keyboard_interrupt s =
     do { let (code, s) = inb 0x60 s;
          (key, s) \<leftarrow> getkey code s;
          s \<leftarrow> char_write key s;
          Some (outb PIC1_COMMAND PIC_EOI s) }"

fun interrupts :: "nat \<Rightarrow> 'a kernel_scheme \<Rightarrow> 'a kernel_scheme option" where
  "interrupts 0 s = Some s"
| "interrupts (Suc n) s = do { s \<leftarrow> keyboard_interrupt s; interrupts n s }"

text \<open>The waiting loop: None when the schedule ends with the buffer still empty.\<close>

fun kgetc_wait :: "nat list \<Rightarrow> 'a kernel_scheme \<Rightarrow> (nat list \<times> 'a kernel_scheme) option" where
  "kgetc_wait [] s = (if buffer_length s = 0 then None else Some ([], s))"
| "kgetc_wait (n # ns) s =
     do { s \<leftarrow> interrupts n s; if buffer_length s = 0 then kgetc_wait ns s else Some (ns, s) }"

definition kgetc_take :: "'a kernel_scheme \<Rightarrow> (u8 \<times> 'a kernel_scheme) option" where
  "kgetc_take s =
     (if 0 \<le> sint (reading_index s) \<and> sint (reading_index s) < int (length (buffer s))
      then let returned = buffer s ! unat (reading_index s);
               s = s\<lparr>reading_index := reading_index s + 1\<rparr>;
               s = s\<lparr>buffer_length := buffer_length s - 1\<rparr>
           in Some (returned, if sint (reading_index s) \<ge> 100 then s\<lparr>reading_index := 0\<rparr> else s)
      else None)"

definition kgetc :: "nat list \<Rightarrow> 'a kernel_scheme \<Rightarrow> (u8 \<times> nat list \<times> 'a kernel_scheme) option" where
  "kgetc ns s = do { (ns, s) \<leftarrow> kgetc_wait ns s; (c, s) \<leftarrow> kgetc_take s; Some (c, ns, s) }"

section \<open>System calls on characters\<close>

function kread_loop :: "u64 \<Rightarrow> u64 \<Rightarrow> int \<Rightarrow> nat list \<Rightarrow> 'a kernel_scheme \<Rightarrow> (nat list \<times> 'a kernel_scheme) option" where
  "kread_loop buff numchars i ns s =
     (if word_of_int i < numchars
      then do { (ret, ns, s) \<leftarrow> kgetc ns s;
                s \<leftarrow> vwrite (buff + word_of_int i) ret s;
                if i \<ge> 2147483647 then None else kread_loop buff numchars (i + 1) ns s }
      else Some (ns, s))"
  by pat_completeness auto
termination
  by (relation "measure (\<lambda>(buff, numchars, i, ns, s). nat (2147483647 - i))") auto

declare kread_loop.simps [simp del]

text \<open>The C functions return an int: the low 32 bits of the count, read as signed.\<close>

definition kread :: "u64 \<Rightarrow> u64 \<Rightarrow> nat list \<Rightarrow> 'a kernel_scheme \<Rightarrow> (int \<times> nat list \<times> 'a kernel_scheme) option" where
  "kread buf numchars ns s =
     do { (ns, s) \<leftarrow> kread_loop buf numchars 0 ns s; Some (int_of_len numchars, ns, s) }"

function kwrite_loop :: "cptr \<Rightarrow> u64 \<Rightarrow> u64 \<Rightarrow> 'a terminal_scheme \<Rightarrow> 'a terminal_scheme option" where
  "kwrite_loop wbuffer len i s =
     (if i < len
      then do { c \<leftarrow> kview s wbuffer; kwrite_loop (pinc wbuffer) len (i + 1) (kprint_c c s) }
      else Some s)"
  by pat_completeness auto
termination
  by (relation "measure (\<lambda>(wbuffer, len, i, s). unat len - unat i)") (auto simp: inc_decreases)

declare kwrite_loop.simps [simp del]

definition kwrite :: "cptr \<Rightarrow> u64 \<Rightarrow> 'a terminal_scheme \<Rightarrow> (int \<times> 'a terminal_scheme) option" where
  "kwrite buf len s = do { s \<leftarrow> kwrite_loop buf len 0 s; Some (int_of_len len, s) }"

section \<open>The contract of a bounded queue\<close>

datatype 'c queue_op = Put 'c | Get

locale bounded_queue =
  fixes put :: "'c \<Rightarrow> 's \<Rightarrow> 's option"
    and get :: "'s \<Rightarrow> ('c \<times> 's) option"
    and rep :: "'s \<Rightarrow> 'c list \<Rightarrow> bool"
    and ok :: "'c \<Rightarrow> bool"
    and cap :: nat
  assumes put_rep: "rep s q \<Longrightarrow> length q < cap \<Longrightarrow> ok c \<Longrightarrow> \<exists>s'. put c s = Some s' \<and> rep s' (q @ [c])"
    and get_rep: "rep s (c # q) \<Longrightarrow> \<exists>s'. get s = Some (c, s') \<and> rep s' q"
begin

fun run :: "'c queue_op list \<Rightarrow> 's \<Rightarrow> ('c list \<times> 's) option" where
  "run [] s = Some ([], s)"
| "run (Put c # ops) s = do { s \<leftarrow> put c s; run ops s }"
| "run (Get # ops) s = do { (c, s) \<leftarrow> get s; (cs, s) \<leftarrow> run ops s; Some (c # cs, s) }"

fun puts :: "'c queue_op list \<Rightarrow> 'c list" where
  "puts [] = []"
| "puts (Put c # ops) = c # puts ops"
| "puts (Get # ops) = puts ops"

text \<open>No put on \<open>cap\<close> elements and no get on none, starting from \<open>n\<close>.\<close>

fun fits :: "'c queue_op list \<Rightarrow> nat \<Rightarrow> bool" where
  "fits [] n \<longleftrightarrow> True"
| "fits (Put c # ops) n \<longleftrightarrow> n < cap \<and> ok c \<and> fits ops (Suc n)"
| "fits (Get # ops) n \<longleftrightarrow> 0 < n \<and> fits ops (n - 1)"

lemma run_fifo:
  "rep s q \<Longrightarrow> fits ops (length q) \<Longrightarrow>
   \<exists>outs s' q'. run ops s = Some (outs, s') \<and> rep s' q' \<and> q @ puts ops = outs @ q'"
proof (induction ops arbitrary: s q)
  case (Cons op ops)
  show ?case
  proof (cases op)
    case (Put c)
    then obtain s1 where s1: "put c s = Some s1" "rep s1 (q @ [c])"
      using put_rep [OF Cons.prems(1), of c] Cons.prems(2) by auto
    then show ?thesis using Cons.IH [OF s1(2)] Cons.prems(2) Put by auto
  next
    case Get
    then obtain c q1 where q: "q = c # q1" using Cons.prems(2) by (cases q) auto
    then obtain s1 where s1: "get s = Some (c, s1)" "rep s1 q1" using get_rep Cons.prems(1) by blast
    then show ?thesis using Cons.IH [OF s1(2)] Cons.prems(2) Get q by auto
  qed
qed simp

end

section \<open>The circular buffer\<close>

text \<open>
  \<open>queue_at s r q\<close>: the characters \<open>q\<close> stand in the buffer from index \<open>r\<close> on, and the next
  one is written after them.
\<close>

definition queue_at :: "'a kernel_scheme \<Rightarrow> nat \<Rightarrow> u8 list \<Rightarrow> bool" where
  "queue_at s r q \<longleftrightarrow> r < 100 \<and> length (buffer s) = 100 \<and> length q \<le> 100 \<and>
     unat (writing_index s) = (r + length q) mod 100 \<and>
     (\<forall>k < length q. buffer s ! ((r + k) mod 100) = q ! k)"

definition kb_rep :: "'a kernel_scheme \<Rightarrow> u8 list \<Rightarrow> bool" where
  "kb_rep s q \<longleftrightarrow> queue_at s (unat (reading_index s)) q \<and> buffer_length s = of_nat (length q)"

lemma sint_u8:
  fixes x :: u8
  assumes "unat x < 128"
  shows "0 \<le> sint x" "sint x < int n \<longleftrightarrow> unat x < n" "100 \<le> sint x \<longleftrightarrow> 100 \<le> unat x"
proof -
  have "int (unat x) < 128" using assms by linarith
  then have "signed_take_bit 7 (uint x) = uint x"
    by (intro signed_take_bit_int_eq_self) (simp_all add: order_trans [OF _ uint_ge_0])
  then have "sint x = int (unat x)" by (simp add: sint_uint)
  then show "0 \<le> sint x" "sint x < int n \<longleftrightarrow> unat x < n" "100 \<le> sint x \<longleftrightarrow> 100 \<le> unat x"
    by linarith+
qed

lemma term_puts_kernel [simp]:
  "boot.more (term_puts cs s) = boot.more s" "hdr (term_puts cs s) = hdr s"
proof -
  have "kmem.more (term_puts cs s) = kmem.more s" by simp
  then show "boot.more (term_puts cs s) = boot.more s" "hdr (term_puts cs s) = hdr s"
    by (cases s; cases "term_puts cs s"; simp)+
qed

lemma term_puts_keyboard [simp]:
  "buffer (term_puts cs s) = buffer s" "buffer_length (term_puts cs s) = buffer_length s"
  "reading_index (term_puts cs s) = reading_index s" "writing_index (term_puts cs s) = writing_index s"
  "kernel.more (term_puts cs s) = kernel.more s"
proof -
  have "boot.more (term_puts cs s) = boot.more s" by simp
  then show "buffer (term_puts cs s) = buffer s" "buffer_length (term_puts cs s) = buffer_length s"
    "reading_index (term_puts cs s) = reading_index s" "writing_index (term_puts cs s) = writing_index s"
    "kernel.more (term_puts cs s) = kernel.more s"
    by (cases s; cases "term_puts cs s"; simp)+
qed

lemmas term_putchar_keyboard [simp] = term_puts_keyboard [of "[c]" for c, simplified]

lemma ucast_scast: "ucast (scast key :: u64) = (key :: u8)"
  by (rule bit_word_eqI) (auto simp: bit_simps)

lemma kprintf_c: "kprintf ''%c'' [Va_int (scast key)] s = Some (term_puts [key] s)"
  by (subst kprintf_out) (simp_all add: lit_args_def conv_out_def ucast_scast)

definition put_char :: "u8 \<Rightarrow> 'a kernel_scheme \<Rightarrow> 'a kernel_scheme" where
  "put_char key s =
     (let s = term_puts [key] s
      in s\<lparr>buffer := (buffer s)[unat (writing_index s) := key],
           writing_index := (if sint (writing_index s + 1) \<ge> 100 then 0 else writing_index s + 1),
           buffer_length := buffer_length s + 1\<rparr>)"

lemma char_write_put:
  "key \<noteq> 0 \<Longrightarrow> length (buffer s) = 100 \<Longrightarrow> unat (writing_index s) < 100 \<Longrightarrow> char_write key s = Some (put_char key s)"
  using sint_u8(1) [of "writing_index s"] sint_u8(2) [of "writing_index s" 100]
  by (simp add: char_write_def kprintf_c put_char_def Let_def)

lemma next_index: "unat (i :: u8) < 100 \<Longrightarrow> unat (if sint (i + 1) \<ge> 100 then 0 else i + 1) = (unat i + 1) mod 100"
proof -
  assume i: "unat i < 100"
  then have u: "unat (i + 1) = unat i + 1" by (simp add: unat_word_ariths)
  then have "100 \<le> sint (i + 1) \<longleftrightarrow> unat i = 99" using sint_u8(3) [of "i + 1"] i by auto
  then show ?thesis using i u by (cases "unat i = 99") auto
qed

lemma mod_100_apart: "k < l \<Longrightarrow> l < 100 \<Longrightarrow> (r + k) mod 100 \<noteq> (r + l) mod (100 :: nat)"
proof
  assume l: "k < l" "l < 100" and "(r + k) mod 100 = (r + l) mod 100"
  then have "100 dvd (r + l) - (r + k)"
    using mod_eq_dvd_iff_nat [of "r + k" "r + l" 100] by simp
  then have "100 dvd l - k" by simp
  then show False using l nat_dvd_not_less [of "l - k" 100] by simp
qed

lemma put_char_queue:
  assumes "queue_at s r q" "length q < 100"
  shows "queue_at (put_char c s) r (q @ [c])"
proof -
  note Q = assms [unfolded queue_at_def]
  have w: "unat (writing_index s) < 100" using Q by simp
  have apart: "(r + k) mod 100 \<noteq> (r + length q) mod 100" if "k < length q" for k
    using that assms(2) by (rule mod_100_apart)
  have "writing_index (put_char c s) = (if sint (writing_index s + 1) \<ge> 100 then 0 else writing_index s + 1)"
    by (simp add: put_char_def Let_def)
  then have "unat (writing_index (put_char c s)) = (r + length (q @ [c])) mod 100"
    using next_index [OF w] Q by (simp only: mod_Suc_eq length_append list.size) (simp add: mod_Suc_eq)
  moreover have "buffer (put_char c s) ! ((r + k) mod 100) = (q @ [c]) ! k" if "k < length (q @ [c])" for k
    using that Q apart [of k] by (cases "k = length q") (simp_all add: put_char_def Let_def nth_append)
  ultimately show ?thesis
    using Q by (simp add: queue_at_def) (simp add: put_char_def Let_def)
qed

lemma kb_put:
  assumes "kb_rep s q" "length q < 100" "c \<noteq> 0"
  shows "char_write c s = Some (put_char c s)" "kb_rep (put_char c s) (q @ [c])"
proof -
  have Q: "queue_at s (unat (reading_index s)) q" and l: "buffer_length s = of_nat (length q)"
    using assms(1) by (simp_all add: kb_rep_def)
  show "char_write c s = Some (put_char c s)"
    using assms(3) Q by (intro char_write_put) (simp_all add: queue_at_def)
  show "kb_rep (put_char c s) (q @ [c])"
    using put_char_queue [OF Q assms(2), of c] l
    by (simp add: kb_rep_def) (simp add: put_char_def Let_def)
qed

definition take_char :: "'a kernel_scheme \<Rightarrow> 'a kernel_scheme" where
  "take_char s = s\<lparr>reading_index := (if sint (reading_index s + 1) \<ge> 100 then 0 else reading_index s + 1),
     buffer_length := buffer_length s - 1\<rparr>"

lemma queue_at_tl:
  assumes "queue_at s r (c # q)" "length q < 100" "buffer s' = buffer s" "writing_index s' = writing_index s"
  shows "buffer s ! r = c" "queue_at s' ((r + 1) mod 100) q"
proof -
  note Q = assms(1) [unfolded queue_at_def]
  have "\<forall>k < Suc (length q). buffer s ! ((r + k) mod 100) = (c # q) ! k" using Q by simp
  then have e: "buffer s ! ((r + k) mod 100) = (c # q) ! k" if "k < Suc (length q)" for k using that by blast
  show "buffer s ! r = c" using e [of 0] Q by simp
  have "buffer s ! (((r + 1) mod 100 + k) mod 100) = q ! k" if "k < length q" for k
    using e [of "Suc k"] that by (simp add: mod_simps)
  moreover have "((r + 1) mod 100 + length q) mod 100 = (r + length (c # q)) mod 100" by (simp add: mod_simps)
  ultimately show "queue_at s' ((r + 1) mod 100) q" using Q assms by (simp add: queue_at_def)
qed

lemma kgetc_take_eq:
  assumes "unat (reading_index s) < 100" "length (buffer s) = 100"
  shows "kgetc_take s = Some (buffer s ! unat (reading_index s), take_char s)"
  using sint_u8(1) [of "reading_index s"] sint_u8(2) [of "reading_index s" 100] assms
  by (simp add: kgetc_take_def take_char_def Let_def)

lemma kb_get:
  assumes "kb_rep s (c # q)"
  shows "kgetc_take s = Some (c, take_char s)" "kb_rep (take_char s) q"
proof -
  have Q: "queue_at s (unat (reading_index s)) (c # q)" and l: "buffer_length s = of_nat (Suc (length q))"
    using assms by (simp_all add: kb_rep_def)
  then have r: "unat (reading_index s) < 100" "length (buffer s) = 100" "length q < 100"
    by (auto simp: queue_at_def)
  have "unat (reading_index (take_char s)) = (unat (reading_index s) + 1) mod 100"
    using next_index [OF r(1)] by (simp add: take_char_def)
  moreover have "queue_at (take_char s) ((unat (reading_index s) + 1) mod 100) q"
    by (rule queue_at_tl [OF Q r(3)]) (simp_all add: take_char_def)
  ultimately show "kb_rep (take_char s) q" using l by (simp add: kb_rep_def) (simp add: take_char_def)
  show "kgetc_take s = Some (c, take_char s)" using kgetc_take_eq [OF r(1,2)] queue_at_tl(1) [OF Q r(3) refl refl] by simp
qed

interpretation kb: bounded_queue char_write kgetc_take kb_rep "\<lambda>c. c \<noteq> 0" 100
  by unfold_locales (auto dest: kb_put [of _ _ c for c] kb_get)

end
