(* ===== verification/Pic.thy ===== *)
theory Pic
  imports Keyboard
begin

text \<open>
  The two interrupt controllers (\<open>kernel/pic.c\<close>, constants of \<open>kernel/pic.h\<close>): their
  initialisation and the masking of single interrupt lines. The controllers themselves are
  devices behind the ports: \<open>pic8259\<close> is their state as their data sheet describes it, a
  function of the bytes sent to them, and the theorem assumes of the devices only that a
  controller in operation gives its mask when its data port is read.
\<close>

abbreviation PIC1_DATA :: u16 where "PIC1_DATA \<equiv> 0x21"
abbreviation PIC2_COMMAND :: u16 where "PIC2_COMMAND \<equiv> 0xA0"
abbreviation PIC2_DATA :: u16 where "PIC2_DATA \<equiv> 0xA1"
abbreviation ICW1_ICW4 :: u8 where "ICW1_ICW4 \<equiv> 0x01"
abbreviation ICW1_INIT :: u8 where "ICW1_INIT \<equiv> 0x10"
abbreviation ICW4_8086 :: u8 where "ICW4_8086 \<equiv> 0x01"
abbreviation IRQ0_INTERRUPT :: u8 where "IRQ0_INTERRUPT \<equiv> 0x20"
abbreviation IRQ1_INTERRUPT :: u8 where "IRQ1_INTERRUPT \<equiv> 0x21"
abbreviation IRQ8_INTERRUPT :: u8 where "IRQ8_INTERRUPT \<equiv> 0x28"

section \<open>Operations\<close>

definition sti :: "'a machine_scheme \<Rightarrow> 'a machine_scheme" where
  "sti s = s\<lparr>cpu_events := Sti # cpu_events s\<rparr>"

definition pic_init :: "'a machine_scheme \<Rightarrow> 'a machine_scheme" where
  "pic_init s =
     (let s = io_wait (outb PIC1_COMMAND (ICW1_INIT OR ICW1_ICW4) s);
          s = io_wait (outb PIC2_COMMAND (ICW1_INIT OR ICW1_ICW4) s);
          s = io_wait (outb PIC1_DATA IRQ0_INTERRUPT s);
          s = io_wait (outb PIC2_DATA IRQ8_INTERRUPT s);
          s = io_wait (outb PIC1_DATA 0x04 s);
          s = io_wait (outb PIC2_DATA 0x02 s);
          s = io_wait (outb PIC1_DATA ICW4_8086 s);
          s = io_wait (outb PIC2_DATA ICW4_8086 s);
          s = outb PIC1_DATA 0xFF s;
          s = outb PIC2_DATA 0xFF s
      in sti s)"

definition pic_mask_irq :: "u8 \<Rightarrow> 'a machine_scheme \<Rightarrow> 'a machine_scheme" where
  "pic_mask_irq num s =
     (if num < 8 then
        let (m, s) = inb PIC1_DATA s in outb PIC1_DATA (m OR push_bit (unat num) 1) s
      else if num < 16 then
        let (m, s) = inb PIC2_DATA s in outb PIC2_DATA (m OR push_bit (unat (num - 8)) 1) s
      else s)"

definition pic_unmask_irq :: "u8 \<Rightarrow> 'a machine_scheme \<Rightarrow> 'a machine_scheme" where
  "pic_unmask_irq num s =
     (if num < 8 then
        let (m, s) = inb PIC1_DATA s in outb PIC1_DATA (m AND NOT (push_bit (unat num) 1)) s
      else if num < 16 then
        let (m, s) = inb PIC2_DATA s in outb PIC2_DATA (m AND NOT (push_bit (unat (num - 8)) 1)) s
      else s)"

section \<open>The controllers behind the ports\<close>

text \<open>
  An 8259A as its data sheet describes it, read off the bytes sent to its two ports. A command
  byte with bit 4 set is ICW1 and starts the initialisation: the mask is cleared, and the next
  bytes on the data port are ICW2 (the first vector), ICW3 (the cascade) unless bit 1 of ICW1
  says there is one controller, and ICW4 (the mode) if bit 0 of ICW1 asks for it. After that, a
  byte on the data port is the mask. \<open>awaits\<close> is the ICW that comes next, 0 when there is none.
  A command byte with bits 4 and 3 equal to 01 is OCW3, whose bit 2 makes the next read a poll.
\<close>

record pic8259 =
  awaits :: nat
  single :: bool
  needs4 :: bool
  vector :: u8
  cascade :: u8
  mode :: u8
  imr :: u8
  polled :: bool

definition pic_command :: "u8 \<Rightarrow> pic8259 \<Rightarrow> pic8259" where
  "pic_command v p =
     (if bit v 4 then p\<lparr>awaits := 2, single := bit v 1, needs4 := bit v 0, imr := 0, mode := 0, polled := False\<rparr>
      else if bit v 3 then p\<lparr>polled := bit v 2\<rparr>
      else p)"

definition pic_data :: "u8 \<Rightarrow> pic8259 \<Rightarrow> pic8259" where
  "pic_data v p =
     (if awaits p = 2 then p\<lparr>vector := v AND 0xF8, awaits := (if \<not> single p then 3 else if needs4 p then 4 else 0)\<rparr>
      else if awaits p = 3 then p\<lparr>cascade := v, awaits := (if needs4 p then 4 else 0)\<rparr>
      else if awaits p = 4 then p\<lparr>mode := v, awaits := 0\<rparr>
      else p\<lparr>imr := v\<rparr>)"

text \<open>The state after a port trace, newest event first, from any state \<open>p0\<close> at power-up.\<close>

fun pic_after :: "u16 \<Rightarrow> u16 \<Rightarrow> pic8259 \<Rightarrow> io_event list \<Rightarrow> pic8259" where
  "pic_after cmd dat p0 [] = p0"
| "pic_after cmd dat p0 (Out q v # tr) =
     (if q = cmd then pic_command v (pic_after cmd dat p0 tr)
      else if q = dat then pic_data v (pic_after cmd dat p0 tr)
      else pic_after cmd dat p0 tr)"
| "pic_after cmd dat p0 (In q v # tr) =
     (if q = cmd \<or> q = dat then (pic_after cmd dat p0 tr)\<lparr>polled := False\<rparr> else pic_after cmd dat p0 tr)"

definition pic1 :: "pic8259 \<Rightarrow> io_event list \<Rightarrow> pic8259" where
  "pic1 = pic_after PIC1_COMMAND PIC1_DATA"

definition pic2 :: "pic8259 \<Rightarrow> io_event list \<Rightarrow> pic8259" where
  "pic2 = pic_after PIC2_COMMAND PIC2_DATA"

text \<open>Outside the initialisation and a poll, reading the data port gives the mask.\<close>

definition reads_mask :: "pic8259 \<Rightarrow> u8 \<Rightarrow> bool" where
  "reads_mask p v \<longleftrightarrow> (awaits p = 0 \<and> \<not> polled p \<longrightarrow> v = imr p)"

definition masks_read_back :: "pic8259 \<Rightarrow> pic8259 \<Rightarrow> 'a machine_scheme \<Rightarrow> bool" where
  "masks_read_back p q s \<longleftrightarrow>
     (\<forall>tr. reads_mask (pic1 p tr) (devices s tr PIC1_DATA) \<and> reads_mask (pic2 q tr) (devices s tr PIC2_DATA))"

section \<open>The interrupt lines that are enabled\<close>

text \<open>A controller in operation, in 8086 mode with a manual end of interrupt, with its first vector.\<close>

definition operational :: "u8 \<Rightarrow> u8 \<Rightarrow> pic8259 \<Rightarrow> bool" where
  "operational v c p \<longleftrightarrow> awaits p = 0 \<and> \<not> polled p \<and> \<not> single p \<and> vector p = v \<and> cascade p = c \<and> mode p = 1"

definition pics_ready :: "pic8259 \<Rightarrow> pic8259 \<Rightarrow> io_event list \<Rightarrow> bool" where
  "pics_ready p q tr \<longleftrightarrow> operational 0x20 0x04 (pic1 p tr) \<and> operational 0x28 0x02 (pic2 q tr)"

definition irq_enabled :: "pic8259 \<Rightarrow> pic8259 \<Rightarrow> io_event list \<Rightarrow> nat \<Rightarrow> bool" where
  "irq_enabled p q tr i \<longleftrightarrow> (if i < 8 then \<not> bit (imr (pic1 p tr)) i else i < 16 \<and> \<not> bit (imr (pic2 q tr)) (i - 8))"

datatype irq_op = Mask u8 | Unmask u8

fun irq_run :: "irq_op \<Rightarrow> 'a machine_scheme \<Rightarrow> 'a machine_scheme" where
  "irq_run (Mask n) s = pic_mask_irq n s"
| "irq_run (Unmask n) s = pic_unmask_irq n s"

fun enabled_by :: "irq_op \<Rightarrow> nat set \<Rightarrow> nat set" where
  "enabled_by (Mask n) E = E - {unat n}"
| "enabled_by (Unmask n) E = (if unat n < 16 then insert (unat n) E else E)"

lemma bit_ff: "bit (0xFF :: int) i \<longleftrightarrow> i < 8"
proof -
  have "(0xFF :: int) = mask 8" by (simp add: mask_eq_exp_minus_1)
  then show ?thesis by (simp only: bit_mask_iff) auto
qed

lemma irq_pic2: "\<not> n < 8 \<Longrightarrow> unat (n - 8 :: u8) = unat n - 8"
  by (simp add: unat_sub word_le_nat_alt not_less)

text \<open>A read of the data port and a write to it set the mask of a controller in operation, no more.\<close>

lemma operational_io:
  assumes "operational v c p"
  shows "operational v c (pic_data m (p\<lparr>polled := False\<rparr>))" "imr (pic_data m (p\<lparr>polled := False\<rparr>)) = m"
  using assms by (simp_all add: operational_def pic_data_def)

lemmas pics_simps = pics_ready_def irq_enabled_def pic1_def pic2_def

lemma pic_step_1:
  assumes "pics_ready p q tr"
  shows "pics_ready p q (Out PIC1_DATA m # In PIC1_DATA x # tr)"
    "irq_enabled p q (Out PIC1_DATA m # In PIC1_DATA x # tr) i \<longleftrightarrow> (if i < 8 then \<not> bit m i else irq_enabled p q tr i)"
proof -
  have "operational 0x20 0x04 (pic_after PIC1_COMMAND PIC1_DATA p tr)" using assms by (simp add: pics_simps)
  note O = operational_io [OF this, of m]
  show "pics_ready p q (Out PIC1_DATA m # In PIC1_DATA x # tr)"
    "irq_enabled p q (Out PIC1_DATA m # In PIC1_DATA x # tr) i \<longleftrightarrow> (if i < 8 then \<not> bit m i else irq_enabled p q tr i)"
    using assms O by (simp_all add: pics_simps)
qed

lemma pic_step_2:
  assumes "pics_ready p q tr"
  shows "pics_ready p q (Out PIC2_DATA m # In PIC2_DATA x # tr)"
    "irq_enabled p q (Out PIC2_DATA m # In PIC2_DATA x # tr) i \<longleftrightarrow>
     (if i < 8 then irq_enabled p q tr i else i < 16 \<and> \<not> bit m (i - 8))"
proof -
  have "operational 0x28 0x02 (pic_after PIC2_COMMAND PIC2_DATA q tr)" using assms by (simp add: pics_simps)
  note O = operational_io [OF this, of m]
  show "pics_ready p q (Out PIC2_DATA m # In PIC2_DATA x # tr)"
    "irq_enabled p q (Out PIC2_DATA m # In PIC2_DATA x # tr) i \<longleftrightarrow>
     (if i < 8 then irq_enabled p q tr i else i < 16 \<and> \<not> bit m (i - 8))"
    using assms O by (simp_all add: pics_simps)
qed

lemma irq_run_reads_back [simp]: "masks_read_back p q (irq_run op s) = masks_read_back p q s"
  by (cases op) (simp_all add: masks_read_back_def pic_mask_irq_def pic_unmask_irq_def inb_def Let_def)

lemma pic_reads:
  assumes "masks_read_back p q s" "pics_ready p q (io_trace s)"
  shows "devices s (io_trace s) PIC1_DATA = imr (pic1 p (io_trace s))" "devices s (io_trace s) PIC2_DATA = imr (pic2 q (io_trace s))"
  using assms by (simp_all add: masks_read_back_def reads_mask_def pics_ready_def operational_def)

lemma irq_run_enabled:
  assumes "masks_read_back p q s" "pics_ready p q (io_trace s)"
  shows "pics_ready p q (io_trace (irq_run op s))"
    "{i. irq_enabled p q (io_trace (irq_run op s)) i} = enabled_by op {i. irq_enabled p q (io_trace s) i}"
    "cpu_events (irq_run op s) = cpu_events s"
proof -
  note R = pic_reads [OF assms] and S = pic_step_1 [OF assms(2)] pic_step_2 [OF assms(2)]
  let ?tr = "io_trace s"
  have "pics_ready p q (io_trace (irq_run op s)) \<and> irq_enabled p q (io_trace (irq_run op s)) i =
    (i \<in> enabled_by op {i. irq_enabled p q ?tr i})" for i
  proof (cases op)
    case (Mask n)
    have "pics_ready p q (io_trace (irq_run op s)) \<and> irq_enabled p q (io_trace (irq_run op s)) i =
        (irq_enabled p q ?tr i \<and> i \<noteq> unat n)"
      using S assms(2) unfolding Mask
      by (simp add: pic_mask_irq_def inb_def outb_def Let_def R)
        (auto simp: irq_enabled_def bit_simps irq_pic2 word_less_nat_alt)
    then show ?thesis by (simp add: Mask)
  next
    case (Unmask n)
    have "pics_ready p q (io_trace (irq_run op s)) \<and> irq_enabled p q (io_trace (irq_run op s)) i =
        (irq_enabled p q ?tr i \<or> i = unat n \<and> unat n < 16)"
      using S assms(2) unfolding Unmask
      by (simp add: pic_unmask_irq_def inb_def outb_def Let_def R)
        (auto simp: irq_enabled_def bit_simps irq_pic2 word_less_nat_alt)
    then show ?thesis by (auto simp: Unmask)
  qed
  then show "pics_ready p q (io_trace (irq_run op s))"
    "{i. irq_enabled p q (io_trace (irq_run op s)) i} = enabled_by op {i. irq_enabled p q (io_trace s) i}" by blast+
  show "cpu_events (irq_run op s) = cpu_events s"
    by (cases op) (simp_all add: pic_mask_irq_def pic_unmask_irq_def inb_def Let_def)
qed

lemma irq_runs_enabled:
  "masks_read_back p q s \<Longrightarrow> pics_ready p q (io_trace s) \<Longrightarrow>
   pics_ready p q (io_trace (fold irq_run ops s)) \<and>
   {i. irq_enabled p q (io_trace (fold irq_run ops s)) i} = fold enabled_by ops {i. irq_enabled p q (io_trace s) i} \<and>
   cpu_events (fold irq_run ops s) = cpu_events s"
  by (induction ops arbitrary: s) (simp_all add: irq_run_enabled)

lemma pic_init_ready: "pics_ready p q (io_trace (pic_init s))" "\<not> irq_enabled p q (io_trace (pic_init s)) i"
proof -
  let ?tr = "io_trace (pic_init s)"
  have 1: "operational 0x20 0x04 (pic1 p ?tr) \<and> imr (pic1 p ?tr) = 0xFF"
    by (simp add: pic_init_def Let_def io_wait_def sti_def outb_def pic1_def pic_command_def pic_data_def operational_def)
  have 2: "operational 0x28 0x02 (pic2 q ?tr) \<and> imr (pic2 q ?tr) = 0xFF"
    by (simp add: pic_init_def Let_def io_wait_def sti_def outb_def pic2_def pic_command_def pic_data_def operational_def)
  show "pics_ready p q ?tr" using 1 2 by (simp add: pics_ready_def)
  show "\<not> irq_enabled p q ?tr i" using 1 2 by (auto simp: irq_enabled_def bit_ff)
qed

lemma pic_init_frame: "masks_read_back p q (pic_init s) = masks_read_back p q s" "cpu_events (pic_init s) = Sti # cpu_events s"
  by (simp_all add: masks_read_back_def pic_init_def Let_def io_wait_def sti_def)

section \<open>Properties\<close>

text \<open>C38: after \<open>pic_init\<close> and any sequence of \<open>pic_mask_irq\<close> and \<open>pic_unmask_irq\<close> both
  controllers are initialised, whatever they were before: in 8086 mode, the first with vectors
  from 0x20 and the second on its line 2, the second with vectors from 0x28; exactly the
  interrupt lines last unmasked are enabled in their masks (numbers from 16 on change nothing),
  and interrupts have been enabled once. The hypothesis is that a controller that is not being
  initialised or polled gives its mask when its data port is read.\<close>

theorem pic_irqs_enabled:
  fixes ops :: "irq_op list"
  assumes "masks_read_back p q s"
  defines "s' \<equiv> fold irq_run ops (pic_init s)"
  shows "operational 0x20 0x04 (pic1 p (io_trace s')) \<and> operational 0x28 0x02 (pic2 q (io_trace s')) \<and>
    {i. irq_enabled p q (io_trace s') i} = fold enabled_by ops {} \<and> cpu_events s' = Sti # cpu_events s"
  using irq_runs_enabled [of p q "pic_init s" ops] assms(1) unfolding s'_def
  by (simp add: pic_init_frame pic_init_ready) (simp add: pics_ready_def)

text \<open>A pair of controllers whose data ports read their masks, and the keyboard's line unmasked.\<close>

definition pic_reset :: pic8259 where
  "pic_reset = \<lparr>awaits = 0, single = False, needs4 = False, vector = 0, cascade = 0, mode = 0, imr = 0, polled = False\<rparr>"

definition pic_devices :: "io_event list \<Rightarrow> u16 \<Rightarrow> u8" where
  "pic_devices tr port = (if port = PIC1_DATA then imr (pic1 pic_reset tr) else if port = PIC2_DATA then imr (pic2 pic_reset tr) else 0)"

theorem pic_irqs_enabled_witness:
  "{i. irq_enabled pic_reset pic_reset (io_trace (fold irq_run [Unmask 1, Unmask 12, Mask 12]
      (pic_init (blank_terminal\<lparr>devices := pic_devices\<rparr>)))) i} = {1} \<and>
   vector (pic1 pic_reset (io_trace (fold irq_run [Unmask 1, Unmask 12, Mask 12]
      (pic_init (blank_terminal\<lparr>devices := pic_devices\<rparr>))))) = 0x20"
proof -
  have "masks_read_back pic_reset pic_reset (blank_terminal\<lparr>devices := pic_devices\<rparr>)"
    by (simp add: masks_read_back_def reads_mask_def pic_devices_def)
  note P = pic_irqs_enabled [OF this, of "[Unmask 1, Unmask 12, Mask 12]"]
  have "fold enabled_by [Unmask 1, Unmask 12, Mask 12] {} = {1}" by simp
  then show ?thesis using P by (simp only: operational_def)
qed

end
