(* ===== verification/Console.thy ===== *)
theory Console
  imports Keyboard
begin

text \<open>
  The console seen from the system calls: what \<open>kgetc\<close>, \<open>kread\<close> and \<open>kwrite\<close> of
  \<open>kernel/systemcalls.c\<close> do for a schedule of keyboard interrupts, down to the bytes of
  the user's buffer. The keyboard controller is the device behind port 0x60;
  \<open>typing s codes\<close> says that its next reads answer \<open>codes\<close>, whatever other port traffic
  there is.
\<close>

section \<open>Scan codes\<close>

definition key_char :: "u8 \<Rightarrow> u8" where
  "key_char code =
     (if code \<in> {0x01, 0x1D, 0x2A, 0x36, 0x38, 0x3A} \<or> 0x81 \<le> code then 0 else keys ! unat code)"

definition plain_keys :: "u8 list \<Rightarrow> bool" where
  "plain_keys codes \<longleftrightarrow> 0x0E \<notin> set codes \<and> 0x80 \<notin> set codes"

definition typed :: "u8 list \<Rightarrow> u8 list" where
  "typed codes = filter (\<lambda>c. c \<noteq> 0) (map key_char codes)"

lemma typed_simps [simp]:
  "typed [] = []" "typed (c # cs) = (if key_char c = 0 then typed cs else key_char c # typed cs)"
  by (simp_all add: typed_def)

lemma typed_append [simp]: "typed (xs @ ys) = typed xs @ typed ys"
  by (simp add: typed_def)

lemma plain_keys_simps [simp]:
  "plain_keys []" "plain_keys (c # cs) \<longleftrightarrow> c \<noteq> 0x0E \<and> c \<noteq> 0x80 \<and> plain_keys cs"
  by (auto simp: plain_keys_def)

lemma length_keys: "length keys = 128"
  by (simp add: keys_def bytes_of_def)

lemma not_key_up: "\<not> 0x81 \<le> (code :: u8) \<longleftrightarrow> code = 0x80 \<or> unat code < 128"
proof -
  have "\<not> 0x81 \<le> code \<longleftrightarrow> unat code < 129" by (simp add: word_le_nat_alt not_le)
  moreover have "code = 0x80 \<longleftrightarrow> unat code = 128" by (simp add: word_unat_eq_iff)
  ultimately show ?thesis by auto
qed

lemma getkey_plain: "code \<noteq> 0x0E \<Longrightarrow> code \<noteq> 0x80 \<Longrightarrow> getkey code s = Some (key_char code, s)"
  using not_key_up [of code] by (auto simp: getkey_def key_char_def length_keys)

section \<open>The keyboard controller\<close>

fun data_reads :: "io_event list \<Rightarrow> nat" where
  "data_reads [] = 0"
| "data_reads (Out p v # tr) = data_reads tr"
| "data_reads (In p v # tr) = (if p = 0x60 then Suc (data_reads tr) else data_reads tr)"

definition typing :: "'a machine_scheme \<Rightarrow> u8 list \<Rightarrow> bool" where
  "typing s codes \<longleftrightarrow>
     (\<forall>tr k. k < length codes \<longrightarrow> data_reads tr = data_reads (io_trace s) + k \<longrightarrow> devices s tr 0x60 = codes ! k)"

lemma typing_Cons:
  assumes "typing s (code # codes)"
  shows "devices s (io_trace s) 0x60 = code"
    "devices s' = devices s \<Longrightarrow> data_reads (io_trace s') = Suc (data_reads (io_trace s)) \<Longrightarrow> typing s' codes"
proof -
  have t: "devices s tr 0x60 = (code # codes) ! k"
    if "k < Suc (length codes)" "data_reads tr = data_reads (io_trace s) + k" for tr k
    using assms that by (auto simp: typing_def)
  show "devices s (io_trace s) 0x60 = code" using t [of 0 "io_trace s"] by simp
  assume s': "devices s' = devices s" "data_reads (io_trace s') = Suc (data_reads (io_trace s))"
  show "typing s' codes" unfolding typing_def
    using t [of "Suc _"] by (auto simp: s')
qed

lemma data_reads_cursor [simp]: "data_reads (io_trace (term_update_cursor s)) = data_reads (io_trace s)"
  by (simp add: term_update_cursor_def Let_def outb_def)

lemma data_reads_scroll [simp]: "data_reads (io_trace (term_scroll s)) = data_reads (io_trace s)"
  by (simp add: term_scroll_def Let_def fold_keeps [of "\<lambda>s. data_reads (io_trace s)"])

lemma data_reads_putchar [simp]: "data_reads (io_trace (term_putchar c s)) = data_reads (io_trace s)"
  by (simp add: term_putchar_def Let_def)

text \<open>What the console changes besides its buffer: the screen and the port traffic.\<close>

definition console_step :: "'a kernel_scheme \<Rightarrow> 'a kernel_scheme \<Rightarrow> bool" where
  "console_step s s' \<longleftrightarrow> outside_vga (term_ptr s) (mem s) (mem s') \<and> term_inv s' \<and>
     term_ptr s' = term_ptr s \<and> cr0 s' = cr0 s \<and> cr3 s' = cr3 s \<and> hhdm_base s' = hhdm_base s \<and>
     freelist s' = freelist s \<and> hdr s' = hdr s \<and> devices s' = devices s"

lemma console_step_refl [simp]: "console_step s s \<longleftrightarrow> term_inv s"
  by (simp add: console_step_def)

lemma console_step_trans: "console_step s s1 \<Longrightarrow> console_step s1 s2 \<Longrightarrow> console_step s s2"
  by (auto simp: console_step_def intro: outside_vga_trans)

lemma console_step_inv: "console_step s s' \<Longrightarrow> term_inv s'"
  by (simp add: console_step_def)

section \<open>Interrupts\<close>

lemmas term_putchar_kmem [simp] = term_puts_kmem [of "[c]" for c, simplified] term_puts_kernel [of "[c]" for c, simplified]

lemma put_char_frame:
  "term_inv s \<Longrightarrow> console_step s (put_char c s)"
  "data_reads (io_trace (put_char c s)) = data_reads (io_trace s)"
  "devices (put_char c s) = devices s"
proof -
  have "term_inv (put_char c s) \<longleftrightarrow> term_inv (term_puts [c] s)"
    by (simp add: term_inv_def put_char_def Let_def)
  then show "term_inv s \<Longrightarrow> console_step s (put_char c s)"
    using term_puts_refines [of s "[c]"] by (simp add: console_step_def) (simp add: put_char_def Let_def)
qed (simp_all add: put_char_def Let_def)

lemma kb_rep_cong:
  "buffer s' = buffer s \<Longrightarrow> buffer_length s' = buffer_length s \<Longrightarrow> reading_index s' = reading_index s \<Longrightarrow>
   writing_index s' = writing_index s \<Longrightarrow> kb_rep s' q = kb_rep s q"
  by (simp add: kb_rep_def queue_at_def)

lemma keyboard_interrupt_eq:
  assumes "code = devices s (io_trace s) 0x60" "code \<noteq> 0x0E" "code \<noteq> 0x80"
  shows "keyboard_interrupt s =
    map_option (outb PIC1_COMMAND PIC_EOI) (char_write (key_char code) (s\<lparr>io_trace := In 0x60 code # io_trace s\<rparr>))"
  using assms by (simp add: keyboard_interrupt_def inb_def Let_def getkey_plain map_option_case split: option.split)

lemma keyboard_interrupt_plain:
  assumes rep: "kb_rep s q" and inv: "term_inv s" and ty: "typing s (code # codes)"
    and plain: "plain_keys (code # codes)" and room: "length (q @ typed [code]) \<le> 100"
  shows "\<exists>s'. keyboard_interrupt s = Some s' \<and> kb_rep s' (q @ typed [code]) \<and> typing s' codes \<and> console_step s s'"
proof -
  let ?in = "s\<lparr>io_trace := In 0x60 code # io_trace s\<rparr>"
  define w where "w = (if key_char code = 0 then ?in else put_char (key_char code) ?in)"
  have rep_in: "kb_rep ?in q" using rep by (subst kb_rep_cong [of _ s]) simp_all
  have step_in: "console_step s ?in" using inv by (simp add: console_step_def term_inv_def)
  have w: "char_write (key_char code) ?in = Some w \<and> kb_rep w (q @ typed [code])"
    using kb_put [OF rep_in, of "key_char code"] rep_in room
    by (auto simp: w_def char_write_def [of 0])
  moreover have "console_step s w"
    using step_in put_char_frame(1) [of ?in "key_char code"] console_step_inv [OF step_in]
    by (auto simp: w_def intro: console_step_trans)
  moreover have "typing (outb PIC1_COMMAND PIC_EOI w) codes"
    by (rule typing_Cons(2) [OF ty]) (simp_all add: w_def put_char_frame)
  moreover have "keyboard_interrupt s = Some (outb PIC1_COMMAND PIC_EOI w)"
    using keyboard_interrupt_eq [of code s] typing_Cons(1) [OF ty] plain w by simp
  moreover have "kb_rep (outb PIC1_COMMAND PIC_EOI w) (q @ typed [code])"
    using w by (subst kb_rep_cong [of _ w]) (simp_all add: outb_def)
  moreover have "console_step w (outb PIC1_COMMAND PIC_EOI w)"
    using console_step_inv [OF \<open>console_step s w\<close>] by (simp add: console_step_def term_inv_def outb_def)
  ultimately show ?thesis by (blast intro: console_step_trans)
qed

lemma interrupts_plain:
  "kb_rep s q \<Longrightarrow> term_inv s \<Longrightarrow> typing s (codes @ rest) \<Longrightarrow> plain_keys (codes @ rest) \<Longrightarrow>
   length (q @ typed codes) \<le> 100 \<Longrightarrow>
   \<exists>s'. interrupts (length codes) s = Some s' \<and> kb_rep s' (q @ typed codes) \<and> typing s' rest \<and> console_step s s'"
proof (induction codes arbitrary: s q)
  case (Cons code codes)
  obtain s1 where s1: "keyboard_interrupt s = Some s1" "kb_rep s1 (q @ typed [code])"
    "typing s1 (codes @ rest)" "console_step s s1"
    using keyboard_interrupt_plain [of s q code "codes @ rest"] Cons.prems by (auto split: if_splits)
  have "length ((q @ typed [code]) @ typed codes) \<le> 100" using Cons.prems(5) by (auto split: if_splits)
  then obtain s2 where "interrupts (length codes) s1 = Some s2" "kb_rep s2 ((q @ typed [code]) @ typed codes)"
    "typing s2 rest" "console_step s1 s2"
    using Cons.IH [OF s1(2) console_step_inv [OF s1(4)] s1(3)] Cons.prems(4) by auto
  then show ?case using s1 console_step_trans [OF s1(4)] by (auto split: if_splits)
qed simp

section \<open>Waiting for a character\<close>

text \<open>
  A schedule under which the buffer never holds more than its 100 characters: \<open>w\<close> characters
  wait; each look at the length comes after \<open>n\<close> interrupts and takes one character if it
  finds any. The number of characters typed in all is not bounded.
\<close>

fun paced :: "nat \<Rightarrow> nat list \<Rightarrow> u8 list \<Rightarrow> bool" where
  "paced w [] codes \<longleftrightarrow> w \<le> 100"
| "paced w (n # ns) codes \<longleftrightarrow>
     w + length (typed (take n codes)) \<le> 100 \<and> paced (w + length (typed (take n codes)) - 1) ns (drop n codes)"

lemma kb_rep_length0: "kb_rep s q \<Longrightarrow> buffer_length s = 0 \<longleftrightarrow> q = []"
proof -
  assume "kb_rep s q"
  then have "buffer_length s = of_nat (length q)" "length q \<le> 100" by (simp_all add: kb_rep_def queue_at_def)
  then have "unat (buffer_length s) = length q" by (simp add: unat_of_nat)
  then show ?thesis by (auto simp: word_unat_eq_iff)
qed

lemma take_char_frame:
  "term_inv s \<Longrightarrow> console_step s (take_char s)" "io_trace (take_char s) = io_trace s" "devices (take_char s) = devices s"
  by (simp_all add: console_step_def take_char_def term_inv_def)

lemma typing_cong: "devices s' = devices s \<Longrightarrow> io_trace s' = io_trace s \<Longrightarrow> typing s' codes = typing s codes"
  by (simp add: typing_def)

lemma kgetc_wait_fifo:
  "kb_rep s q \<Longrightarrow> term_inv s \<Longrightarrow> typing s codes \<Longrightarrow> plain_keys codes \<Longrightarrow> sum_list ns = length codes \<Longrightarrow>
   paced (length q) ns codes \<Longrightarrow> q @ typed codes \<noteq> [] \<Longrightarrow>
   \<exists>ns' s' q' codes'. kgetc_wait ns s = Some (ns', s') \<and> kb_rep s' q' \<and> q' \<noteq> [] \<and> typing s' codes' \<and>
     plain_keys codes' \<and> sum_list ns' = length codes' \<and> paced (length q' - 1) ns' codes' \<and>
     q' @ typed codes' = q @ typed codes \<and> console_step s s'"
proof (induction ns arbitrary: s q codes)
  case Nil
  then show ?case using kb_rep_length0 [OF Nil.prems(1)] by auto
next
  case (Cons n ns)
  let ?now = "take n codes" and ?later = "drop n codes"
  have n: "length ?now = n" and all: "codes = ?now @ ?later" using Cons.prems(5) by auto
  have typed: "typed codes = typed ?now @ typed ?later" by (metis all typed_append)
  obtain s1 where s1: "interrupts n s = Some s1" "kb_rep s1 (q @ typed ?now)" "typing s1 ?later" "console_step s s1"
    using interrupts_plain [of s q ?now ?later] Cons.prems n typed by auto
  have later: "plain_keys ?later" "sum_list ns = length ?later" "paced (length (q @ typed ?now) - 1) ns ?later"
    using Cons.prems(4-6) by (auto simp: plain_keys_def dest: in_set_dropD)
  show ?case
  proof (cases "q @ typed ?now = []")
    case True
    then have ne: "(q @ typed ?now) @ typed ?later = q @ typed codes" "(q @ typed ?now) @ typed ?later \<noteq> []"
      using Cons.prems(7) typed by auto
    have "kgetc_wait (n # ns) s = kgetc_wait ns s1" using s1(1) True kb_rep_length0 [OF s1(2)] by simp
    have pace: "paced (length (q @ typed ?now)) ns ?later" using later(3) True by simp
    from Cons.IH [OF s1(2) console_step_inv [OF s1(4)] s1(3) later(1,2) pace ne(2)] obtain ns' s' q' codes' where
      "kgetc_wait ns s1 = Some (ns', s')" "kb_rep s' q'" "q' \<noteq> []" "typing s' codes'" "plain_keys codes'"
      "sum_list ns' = length codes'" "paced (length q' - 1) ns' codes'"
      "q' @ typed codes' = (q @ typed ?now) @ typed ?later" "console_step s1 s'"
      by blast
    with this show ?thesis
      using console_step_trans [OF s1(4)] \<open>kgetc_wait (n # ns) s = kgetc_wait ns s1\<close> ne(1)
      by (intro exI [of _ ns'] exI [of _ s'] exI [of _ q'] exI [of _ codes']) simp
  next
    case False
    then have "kgetc_wait (n # ns) s = Some (ns, s1)" using s1(1) kb_rep_length0 [OF s1(2)] by auto
    then show ?thesis using s1 later False typed
      by (intro exI [of _ ns] exI [of _ s1] exI [of _ "q @ typed ?now"] exI [of _ ?later]) auto
  qed
qed

lemma kgetc_fifo:
  assumes "kb_rep s q" "term_inv s" "typing s codes" "plain_keys codes" "sum_list ns = length codes"
    "paced (length q) ns codes" "q @ typed codes = c # rest"
  shows "\<exists>ns' s' q' codes'. kgetc ns s = Some (c, ns', s') \<and> kb_rep s' q' \<and> typing s' codes' \<and>
     plain_keys codes' \<and> sum_list ns' = length codes' \<and> paced (length q') ns' codes' \<and>
     q' @ typed codes' = rest \<and> console_step s s'"
proof -
  have "q @ typed codes \<noteq> []" using assms(7) by simp
  from kgetc_wait_fifo [OF assms(1-6) this] obtain ns' s1 q1 codes' where
    s1: "kgetc_wait ns s = Some (ns', s1)" "kb_rep s1 q1" "q1 \<noteq> []" "typing s1 codes'" "plain_keys codes'"
      "sum_list ns' = length codes'" "q1 @ typed codes' = q @ typed codes" "console_step s s1"
      "paced (length q1 - 1) ns' codes'" by blast
  then obtain q' where q1: "q1 = c # q'" "q' @ typed codes' = rest" "paced (length q') ns' codes'"
    using assms(7) by (cases q1) auto
  then have "kgetc ns s = Some (c, ns', take_char s1)" "kb_rep (take_char s1) q'"
    using s1 kb_get [of s1 c q'] by (simp_all add: kgetc_def)
  moreover have "typing (take_char s1) codes'"
    using s1(4) typing_cong [of "take_char s1" s1] take_char_frame(2,3) by blast
  moreover have "console_step s (take_char s1)"
    using s1(8) take_char_frame(1) console_step_inv console_step_trans by blast
  ultimately show ?thesis using s1 q1 by blast
qed

section \<open>Reading into a buffer\<close>

text \<open>
  \<open>n\<close> bytes of a buffer that stay writable, at fixed and distinct places \<open>at i\<close> outside the
  text buffer, as long as only the buffer and the screen change: no page table is in either.
\<close>

definition writable_buffer :: "'a kernel_scheme \<Rightarrow> u64 \<Rightarrow> nat \<Rightarrow> (nat \<Rightarrow> u64) \<Rightarrow> bool" where
  "writable_buffer s buf n at \<longleftrightarrow> inj_on at {..<n} \<and> (\<forall>i<n. 4000 \<le> at i - term_ptr s) \<and>
     (\<forall>s' :: 'a kernel_scheme. (\<forall>b. 4000 \<le> b - term_ptr s \<longrightarrow> b \<notin> at ` {..<n} \<longrightarrow> mem s' b = mem s b) \<longrightarrow>
        cr0 s' = cr0 s \<longrightarrow> cr3 s' = cr3 s \<longrightarrow> hhdm_base s' = hhdm_base s \<longrightarrow>
        (\<forall>i<n. vaddr s' True (buf + of_nat i) = Some (at i)))"

definition read_step :: "u64 set \<Rightarrow> 'a kernel_scheme \<Rightarrow> 'a kernel_scheme \<Rightarrow> bool" where
  "read_step A s s' \<longleftrightarrow> (\<forall>b. 4000 \<le> b - term_ptr s \<longrightarrow> b \<notin> A \<longrightarrow> mem s' b = mem s b) \<and> term_inv s' \<and>
     term_ptr s' = term_ptr s \<and> cr0 s' = cr0 s \<and> cr3 s' = cr3 s \<and> hhdm_base s' = hhdm_base s \<and>
     freelist s' = freelist s \<and> hdr s' = hdr s \<and> devices s' = devices s"

lemma read_step_console: "console_step s s' \<Longrightarrow> read_step A s s'"
  by (simp add: console_step_def read_step_def outside_vga_def)

lemma read_step_trans: "read_step A s s1 \<Longrightarrow> read_step A s1 s2 \<Longrightarrow> read_step A s s2"
  by (simp add: read_step_def)

lemma read_step_buffer:
  "writable_buffer s buf n at \<Longrightarrow> read_step (at ` {..<n}) s s' \<Longrightarrow> i < n \<Longrightarrow> vaddr s' True (buf + of_nat i) = Some (at i)"
  by (simp add: writable_buffer_def read_step_def)

lemma kread_loop_step:
  assumes "i < n" "n < 2147483648" "kgetc ns s = Some (c, ns1, s1)" "vwrite (buf + of_nat i) c s1 = Some s2"
  shows "kread_loop buf (of_nat n) (int i) ns s = kread_loop buf (of_nat n) (int (Suc i)) ns1 s2"
proof -
  have lt: "(of_nat i :: u64) < of_nat n" using assms(1,2) by (simp add: word_less_nat_alt unat_of_nat)
  have "\<not> 2147483647 \<le> int i" using assms(1,2) by simp_all
  then show ?thesis by (subst kread_loop.simps) (simp add: lt assms(3,4) add.commute)
qed

lemma kread_loop_fifo:
  assumes buf: "writable_buffer s0 buf n at" and n: "n < 2147483648"
  shows "i \<le> n \<Longrightarrow> kb_rep s q \<Longrightarrow> term_inv s \<Longrightarrow> typing s codes \<Longrightarrow> plain_keys codes \<Longrightarrow> sum_list ns = length codes \<Longrightarrow>
    paced (length q) ns codes \<Longrightarrow> n - i \<le> length (q @ typed codes) \<Longrightarrow> read_step (at ` {..<n}) s0 s \<Longrightarrow>
    \<exists>ns' s' q' codes'. kread_loop buf (of_nat n) (int i) ns s = Some (ns', s') \<and> kb_rep s' q' \<and>
      typing s' codes' \<and> plain_keys codes' \<and> sum_list ns' = length codes' \<and> paced (length q') ns' codes' \<and>
      q' @ typed codes' = drop (n - i) (q @ typed codes) \<and> read_step (at ` {..<n}) s0 s' \<and>
      (\<forall>j<n. mem s' (at j) = (if i \<le> j then (q @ typed codes) ! (j - i) else mem s (at j)))"
proof (induction "n - i" arbitrary: i s q codes ns)
  case 0
  then show ?case by (subst kread_loop.simps) (auto simp: word_less_nat_alt)
next
  case (Suc d)
  then have i: "i < n" "n - i = Suc (n - Suc i)" by auto
  obtain c rest where c: "q @ typed codes = c # rest" using Suc.prems(8) i by (cases "q @ typed codes") auto
  obtain ns1 s1 q1 codes1 where s1: "kgetc ns s = Some (c, ns1, s1)" "kb_rep s1 q1" "typing s1 codes1"
    "plain_keys codes1" "sum_list ns1 = length codes1" "q1 @ typed codes1 = rest" "console_step s s1"
    "paced (length q1) ns1 codes1"
    using kgetc_fifo [OF Suc.prems(2-7) c] by blast
  let ?s2 = "s1\<lparr>mem := (mem s1)(at i := c)\<rparr>"
  have r1: "read_step (at ` {..<n}) s0 s1"
    using Suc.prems(9) read_step_console [OF s1(7)] read_step_trans by blast
  then have w: "vwrite (buf + of_nat i) c s1 = Some ?s2"
    using read_step_buffer [OF buf r1 i(1)] by (simp add: vwrite_def)
  have r2: "read_step (at ` {..<n}) s0 ?s2" using r1 i(1) by (auto simp: read_step_def term_inv_def)
  have "\<exists>ns' s' q' codes'. kread_loop buf (of_nat n) (int (Suc i)) ns1 ?s2 = Some (ns', s') \<and> kb_rep s' q' \<and>
      typing s' codes' \<and> plain_keys codes' \<and> sum_list ns' = length codes' \<and> paced (length q') ns' codes' \<and>
      q' @ typed codes' = drop (n - Suc i) (q1 @ typed codes1) \<and> read_step (at ` {..<n}) s0 s' \<and>
      (\<forall>j<n. mem s' (at j) = (if Suc i \<le> j then (q1 @ typed codes1) ! (j - Suc i) else mem ?s2 (at j)))"
  proof (rule Suc.hyps(1))
    show "kb_rep ?s2 q1" using s1(2) by (subst kb_rep_cong [of _ s1]) simp_all
    show "term_inv ?s2" using r2 by (simp add: read_step_def)
    show "typing ?s2 codes1" using s1(3) typing_cong [of ?s2 s1] by simp
    show "n - Suc i \<le> length (q1 @ typed codes1)"
      using Suc.prems(7,8) c s1(6) i by auto
  qed (use Suc i s1 r2 in auto)
  then obtain ns' s' q' codes' where s': "kread_loop buf (of_nat n) (int (Suc i)) ns1 ?s2 = Some (ns', s')"
    "kb_rep s' q'" "typing s' codes'" "plain_keys codes'" "sum_list ns' = length codes'"
    "q' @ typed codes' = drop (n - Suc i) rest" "read_step (at ` {..<n}) s0 s'"
    "\<forall>j<n. mem s' (at j) = (if Suc i \<le> j then rest ! (j - Suc i) else mem ?s2 (at j))"
    "paced (length q') ns' codes'"
    using s1(6) by auto
  have "mem s1 (at j) = mem s (at j)" if "j < n" for j
    using buf s1(7) Suc.prems(9) that by (simp add: writable_buffer_def read_step_def console_step_def outside_vga_def)
  moreover have "at j = at i \<longleftrightarrow> j = i" if "j < n" for j
    using buf i(1) that by (auto simp: writable_buffer_def inj_on_def)
  ultimately have m2: "mem ?s2 (at j) = (if j = i then c else mem s (at j))" if "j < n" for j
    using that by simp
  have m: "\<forall>j<n. mem s' (at j) = (if i \<le> j then (q @ typed codes) ! (j - i) else mem s (at j))"
  proof (intro allI impI)
    fix j assume j: "j < n"
    have "mem s' (at j) = (if Suc i \<le> j then rest ! (j - Suc i) else if j = i then c else mem s (at j))"
      using s'(8) j m2 [OF j] by presburger
    moreover have "rest ! (j - Suc i) = (c # rest) ! (j - i)" if "Suc i \<le> j"
    proof -
      have "j - i = Suc (j - Suc i)" using that by linarith
      then show ?thesis by simp
    qed
    ultimately show "mem s' (at j) = (if i \<le> j then (q @ typed codes) ! (j - i) else mem s (at j))"
      by (cases "j = i") (simp_all add: c)
  qed
  have "kread_loop buf (of_nat n) (int i) ns s = Some (ns', s')"
    using s'(1) kread_loop_step [OF i(1) n s1(1) w] by simp
  then show ?case using s' m c i(2) by (intro exI [of _ ns'] exI [of _ s'] exI [of _ q'] exI [of _ codes']) simp
qed

section \<open>Writing from a buffer\<close>

definition readable_text :: "'a terminal_scheme \<Rightarrow> u64 \<Rightarrow> u8 list \<Rightarrow> bool" where
  "readable_text s buf cs \<longleftrightarrow>
     (\<forall>s' :: 'a terminal_scheme. outside_vga (term_ptr s) (mem s) (mem s') \<longrightarrow>
        cr0 s' = cr0 s \<longrightarrow> cr3 s' = cr3 s \<longrightarrow> hhdm_base s' = hhdm_base s \<longrightarrow>
        (\<forall>i<length cs. vread s' (buf + of_nat i) = Some (cs ! i)))"

lemma kwrite_loop_text:
  assumes "readable_text s buf cs" "length cs < 2 ^ 31" "term_inv s"
  shows "i \<le> length cs \<Longrightarrow>
    kwrite_loop (Addr (buf + of_nat i)) (of_nat (length cs)) (of_nat i) (term_puts (take i cs) s) = Some (term_puts cs s)"
proof (induction "length cs - i" arbitrary: i)
  case 0
  then show ?case by (subst kwrite_loop.simps) simp
next
  case (Suc d)
  then have i: "i < length cs" by simp
  have lt: "(of_nat i :: u64) < of_nat (length cs)"
    using i assms(2) by (simp add: word_less_nat_alt unat_of_nat)
  have "vread (term_puts (take i cs) s) (buf + of_nat i) = Some (cs ! i)"
    using assms(1) i term_puts_outside [OF assms(3)] by (simp add: readable_text_def)
  then have "kwrite_loop (Addr (buf + of_nat i)) (of_nat (length cs)) (of_nat i) (term_puts (take i cs) s) =
      kwrite_loop (Addr (buf + of_nat (Suc i))) (of_nat (length cs)) (of_nat (Suc i)) (term_puts (take (Suc i) cs) s)"
    using lt i by (subst kwrite_loop.simps)
      (simp add: kview_def kprint_c_def take_Suc_conv_app_nth add.commute add.left_commute)
  then show ?case using Suc.hyps(1) [of "Suc i"] Suc.hyps(2) i by simp
qed

lemma kwrite_text:
  assumes "readable_text s buf cs" "length cs < 2 ^ 31" "term_inv s"
  shows "kwrite (Addr buf) (of_nat (length cs)) s = Some (int (length cs), term_puts cs s)"
  using kwrite_loop_text [OF assms le0] int_of_len_small [of "length cs"] assms(2) by (simp add: kwrite_def)

lemma kread_fifo:
  fixes s :: "'a kernel_scheme"
  assumes "kb_rep s q" "term_inv s" "typing s codes" "plain_keys codes" "sum_list ns = length codes"
    "paced (length q) ns codes" "n \<le> length (q @ typed codes)" "writable_buffer s buf n at" "n < 2 ^ 31"
  shows "\<exists>ns' s' q' codes'. kread buf (of_nat n) ns s = Some (int n, ns', s') \<and> kb_rep s' q' \<and> typing s' codes' \<and>
    plain_keys codes' \<and> sum_list ns' = length codes' \<and> paced (length q') ns' codes' \<and>
    q' @ typed codes' = drop n (q @ typed codes) \<and>
    read_step (at ` {..<n}) s s' \<and> (\<forall>j<n. mem s' (at j) = (q @ typed codes) ! j)"
proof -
  have n: "n < 2147483648" and step: "read_step (at ` {..<n}) s s" using assms by (simp_all add: read_step_def)
  obtain ns' s' q' codes' where "kread_loop buf (of_nat n) (int 0) ns s = Some (ns', s')"
    "kb_rep s' q'" "typing s' codes'" "plain_keys codes'" "sum_list ns' = length codes'"
    "q' @ typed codes' = drop (n - 0) (q @ typed codes)" "read_step (at ` {..<n}) s s'"
    "\<forall>j<n. mem s' (at j) = (if 0 \<le> j then (q @ typed codes) ! (j - 0) else mem s (at j))" "paced (length q') ns' codes'"
    using kread_loop_fifo [OF assms(8) n le0 assms(1-6) _ step] assms(7) by auto
  then show ?thesis using n int_of_len_small [of n] by (auto simp: kread_def)
qed

section \<open>Backspace\<close>

lemma backspace_index:
  assumes "unat (reading_index s) < 100"
  shows "unat (reading_index (backspace s)) = (unat (reading_index s) + 99) mod 100"
proof (cases "reading_index s = 0")
  case True
  then show ?thesis by (simp add: backspace_def Let_def)
next
  case False
  then have u: "unat (reading_index s - 1) = unat (reading_index s) - 1" "0 < unat (reading_index s)"
    by (simp_all add: unat_minus_one unat_gt_0)
  then have "0 \<le> sint (reading_index s - 1)" using assms sint_u8(1) [of "reading_index s - 1"] by simp
  then show ?thesis using u assms by (simp add: backspace_def Let_def) (simp add: mod_if)
qed

lemma backspace_frame:
  "buffer (backspace s) = buffer s" "buffer_length (backspace s) = buffer_length s - 1"
  by (simp_all add: backspace_def Let_def)

section \<open>A kernel at work\<close>

definition kernel_machine :: "mem \<Rightarrow> u8 list \<Rightarrow> kernel" where
  "kernel_machine m codes = \<lparr>mem = m, cr0 = 0, cr3 = 0x1000, hhdm_base = 0xFFFF800000000000, cpu_events = [],
     io_trace = [], devices = (\<lambda>tr p. if p = 0x60 \<and> data_reads tr < length codes then codes ! data_reads tr else 0),
     term_ptr = 0xFFFF8000000B8000, term_col = 0, term_row = 0,
     freelist = 0, free_page_counter = 0, hdr = 0xFFFFFFFF80001000,
     buffer = replicate 100 0, buffer_length = 0, reading_index = 0, writing_index = 0\<rparr>"

lemma kernel_machine_facts:
  "kb_rep (kernel_machine m codes) []" "term_inv (kernel_machine m codes)" "typing (kernel_machine m codes) codes"
  by (simp_all add: kb_rep_def queue_at_def kernel_machine_def term_inv_def typing_def)

section \<open>Properties\<close>

text \<open>C24: when the keys pressed include neither backspace nor the scan code 0x80 and the buffer
  never has to hold more than its 100 characters, \<open>kread\<close> waits until enough keys have been
  pressed and then holds the first \<open>n\<close> characters in the order they were typed, whatever the
  moments at which the interrupts arrive between its looks at the buffer; the characters not
  read stay queued, in order. Neither \<open>n\<close> nor the characters typed are bounded by the buffer.\<close>

theorem kread_returns_typed:
  fixes s :: "'a kernel_scheme"
  assumes "kb_rep s q" "term_inv s" "typing s codes" "plain_keys codes" "sum_list ns = length codes"
    "paced (length q) ns codes" "n \<le> length (q @ typed codes)" "writable_buffer s buf n at" "n < 2 ^ 31"
  shows "\<exists>ns' s' q' codes'. kread buf (of_nat n) ns s = Some (int n, ns', s') \<and>
    map (\<lambda>j. mem s' (at j)) [0..<n] = take n (q @ typed codes) \<and>
    kb_rep s' q' \<and> typing s' codes' \<and> q' @ typed codes' = drop n (q @ typed codes)"
proof -
  obtain ns' s' q' codes' where s': "kread buf (of_nat n) ns s = Some (int n, ns', s')"
    "kb_rep s' q'" "typing s' codes'" "q' @ typed codes' = drop n (q @ typed codes)"
    "\<forall>j<n. mem s' (at j) = (q @ typed codes) ! j"
    using kread_fifo [OF assms] by blast
  have "map (\<lambda>j. mem s' (at j)) [0..<n] = take n (q @ typed codes)"
    using s'(5) assms(7) by (intro nth_equalityI) (simp_all del: take_append)
  then show ?thesis using s'(1-4) by blast
qed

text \<open>The witness reads two characters, typed as ``a'' and ``b'' (scan codes 0x1E and 0x30, with
  the release code 0x9E between), the keys arriving on the third look at the buffer.\<close>

theorem kread_returns_typed_witness:
  "\<exists>ns' s' q' codes'. kread 0xFFFFFFFF80100000 (of_nat 2) [0, 0, 3] (kernel_machine (\<lambda>_. 0) [0x1E, 0x9E, 0x30]) =
      Some (int 2, ns', s') \<and>
    map (\<lambda>j. mem s' (0xFFFFFFFF80100000 + of_nat j)) [0..<2] = bytes_of ''ab'' \<and>
    kb_rep s' q' \<and> typing s' codes' \<and> q' @ typed codes' = []"
proof -
  let ?s = "kernel_machine (\<lambda>_. 0) [0x1E, 0x9E, 0x30]"
  have t: "typed [0x1E, 0x9E, 0x30] = bytes_of ''ab''"
    by (simp add: key_char_def keys_def bytes_of_def)
  have "upper_half (0xFFFFFFFF80100000 + of_nat i)" if "i < 2" for i
    using that by (intro upper_half_add) simp_all
  then have "writable_buffer ?s 0xFFFFFFFF80100000 2 (\<lambda>j. 0xFFFFFFFF80100000 + of_nat j)"
    by (auto simp: writable_buffer_def kernel_machine_def vaddr_def inj_on_def less_2_cases_iff)
  from kread_returns_typed [OF kernel_machine_facts _ _ _ _ this, of "[0, 0, 3]"]
  show ?thesis by (simp add: t bytes_of_def del: typed_simps(2))
qed

text \<open>C28: \<open>kwrite\<close> prints exactly the \<open>len\<close> bytes of the user's buffer, in order, and returns
  \<open>len\<close>.\<close>

theorem kwrite_prints:
  assumes "readable_text s buf cs" "length cs < 2 ^ 31" "term_inv s"
  shows "kwrite (Addr buf) (of_nat (length cs)) s = Some (int (length cs), term_puts cs s)"
  using assms by (rule kwrite_text)

theorem kwrite_prints_witness:
  "kwrite (Addr 0xFFFFFFFF80100000) 2 ((kernel_machine (\<lambda>a. if a = 0xFFFFFFFF80100000 then 104 else 105)) []) =
   Some (2, term_puts [104, 105] (kernel_machine (\<lambda>a. if a = 0xFFFFFFFF80100000 then 104 else 105) []))"
proof -
  let ?s = "kernel_machine (\<lambda>a. if a = 0xFFFFFFFF80100000 then 104 else 105) []"
  have "upper_half 0xFFFFFFFF80100000" "upper_half 0xFFFFFFFF80100001" by (simp_all add: upper_half_iff)
  then have "readable_text ?s 0xFFFFFFFF80100000 [104, 105]"
    by (auto simp: readable_text_def kernel_machine_def outside_vga_def vread_def vaddr_def less_Suc_eq)
  from kwrite_prints [OF this] show ?thesis using kernel_machine_facts(2) by simp
qed

text \<open>C25: the circular buffer is a queue: for any sequence of \<open>char_write\<close> and reads that
  never puts into 100 waiting characters nor takes from none, the characters read are the ones
  written, in order, and what is left is still queued, across every wrap of the two indices.\<close>

theorem keyboard_buffer_fifo:
  assumes "kb_rep s q" "kb.fits ops (length q)"
  shows "\<exists>outs s' q'. kb.run ops s = Some (outs, s') \<and> kb_rep s' q' \<and> q @ kb.puts ops = outs @ q'"
  using assms by (rule kb.run_fifo)

theorem keyboard_buffer_fifo_witness:
  "\<exists>outs s' q'. kb.run (concat (replicate 150 [Put 97, Get])) (kernel_machine (\<lambda>_. 0) []) = Some (outs, s') \<and>
    kb_rep s' q' \<and> kb.puts (concat (replicate 150 [Put 97, Get])) = outs @ q'"
proof -
  have "kb.fits (concat (replicate k [Put 97, Get])) 0" for k by (induction k) simp_all
  from keyboard_buffer_fifo [OF kernel_machine_facts(1)] this show ?thesis by force
qed

text \<open>C26: \<open>char_write\<close> has no test for a full buffer: with 100 characters waiting, the next one
  overwrites the oldest, the length becomes 101, and the next read returns the newest
  character in place of the oldest.\<close>

theorem keyboard_buffer_overrun:
  assumes "kb_rep s q" "length q = 100" "c \<noteq> 0"
  shows "\<exists>s' s''. char_write c s = Some s' \<and> sint (buffer_length s') = 101 \<and> kgetc_take s' = Some (c, s'')"
proof -
  let ?r = "unat (reading_index s)"
  have Q: "?r < 100" "length (buffer s) = 100" "unat (writing_index s) = ?r" "buffer_length s = 100"
    using assms(1,2) by (simp_all add: kb_rep_def queue_at_def)
  have "buffer (put_char c s) ! ?r = c" "length (buffer (put_char c s)) = 100"
    "reading_index (put_char c s) = reading_index s" "buffer_length (put_char c s) = 101"
    using Q by (simp_all add: put_char_def Let_def)
  then show ?thesis
    using char_write_put [OF assms(3) Q(2)] kgetc_take_eq [of "put_char c s"] Q by simp
qed

theorem keyboard_buffer_overrun_witness:
  "\<exists>s' s''. char_write 98 ((kernel_machine (\<lambda>_. 0) []) \<lparr>buffer := replicate 100 97, buffer_length := 100\<rparr>) = Some s' \<and>
    sint (buffer_length s') = 101 \<and> kgetc_take s' = Some (98, s'')"
  by (rule keyboard_buffer_overrun [where q = "replicate 100 97"])
    (simp_all add: kb_rep_def queue_at_def kernel_machine_def)

text \<open>C27: \<open>backspace\<close> moves the reading index, not the writing index: unless exactly one
  character waits, the next read does not wait and returns the stale byte before the reading
  index, even when the buffer was empty and a read would have waited.\<close>

theorem backspace_reads_stale:
  assumes "kb_rep s q" "length q \<noteq> 1"
  shows "\<exists>s'. kgetc [] (backspace s) = Some (buffer s ! ((unat (reading_index s) + 99) mod 100), [], s') \<and>
    (q = [] \<longrightarrow> kgetc [] s = None)"
proof -
  have Q: "unat (reading_index s) < 100" "length (buffer s) = 100" "buffer_length s = of_nat (length q)" "length q \<le> 100"
    using assms(1) by (simp_all add: kb_rep_def queue_at_def)
  have "unat (buffer_length s) = length q" using Q(3,4) by (simp add: unat_of_nat)
  then have "buffer_length s \<noteq> 1" using assms(2) by auto
  then have "buffer_length (backspace s) \<noteq> 0" by (simp add: backspace_frame)
  then show ?thesis
    using kgetc_take_eq [of "backspace s"] backspace_index [OF Q(1)] Q(2) kb_rep_length0 [OF assms(1)]
    by (simp add: kgetc_def backspace_frame)
qed

theorem backspace_reads_stale_witness:
  "\<exists>s'. kgetc [] (backspace (kernel_machine (\<lambda>_. 0) [])) = Some (0, [], s') \<and> kgetc [] (kernel_machine (\<lambda>_. 0) []) = None"
proof -
  have "buffer (kernel_machine (\<lambda>_. 0) []) ! ((unat (reading_index (kernel_machine (\<lambda>_. 0) [])) + 99) mod 100) = 0"
    by (simp add: kernel_machine_def)
  then show ?thesis using backspace_reads_stale [OF kernel_machine_facts(1) [of "\<lambda>_. 0" "[]"]] by simp
qed

text \<open>\<open>getkey\<close> reads outside its table of 128 keys for the scan code 0x80 and for no other:
  every code from 0x81 on is a release and is filtered before.\<close>

theorem getkey_out_of_bounds: "getkey code s = None \<longleftrightarrow> code = 0x80"
proof
  show "getkey code s = None \<Longrightarrow> code = 0x80"
    using getkey_plain [of code s] by (cases "code = 0x0E") (auto simp: getkey_def)
  show "code = 0x80 \<Longrightarrow> getkey code s = None"
    by (simp add: getkey_def length_keys)
qed

end
