(* ===== verification/Gdt.thy ===== *)
theory Gdt
  imports Pic Console
begin

text \<open>
  Segments and the task state (\<open>kernel/gdt.c\<close>, selectors of \<open>kernel/gdt.h\<close>). The table is
  its 256 bytes; a descriptor is a packed struct written over them, and a descriptor that
  would not fit is None. The addresses the linker gives to the kernel's objects are the
  parameter \<open>image\<close>. What the processor finds behind a selector is \<open>segment_at\<close>.
\<close>

record seg_descriptor =
  seg_limit_0 :: u16
  seg_base_0 :: "24 word"
  seg_access :: u8
  seg_limit_1 :: "4 word"
  seg_flags :: "4 word"
  seg_base_1 :: u8

record sys_descriptor =
  sys_limit_0 :: u16
  sys_base_0 :: "24 word"
  sys_access :: u8
  sys_limit_1 :: "4 word"
  sys_flags :: "4 word"
  sys_base_1 :: "40 word"
  sys_reserved :: u32

record tss =
  tss_reserved_0 :: u32
  rsp0 :: u64
  rsp1 :: u64
  rsp2 :: u64
  tss_reserved_1 :: u64
  ist1 :: u64
  ist2 :: u64
  ist3 :: u64
  ist4 :: u64
  ist5 :: u64
  ist6 :: u64
  ist7 :: u64
  tss_reserved_2 :: u64
  tss_reserved_3 :: u16
  iomap :: u16

record idt_entry =
  idt_offset_0 :: u16
  idt_selector :: u16
  idt_ist :: "3 word"
  idt_unused_0 :: "5 word"
  idt_type :: "4 word"
  idt_unused_1 :: "1 word"
  idt_dpl :: "2 word"
  idt_present :: "1 word"
  idt_offset_1 :: u16
  idt_offset_2 :: u32
  idt_unused_2 :: u32

record system = kernel +
  gdt :: "u8 list"
  gdt_size :: u64
  tss :: tss
  idt :: "idt_entry list"

text \<open>Where the linker puts the tables, the interrupt stack and the handlers.\<close>

record image =
  gdt_address :: u64
  tss_address :: u64
  interrupt_stack :: u64
  idt_address :: u64
  handler_address :: "nat \<Rightarrow> u64"
  syscall_entry :: u64
  keyboard_handler :: u64

abbreviation KERNEL_CODE_SELECTOR :: u16 where "KERNEL_CODE_SELECTOR \<equiv> 0x08"
abbreviation KERNEL_DATA_SELECTOR :: u16 where "KERNEL_DATA_SELECTOR \<equiv> 0x10"
abbreviation USER_CODE_SELECTOR :: u16 where "USER_CODE_SELECTOR \<equiv> 0x18"
abbreviation USER_DATA_SELECTOR :: u16 where "USER_DATA_SELECTOR \<equiv> 0x20"
abbreviation TSS_SELECTOR :: u16 where "TSS_SELECTOR \<equiv> 0x28"

section \<open>Packed structs\<close>

definition byte_of :: "nat \<Rightarrow> 'a::len word \<Rightarrow> u8" where
  "byte_of k w = ucast (drop_bit (8 * k) w)"

definition seg_zero :: seg_descriptor where
  "seg_zero = \<lparr>seg_limit_0 = 0, seg_base_0 = 0, seg_access = 0, seg_limit_1 = 0, seg_flags = 0, seg_base_1 = 0\<rparr>"

definition sys_zero :: sys_descriptor where
  "sys_zero = \<lparr>sys_limit_0 = 0, sys_base_0 = 0, sys_access = 0, sys_limit_1 = 0, sys_flags = 0,
     sys_base_1 = 0, sys_reserved = 0\<rparr>"

definition seg_bytes :: "seg_descriptor \<Rightarrow> u8 list" where
  "seg_bytes d = [byte_of 0 (seg_limit_0 d), byte_of 1 (seg_limit_0 d),
     byte_of 0 (seg_base_0 d), byte_of 1 (seg_base_0 d), byte_of 2 (seg_base_0 d), seg_access d,
     ucast (seg_limit_1 d) OR push_bit 4 (ucast (seg_flags d)), seg_base_1 d]"

definition sys_bytes :: "sys_descriptor \<Rightarrow> u8 list" where
  "sys_bytes d = [byte_of 0 (sys_limit_0 d), byte_of 1 (sys_limit_0 d),
     byte_of 0 (sys_base_0 d), byte_of 1 (sys_base_0 d), byte_of 2 (sys_base_0 d), sys_access d,
     ucast (sys_limit_1 d) OR push_bit 4 (ucast (sys_flags d)),
     byte_of 0 (sys_base_1 d), byte_of 1 (sys_base_1 d), byte_of 2 (sys_base_1 d), byte_of 3 (sys_base_1 d),
     byte_of 4 (sys_base_1 d),
     byte_of 0 (sys_reserved d), byte_of 1 (sys_reserved d), byte_of 2 (sys_reserved d), byte_of 3 (sys_reserved d)]"

definition gdt_store :: "u16 \<Rightarrow> u8 list \<Rightarrow> 'a system_scheme \<Rightarrow> 'a system_scheme option" where
  "gdt_store offset bs s =
     (if unat offset + length bs \<le> length (gdt s)
      then Some (s\<lparr>gdt := take (unat offset) (gdt s) @ bs @ drop (unat offset + length bs) (gdt s)\<rparr>)
      else None)"

definition gdt_grow :: "u64 \<Rightarrow> 'a system_scheme \<Rightarrow> 'a system_scheme" where
  "gdt_grow n s = (if gdt_size s < n then s\<lparr>gdt_size := n\<rparr> else s)"

section \<open>Operations\<close>

definition gdt_code_descriptor :: "u16 \<Rightarrow> bool \<Rightarrow> 'a system_scheme \<Rightarrow> 'a system_scheme option" where
  "gdt_code_descriptor offset user s =
     (let s = gdt_grow (ucast offset + 8) s;
          d = seg_zero\<lparr>seg_access := 0x9A OR (if user then 0x60 else 0)\<rparr>;
          d = d\<lparr>seg_flags := 0x2\<rparr>
      in gdt_store offset (seg_bytes d) s)"

definition gdt_data_descriptor :: "u16 \<Rightarrow> bool \<Rightarrow> 'a system_scheme \<Rightarrow> 'a system_scheme option" where
  "gdt_data_descriptor offset user s =
     (let s = gdt_grow (ucast offset + 8) s;
          d = seg_zero\<lparr>seg_access := 0x92 OR (if user then 0x60 else 0)\<rparr>
      in gdt_store offset (seg_bytes d) s)"

text \<open>\<open>sizeof(tss_t)\<close> of the packed struct.\<close>

abbreviation SIZEOF_TSS :: u64 where "SIZEOF_TSS \<equiv> 104"

definition gdt_tss_descriptor :: "u16 \<Rightarrow> u64 \<Rightarrow> 'a system_scheme \<Rightarrow> 'a system_scheme option" where
  "gdt_tss_descriptor offset tss_ptr s =
     (let s = gdt_grow (ucast offset + 16) s;
          d = sys_zero\<lparr>sys_base_0 := ucast tss_ptr\<rparr>;
          d = d\<lparr>sys_base_1 := ucast (drop_bit 24 tss_ptr)\<rparr>;
          d = d\<lparr>sys_limit_0 := ucast SIZEOF_TSS\<rparr>;
          d = d\<lparr>sys_limit_1 := ucast (drop_bit 16 SIZEOF_TSS)\<rparr>;
          d = d\<lparr>sys_access := 0x89\<rparr>
      in gdt_store offset (sys_bytes d) s)"

definition tss_zero :: tss where
  "tss_zero = \<lparr>tss_reserved_0 = 0, rsp0 = 0, rsp1 = 0, rsp2 = 0, tss_reserved_1 = 0, ist1 = 0, ist2 = 0,
     ist3 = 0, ist4 = 0, ist5 = 0, ist6 = 0, ist7 = 0, tss_reserved_2 = 0, tss_reserved_3 = 0, iomap = 0\<rparr>"

definition gdt_setup :: "image \<Rightarrow> 'a system_scheme \<Rightarrow> 'a system_scheme option" where
  "gdt_setup im s =
     do { let s = s\<lparr>gdt := replicate 256 0\<rparr>;
          s \<leftarrow> gdt_code_descriptor KERNEL_CODE_SELECTOR False s;
          s \<leftarrow> gdt_data_descriptor KERNEL_DATA_SELECTOR False s;
          s \<leftarrow> gdt_code_descriptor USER_CODE_SELECTOR True s;
          s \<leftarrow> gdt_data_descriptor USER_DATA_SELECTOR True s;
          s \<leftarrow> gdt_tss_descriptor TSS_SELECTOR (tss_address im) s;
          let s = s\<lparr>cpu_events := Lgdt (ucast (gdt_size s - 1)) (gdt_address im) # cpu_events s\<rparr>;
          let s = s\<lparr>tss := tss_zero\<rparr>;
          let s = s\<lparr>tss := (tss s)\<lparr>rsp0 := interrupt_stack im + 0x8000 - 8\<rparr>\<rparr>;
          Some (s\<lparr>cpu_events := Ltr TSS_SELECTOR # cpu_events s\<rparr>) }"

section \<open>What the processor finds behind a selector\<close>

datatype segment = Code bool nat | Data bool nat | Tss u64 nat

definition segment_at :: "u8 list \<Rightarrow> nat \<Rightarrow> u16 \<Rightarrow> segment option" where
  "segment_at g limit sel =
     (let k = unat sel; a = g ! (k + 5); dpl = unat (drop_bit 5 a AND 3)
      in if limit < k + 7 \<or> \<not> bit a 7 then None
         else if bit a 4 then
           Some (if bit a 3 then Code (bit (g ! (k + 6)) 5) dpl else Data (bit a 1) dpl)
         else if a AND 0xF = 9 \<and> k + 15 \<le> limit then
           Some (Tss (ucast (g ! (k + 2)) OR push_bit 8 (ucast (g ! (k + 3))) OR push_bit 16 (ucast (g ! (k + 4)))
               OR push_bit 24 (ucast (g ! (k + 7))) OR push_bit 32 (ucast (g ! (k + 8)))
               OR push_bit 40 (ucast (g ! (k + 9))) OR push_bit 48 (ucast (g ! (k + 10)))
               OR push_bit 56 (ucast (g ! (k + 11))))
             (unat (g ! k) + 256 * unat (g ! (k + 1)) + 65536 * unat (g ! (k + 6) AND 0xF)))
         else None)"

lemma gdt_setup_eq:
  assumes "gdt_size s \<le> 56"
  shows "\<exists>s'. gdt_setup im s = Some s' \<and> gdt_size s' = 56 \<and>
    gdt s' = replicate 8 0 @ [0, 0, 0, 0, 0, 0x9A, 0x20, 0] @ [0, 0, 0, 0, 0, 0x92, 0, 0] @
      [0, 0, 0, 0, 0, 0xFA, 0x20, 0] @ [0, 0, 0, 0, 0, 0xF2, 0, 0] @
      sys_bytes (sys_zero\<lparr>sys_base_0 := ucast (tss_address im), sys_base_1 := ucast (drop_bit 24 (tss_address im)),
        sys_limit_0 := 104, sys_access := 0x89\<rparr>) @ replicate 200 0 \<and>
    cpu_events s' = Ltr 0x28 # Lgdt 55 (gdt_address im) # cpu_events s \<and>
    tss s' = tss_zero\<lparr>rsp0 := interrupt_stack im + 0x7FF8\<rparr>"
  using assms
  by (simp add: gdt_setup_def gdt_code_descriptor_def gdt_data_descriptor_def gdt_tss_descriptor_def Let_def
      gdt_store_def gdt_grow_def seg_bytes_def sys_bytes_def byte_of_def seg_zero_def sys_zero_def)

lemma bit_byte_of: "bit (byte_of k w) j \<longleftrightarrow> j < 8 \<and> bit w (8 * k + j)"
  by (auto simp: byte_of_def bit_simps)

lemma tss_base_bytes:
  fixes x :: u64
  shows "ucast (byte_of 0 (ucast x :: 24 word)) OR push_bit 8 (ucast (byte_of (Suc 0) (ucast x :: 24 word)))
    OR push_bit 16 (ucast (byte_of 2 (ucast x :: 24 word)))
    OR push_bit 24 (ucast (byte_of 0 (ucast (drop_bit 24 x) :: 40 word)))
    OR push_bit 32 (ucast (byte_of (Suc 0) (ucast (drop_bit 24 x) :: 40 word)))
    OR push_bit 40 (ucast (byte_of 2 (ucast (drop_bit 24 x) :: 40 word)))
    OR push_bit 48 (ucast (byte_of 3 (ucast (drop_bit 24 x) :: 40 word)))
    OR push_bit 56 (ucast (byte_of 4 (ucast (drop_bit 24 x) :: 40 word))) = x" (is "?l = x")
proof (rule bit_word_eqI)
  fix n assume n: "n < LENGTH(64)"
  consider "n < 8" | "8 \<le> n" "n < 16" | "16 \<le> n" "n < 24" | "24 \<le> n" "n < 32" | "32 \<le> n" "n < 40"
    | "40 \<le> n" "n < 48" | "48 \<le> n" "n < 56" | "56 \<le> n" "n < 64" using n by fastforce
  then show "bit ?l n \<longleftrightarrow> bit x n"
    by cases (auto simp: bit_simps bit_byte_of)
qed

section \<open>Properties\<close>

text \<open>C36: \<open>gdt_setup\<close> loads a table in which the processor finds, behind the selectors the rest
  of the kernel uses, 64-bit code and writable data for the kernel and for user mode
  (privilege 3), nothing behind the null selector, and the task state at its address, whose
  stack for interrupts from user mode ends 8 bytes below the interrupt stack's top.\<close>

theorem gdt_setup_segments:
  assumes "gdt_size s \<le> 56"
  shows "\<exists>s'. gdt_setup im s = Some s' \<and> cpu_events s' = Ltr TSS_SELECTOR # Lgdt 55 (gdt_address im) # cpu_events s \<and>
    segment_at (gdt s') 55 0 = None \<and>
    segment_at (gdt s') 55 KERNEL_CODE_SELECTOR = Some (Code True 0) \<and>
    segment_at (gdt s') 55 KERNEL_DATA_SELECTOR = Some (Data True 0) \<and>
    segment_at (gdt s') 55 USER_CODE_SELECTOR = Some (Code True 3) \<and>
    segment_at (gdt s') 55 USER_DATA_SELECTOR = Some (Data True 3) \<and>
    segment_at (gdt s') 55 TSS_SELECTOR = Some (Tss (tss_address im) 104) \<and>
    rsp0 (tss s') = interrupt_stack im + 0x8000 - 8"
proof -
  obtain s' where s': "gdt_setup im s = Some s'" "gdt s' = replicate 8 0 @ [0, 0, 0, 0, 0, 0x9A, 0x20, 0] @
      [0, 0, 0, 0, 0, 0x92, 0, 0] @ [0, 0, 0, 0, 0, 0xFA, 0x20, 0] @ [0, 0, 0, 0, 0, 0xF2, 0, 0] @
      sys_bytes (sys_zero\<lparr>sys_base_0 := ucast (tss_address im), sys_base_1 := ucast (drop_bit 24 (tss_address im)),
        sys_limit_0 := 104, sys_access := 0x89\<rparr>) @ replicate 200 0"
    "cpu_events s' = Ltr 0x28 # Lgdt 55 (gdt_address im) # cpu_events s"
    "tss s' = tss_zero\<lparr>rsp0 := interrupt_stack im + 0x7FF8\<rparr>"
    using gdt_setup_eq [OF assms, of im] by blast
  have k: "segment_at (gdt s') 55 0 = None"
    "segment_at (gdt s') 55 0x08 = Some (Code True 0)" "segment_at (gdt s') 55 0x10 = Some (Data True 0)"
    "segment_at (gdt s') 55 0x18 = Some (Code True 3)" "segment_at (gdt s') 55 0x20 = Some (Data True 3)"
    by (simp_all add: s'(2) segment_at_def Let_def nth_append)
  have t: "segment_at (gdt s') 55 0x28 = Some (Tss (tss_address im) 104)"
    by (simp add: s'(2) segment_at_def Let_def nth_append sys_bytes_def sys_zero_def tss_base_bytes) (simp add: byte_of_def)
  show ?thesis using s' k t by (simp add: tss_zero_def)
qed

text \<open>A kernel whose tables have not been set up.\<close>

definition system_machine :: "mem \<Rightarrow> u8 list \<Rightarrow> system" where
  "system_machine m codes = kernel.extend (kernel.truncate (kernel_machine m codes))
     \<lparr>gdt = replicate 256 0, gdt_size = 0, tss = tss_zero,
      idt = replicate 256 \<lparr>idt_offset_0 = 0, idt_selector = 0, idt_ist = 0, idt_unused_0 = 0, idt_type = 0,
        idt_unused_1 = 0, idt_dpl = 0, idt_present = 0, idt_offset_1 = 0, idt_offset_2 = 0, idt_unused_2 = 0\<rparr>\<rparr>"

lemma system_machine_simps [simp]:
  "gdt_size (system_machine m codes) = 0" "length (idt (system_machine m codes)) = 256"
  by (simp_all add: system_machine_def kernel.defs)

definition example_image :: image where
  "example_image = \<lparr>gdt_address = 0xFFFFFFFF80200000, tss_address = 0xFFFFFFFF80201000,
     interrupt_stack = 0xFFFFFFFF80202000, idt_address = 0xFFFFFFFF8020A000,
     handler_address = (\<lambda>n. 0xFFFFFFFF80100000 + 64 * of_nat n), syscall_entry = 0xFFFFFFFF80101000,
     keyboard_handler = 0xFFFFFFFF80101100\<rparr>"

theorem gdt_setup_segments_witness:
  "\<exists>s'. gdt_setup example_image (system_machine (\<lambda>_. 0) []) = Some s' \<and>
    segment_at (gdt s') 55 USER_CODE_SELECTOR = Some (Code True 3) \<and>
    segment_at (gdt s') 55 TSS_SELECTOR = Some (Tss 0xFFFFFFFF80201000 104)"
  using gdt_setup_segments [of "system_machine (\<lambda>_. 0) []" example_image] by (auto simp: example_image_def)

end
