(* ===== verification/Idt.thy ===== *)
theory Idt
  imports Gdt
begin

text \<open>
  The interrupt descriptor table (\<open>kernel/interrupts.c\<close>, layout of \<open>kernel/interrupts.h\<close>) and
  the handlers of the processor's exceptions. A gate is what the processor finds in an
  entry. A handler prints its message and halts: its result is the state it halts in.
\<close>

abbreviation IDT_TYPE_INTERRUPT :: u8 where "IDT_TYPE_INTERRUPT \<equiv> 0xE"
abbreviation IDT_TYPE_TRAP :: u8 where "IDT_TYPE_TRAP \<equiv> 0xF"

section \<open>Operations\<close>

definition idt_set_handler :: "u8 \<Rightarrow> u64 \<Rightarrow> u8 \<Rightarrow> 'a system_scheme \<Rightarrow> 'a system_scheme" where
  "idt_set_handler index function type s =
     (let offset0 = ucast (function AND 0xFFFF) :: u16;
          offset1 = ucast (drop_bit 16 function AND 0xFFFF) :: u16;
          offset2 = ucast (drop_bit 32 function AND 0xFFFFFFFF) :: u32;
          e = idt s ! unat index;
          e = e\<lparr>idt_offset_0 := offset0\<rparr>;
          e = e\<lparr>idt_selector := KERNEL_CODE_SELECTOR\<rparr>;
          e = e\<lparr>idt_ist := 0\<rparr>;
          e = e\<lparr>idt_unused_0 := 0\<rparr>;
          e = e\<lparr>idt_type := ucast type\<rparr>;
          e = e\<lparr>idt_unused_1 := 0\<rparr>;
          e = e\<lparr>idt_dpl := 3\<rparr>;
          e = e\<lparr>idt_present := 1\<rparr>;
          e = e\<lparr>idt_offset_1 := offset1\<rparr>;
          e = e\<lparr>idt_offset_2 := offset2\<rparr>;
          e = e\<lparr>idt_unused_2 := 0\<rparr>
      in s\<lparr>idt := (idt s)[unat index := e]\<rparr>)"

definition idt_zero :: idt_entry where
  "idt_zero = \<lparr>idt_offset_0 = 0, idt_selector = 0, idt_ist = 0, idt_unused_0 = 0, idt_type = 0, idt_unused_1 = 0,
     idt_dpl = 0, idt_present = 0, idt_offset_1 = 0, idt_offset_2 = 0, idt_unused_2 = 0\<rparr>"

definition idt_setup :: "image \<Rightarrow> 'a system_scheme \<Rightarrow> 'a system_scheme" where
  "idt_setup im s =
     (let s = s\<lparr>idt := replicate 256 idt_zero\<rparr>;
          s = idt_set_handler 1 (handler_address im 0) IDT_TYPE_TRAP s;
          s = idt_set_handler 2 (handler_address im 1) IDT_TYPE_INTERRUPT s;
          s = idt_set_handler 3 (handler_address im 2) IDT_TYPE_TRAP s;
          s = idt_set_handler 4 (handler_address im 3) IDT_TYPE_TRAP s;
          s = idt_set_handler 5 (handler_address im 4) IDT_TYPE_TRAP s;
          s = idt_set_handler 6 (handler_address im 5) IDT_TYPE_TRAP s;
          s = idt_set_handler 7 (handler_address im 6) IDT_TYPE_TRAP s;
          s = idt_set_handler 8 (handler_address im 7) IDT_TYPE_TRAP s;
          s = idt_set_handler 9 (handler_address im 8) IDT_TYPE_TRAP s;
          s = idt_set_handler 10 (handler_address im 9) IDT_TYPE_TRAP s;
          s = idt_set_handler 11 (handler_address im 10) IDT_TYPE_TRAP s;
          s = idt_set_handler 12 (handler_address im 11) IDT_TYPE_TRAP s;
          s = idt_set_handler 13 (handler_address im 12) IDT_TYPE_TRAP s;
          s = idt_set_handler 14 (handler_address im 13) IDT_TYPE_TRAP s;
          s = idt_set_handler 15 (handler_address im 14) IDT_TYPE_TRAP s;
          s = idt_set_handler 16 (handler_address im 15) IDT_TYPE_TRAP s;
          s = idt_set_handler 17 (handler_address im 16) IDT_TYPE_TRAP s;
          s = idt_set_handler 18 (handler_address im 17) IDT_TYPE_TRAP s;
          s = idt_set_handler 19 (handler_address im 18) IDT_TYPE_TRAP s;
          s = idt_set_handler 20 (handler_address im 19) IDT_TYPE_TRAP s;
          s = idt_set_handler 21 (handler_address im 20) IDT_TYPE_TRAP s
      in s\<lparr>cpu_events := Lidt 4096 (idt_address im) # cpu_events s\<rparr>)"

text \<open>\<open>handler n\<close>: the message of \<open>handler0\<close> to \<open>handler20\<close>, and whether it takes an error code.\<close>

definition handler_messages :: "(string \<times> bool) list" where
  "handler_messages =
     [(''Debug Exception\<newline>'', False),
      (''NMI Interrupt\<newline>'', False),
      (''Breakpoint\<newline>'', False),
      (''Overflow\<newline>'', False),
      (''BOUND Range Exceeded\<newline>'', False),
      (''Invalid Opcode (Undefined Opcode)\<newline>'', False),
      (''Device Not Available (No Math Coprocessor)\<newline>'', False),
      (''Double Fault (error code = %d)\<newline>'', True),
      (''Coprocessor Segment Overrun (reserved)\<newline>'', False),
      (''Invalid TSS (error code = %d)\<newline>'', True),
      (''Segment Not Present (error code = %d)\<newline>'', True),
      (''Stack-Segment Fault (error code = %d)\<newline>'', True),
      (''General Protection (error code = %d)\<newline>'', True),
      (''Page Fault (error code = %d)\<newline>'', True),
      (''(Intel reserved. Do not use)\<newline>'', False),
      (''x87 FPU Floating Point Error (Math Fault)\<newline>'', False),
      (''Alignment Check (error code = %d)\<newline>'', True),
      (''Machine Check\<newline>'', False),
      (''SIMD Floating Point Exception\<newline>'', False),
      (''Virtualization Exception\<newline>'', False),
      (''Control Protection Exception (error code = %d)\<newline>'', True)]"

definition handler :: "nat \<Rightarrow> u64 \<Rightarrow> 'a terminal_scheme \<Rightarrow> 'a terminal_scheme option" where
  "handler n ec s =
     (let (message, takes_ec) = handler_messages ! n in kprintf message (if takes_ec then [Va_int ec] else []) s)"

section \<open>Gates\<close>

record gate =
  gate_address :: u64
  gate_selector :: u16
  gate_trap :: bool
  gate_dpl :: nat

definition gate_at :: "idt_entry list \<Rightarrow> nat \<Rightarrow> gate option" where
  "gate_at t v =
     (if v < length t \<and> idt_present (t ! v) = 1 \<and> idt_type (t ! v) \<in> {0xE, 0xF} then
        Some \<lparr>gate_address = ucast (idt_offset_0 (t ! v)) OR push_bit 16 (ucast (idt_offset_1 (t ! v)))
                OR push_bit 32 (ucast (idt_offset_2 (t ! v))),
              gate_selector = idt_selector (t ! v), gate_trap = (idt_type (t ! v) = 0xF),
              gate_dpl = unat (idt_dpl (t ! v))\<rparr>
      else None)"

lemma gate_offset:
  "ucast (ucast (f AND 0xFFFF) :: u16) OR push_bit 16 (ucast (ucast (drop_bit 16 f AND 0xFFFF) :: u16))
    OR push_bit 32 (ucast (ucast (drop_bit 32 f AND 0xFFFFFFFF) :: u32)) = (f :: u64)" (is "?l = f")
proof (rule bit_word_eqI)
  fix n assume n: "n < LENGTH(64)"
  have m: "(0xFFFF :: u64) = mask 16" "(0xFFFFFFFF :: u64) = mask 32" by (simp_all add: mask_eq_exp_minus_1)
  consider "n < 16" | "16 \<le> n" "n < 32" | "32 \<le> n" "n < 64" using n by fastforce
  then show "bit ?l n \<longleftrightarrow> bit f n"
    unfolding m by cases (auto simp: bit_simps)
qed

lemma gate_at_set:
  assumes "length (idt s) = 256" "type = IDT_TYPE_INTERRUPT \<or> type = IDT_TYPE_TRAP"
  shows "gate_at (idt (idt_set_handler index function type s)) v =
    (if v = unat index then Some \<lparr>gate_address = function, gate_selector = KERNEL_CODE_SELECTOR,
        gate_trap = (type = IDT_TYPE_TRAP), gate_dpl = 3\<rparr>
     else gate_at (idt s) v)"
proof -
  have i: "unat index < 256" using unsigned_less [of index, where 'a = nat] by simp
  show ?thesis using assms(2) i assms(1) gate_offset [of "function"]
    by (auto simp: gate_at_def idt_set_handler_def Let_def)
qed

lemma idt_set_handler_length [simp]: "length (idt (idt_set_handler index function type s)) = length (idt s)"
  by (simp add: idt_set_handler_def Let_def)

lemma gate_at_zero: "gate_at (replicate 256 idt_zero) v = None"
  by (simp add: gate_at_def idt_zero_def)

lemma vectors_below_22:
  fixes v :: nat
  assumes "v < 22"
  shows "v \<in> {0, 1, 2, 3, 4, 5, 6, 7, 8, 9, 10, 11, 12, 13, 14, 15, 16, 17, 18, 19, 20, 21}"
proof -
  have "[0..<22] = [0, 1, 2, 3, 4, 5, 6, 7, 8, 9, 10, 11, 12, 13, 14, 15, 16, 17, 18, 19, 20, 21 :: nat]" by (simp add: upt_rec)
  then have "set [0..<22] = set [0, 1, 2, 3, 4, 5, 6, 7, 8, 9, 10, 11, 12, 13, 14, 15, 16, 17, 18, 19, 20, 21 :: nat]" by (rule arg_cong)
  then show ?thesis using assms by (simp only: set_upt list.set atLeastLessThan_iff set_eq_iff) blast
qed

lemma idt_setup_gates:
  "gate_at (idt (idt_setup im s)) v =
    (if 1 \<le> v \<and> v \<le> 21 then Some \<lparr>gate_address = handler_address im (v - 1), gate_selector = KERNEL_CODE_SELECTOR,
       gate_trap = (v \<noteq> 2), gate_dpl = 3\<rparr> else None)"
proof (cases "v < 22")
  case True
  note vectors_below_22 [OF this]
  then show ?thesis
    unfolding idt_setup_def Let_def
    by (elim insertE emptyE) (simp_all add: gate_at_set gate_at_zero)
next
  case False
  then show ?thesis unfolding idt_setup_def Let_def by (simp add: gate_at_set gate_at_zero)
qed

section \<open>Properties\<close>

text \<open>C37: \<open>idt_setup\<close> installs for each exception 1 to 21 a present gate to its own handler in
  the kernel's code segment, interrupts left enabled except for vector 2, callable from user
  mode (privilege 3); every other vector, the divide error 0 included, has no gate. The
  handlers that take an error code are those of the exceptions that push one.\<close>

theorem idt_setup_exceptions:
  "(gate_at (idt (idt_setup im s)) v =
     (if 1 \<le> v \<and> v \<le> 21 then Some \<lparr>gate_address = handler_address im (v - 1), gate_selector = KERNEL_CODE_SELECTOR,
        gate_trap = (v \<noteq> 2), gate_dpl = 3\<rparr> else None)) \<and>
   {v. 1 \<le> v \<and> v \<le> 21 \<and> snd (handler_messages ! (v - 1))} = {8, 10, 11, 12, 13, 14, 17, 21}"
proof -
  have "v \<in> {v. 1 \<le> v \<and> v \<le> 21 \<and> snd (handler_messages ! (v - 1))} \<longleftrightarrow> v \<in> {8, 10, 11, 12, 13, 14, 17, 21}" for v
  proof (cases "v < 22")
    case True
    from vectors_below_22 [OF this] show ?thesis
      by (elim insertE emptyE) (simp_all add: handler_messages_def)
  qed simp
  then show ?thesis using idt_setup_gates by blast
qed

end
