(* ===== verification/Exec.thy ===== *)
theory Exec
  imports TableTree Idt
begin

text \<open>
  Starting a program (\<open>kernel/executables.c\<close>): \<open>exec_setup\<close> unmaps the lower half, looks a
  module up by name, maps and copies the loadable segments of its ELF file, maps a stack and
  jumps to user mode. All reads and writes go through the processor's translation. The jump
  does not return, so the result tells the return from the jump with its four arguments.
\<close>

abbreviation PT_LOAD :: u64 where "PT_LOAD \<equiv> 1"
abbreviation PF_X :: u64 where "PF_X \<equiv> 0x1"
abbreviation PF_W :: u64 where "PF_W \<equiv> 0x2"
abbreviation PAGESIZE :: u64 where "PAGESIZE \<equiv> 0x1000"

section \<open>Bytes through the translation\<close>

fun vbytes :: "'a machine_scheme \<Rightarrow> u64 \<Rightarrow> nat \<Rightarrow> u8 list option" where
  "vbytes s a 0 = Some []"
| "vbytes s a (Suc n) = do { b \<leftarrow> vread s a; bs \<leftarrow> vbytes s (a + 1) n; Some (b # bs) }"

text \<open>\<open>memcpy\<close> of \<open>stdlib/memory.c\<close> on addresses that the processor translates.\<close>

function vmemcpy_loop :: "u64 \<Rightarrow> u64 \<Rightarrow> u64 \<Rightarrow> int \<Rightarrow> 'a machine_scheme \<Rightarrow> 'a machine_scheme option" where
  "vmemcpy_loop cdest csrc size' i s =
     (if word_of_int i < size'
      then do { b \<leftarrow> vread s csrc; s \<leftarrow> vwrite cdest b s;
                if i \<ge> 2147483647 then None else vmemcpy_loop (cdest + 1) (csrc + 1) size' (i + 1) s }
      else Some s)"
  by pat_completeness auto
termination
  by (relation "measure (\<lambda>(d, s, n, i, st). nat (2147483647 - i))") auto

declare vmemcpy_loop.simps [simp del]

definition vmemcpy :: "u64 \<Rightarrow> u64 \<Rightarrow> u64 \<Rightarrow> 'a machine_scheme \<Rightarrow> 'a machine_scheme option" where
  "vmemcpy dest src size' s = vmemcpy_loop dest src size' 0 s"

section \<open>Modules\<close>

record module =
  mod_begin :: u64
  mod_end :: u64
  mod_string :: "u8 list"

definition module_count :: "'a machine_scheme \<Rightarrow> u64 \<Rightarrow> u64 option" where
  "module_count s moduleslist = vload s (moduleslist + TAG_BODY) 8"

definition module_at :: "'a machine_scheme \<Rightarrow> u64 \<Rightarrow> u64 \<Rightarrow> module option" where
  "module_at s moduleslist i =
     do { let p = moduleslist + TAG_BODY + 8 + 144 * i;
          b \<leftarrow> vload s p 8; e \<leftarrow> vload s (p + 8) 8; str \<leftarrow> vbytes s (p + 16) 128;
          Some \<lparr>mod_begin = b, mod_end = e, mod_string = str\<rparr> }"

text \<open>The search loop: the module found, or none; a fault is None.\<close>

function find_module :: "'a machine_scheme \<Rightarrow> u64 \<Rightarrow> cptr \<Rightarrow> int \<Rightarrow> module option option" where
  "find_module s moduleslist modulename i =
     do { n \<leftarrow> module_count s moduleslist;
          if word_of_int i < n
          then do { ourmod \<leftarrow> module_at s moduleslist (word_of_int i);
                    ret \<leftarrow> strcmp (kview s) modulename (Arr (mod_string ourmod) 0);
                    if ret = 0 then Some (Some ourmod)
                    else if i \<ge> 2147483647 then None
                    else find_module s moduleslist modulename (i + 1) }
          else Some None }"
  by pat_completeness auto
termination
  by (relation "measure (\<lambda>(s, l, n, i). nat (2147483647 - i))") auto

declare find_module.simps [simp del]

section \<open>ELF headers\<close>

definition e_entry :: "'a machine_scheme \<Rightarrow> u64 \<Rightarrow> u64 option" where "e_entry s header = vload s (header + 24) 8"
definition e_phoff :: "'a machine_scheme \<Rightarrow> u64 \<Rightarrow> u64 option" where "e_phoff s header = vload s (header + 32) 8"
definition e_phnum :: "'a machine_scheme \<Rightarrow> u64 \<Rightarrow> u64 option" where "e_phnum s header = vload s (header + 56) 2"

definition p_type :: "'a machine_scheme \<Rightarrow> u64 \<Rightarrow> u64 option" where "p_type s ph = vload s ph 4"
definition p_flags :: "'a machine_scheme \<Rightarrow> u64 \<Rightarrow> u64 option" where "p_flags s ph = vload s (ph + 4) 4"
definition p_offset :: "'a machine_scheme \<Rightarrow> u64 \<Rightarrow> u64 option" where "p_offset s ph = vload s (ph + 8) 8"
definition p_vaddr :: "'a machine_scheme \<Rightarrow> u64 \<Rightarrow> u64 option" where "p_vaddr s ph = vload s (ph + 16) 8"
definition p_filesz :: "'a machine_scheme \<Rightarrow> u64 \<Rightarrow> u64 option" where "p_filesz s ph = vload s (ph + 32) 8"
definition p_memsz :: "'a machine_scheme \<Rightarrow> u64 \<Rightarrow> u64 option" where "p_memsz s ph = vload s (ph + 40) 8"

section \<open>Loading\<close>

definition load_segment :: "u64 \<Rightarrow> u64 \<Rightarrow> u64 \<Rightarrow> 'a kmem_scheme \<Rightarrow> 'a kmem_scheme option" where
  "load_segment root header ph_entry s =
     do { t \<leftarrow> p_type s ph_entry;
          f \<leftarrow> (if t = PT_LOAD then p_filesz s ph_entry else Some 0);
          if t = PT_LOAD \<and> 0 < f
          then do { va \<leftarrow> p_vaddr s ph_entry;
                    (ret, s) \<leftarrow> vm_map root va True True False s;
                    f \<leftarrow> p_filesz s ph_entry;
                    va \<leftarrow> p_vaddr s ph_entry;
                    off \<leftarrow> p_offset s ph_entry;
                    n \<leftarrow> (if f = 0 then p_filesz s ph_entry else p_memsz s ph_entry);
                    s \<leftarrow> vmemcpy va (header + off) n s;
                    flags \<leftarrow> p_flags s ph_entry;
                    let executable = (0 < flags AND PF_X);
                    let writable = (0 < flags AND PF_W);
                    va \<leftarrow> p_vaddr s ph_entry;
                    (ret, s) \<leftarrow> vm_protect (read_cr3 s) va True writable executable s;
                    Some s }
          else Some s }"

function load_segments :: "u64 \<Rightarrow> u64 \<Rightarrow> u64 \<Rightarrow> u16 \<Rightarrow> 'a kmem_scheme \<Rightarrow> 'a kmem_scheme option" where
  "load_segments root header ph_entry i s =
     do { n \<leftarrow> e_phnum s header;
          if i < ucast n
          then do { s \<leftarrow> load_segment root header ph_entry s;
                    load_segments root header (ph_entry + 56) (i + 1) s }
          else Some s }"
  by pat_completeness auto
termination
proof (relation "measure (\<lambda>(root, header, ph, i, s). 65536 - unat i)", goal_cases)
  case (2 root header ph i s n s')
  moreover have "unat i < 65536" using unsigned_less [of i, where 'a = nat] by simp
  ultimately show ?case using unat_inc [of i "ucast n"] by simp
qed simp

declare load_segments.simps [simp del]

partial_function (option) map_stack :: "u64 \<Rightarrow> u64 \<Rightarrow> 'a kmem_scheme \<Rightarrow> 'a kmem_scheme option" where
  "map_stack p limit s =
     (if p < limit
      then do { (ret, s) \<leftarrow> vm_map (read_cr3 s AND 0xFFFFFFFFFFFFF000) p True True False s;
                map_stack (p + 0x1000) limit s }
      else Some s)"

datatype 's exec_result = Returned 's | User_entry u64 u64 u64 u64 's

abbreviation user_stack :: u64 where "user_stack \<equiv> 0x70000000000"
abbreviation user_stack_size :: u64 where "user_stack_size \<equiv> 8 * PAGESIZE"

definition exec_setup :: "cptr \<Rightarrow> 'a boot_scheme \<Rightarrow> 'a boot_scheme exec_result option" where
  "exec_setup modulename s =
     do { let s = unmap_lower_half (read_cr3 s) s;
          moduleslist \<leftarrow> find_tag s (hdr s) STIVALE2_STRUCT_TAG_MODULES_ID;
          found \<leftarrow> find_module s moduleslist modulename 0;
          case found of
            None \<Rightarrow> map_option Returned (kprintf ''An error occured when trying to find the module. \<newline>'' [] s)
          | Some ourmod \<Rightarrow>
              do { let header = mod_begin ourmod;
                   phoff \<leftarrow> e_phoff s header;
                   let root = read_cr3 s AND 0xFFFFFFFFFFFFF000;
                   s \<leftarrow> load_segments root header (header + phoff) 0 s;
                   s \<leftarrow> map_stack user_stack (user_stack + user_stack_size) s;
                   entry \<leftarrow> e_entry s header;
                   Some (User_entry (ucast USER_DATA_SELECTOR OR 3) (user_stack + user_stack_size - 8)
                           (ucast USER_CODE_SELECTOR OR 3) entry s) } }"

end
