(* ===== verification/WordsMem.thy ===== *)
theory WordsMem
  imports Exec
begin

text \<open>
  Memories for the examples of the loader: the kernel half given by a list of 64-bit words,
  zero elsewhere, with what the processor reads from them.
\<close>

section \<open>A memory given by its words\<close>

definition words_mem :: "(u64 \<times> u64) list \<Rightarrow> mem" where
  "words_mem ws = (\<lambda>a. if 0xFFFFFFFF80000000 \<le> a then fold (\<lambda>(a, v) m. store64 m a v) ws (\<lambda>_. 0) a else 0)"

definition words_ok :: "(u64 \<times> u64) list \<Rightarrow> bool" where
  "words_ok ws \<longleftrightarrow> distinct (map fst ws) \<and>
     (\<forall>a \<in> fst ` set ws. unat a mod 8 = 0 \<and> 0xFFFFFFFF80000000 \<le> a \<and> a \<le> 0xFFFFFFFFFFFFF000)"

lemma fold_store64_other:
  "\<forall>b \<in> fst ` set ws. aligned 3 b \<Longrightarrow> aligned 3 a \<Longrightarrow> a \<notin> fst ` set ws \<Longrightarrow>
   load64 (fold (\<lambda>(a, v) m. store64 m a v) ws m) a = load64 m a"
  by (induction ws arbitrary: m) (auto simp: load64_store64)

lemma fold_store64_same:
  "\<forall>b \<in> fst ` set ws. aligned 3 b \<Longrightarrow> distinct (map fst ws) \<Longrightarrow> (a, v) \<in> set ws \<Longrightarrow>
   load64 (fold (\<lambda>(a, v) m. store64 m a v) ws m) a = v"
proof (induction ws arbitrary: m)
  case (Cons w ws)
  show ?case
  proof (cases "w = (a, v)")
    case True
    then have "a \<notin> fst ` set ws" "aligned 3 a" using Cons.prems by auto
    then show ?thesis using True Cons.prems by (simp add: fold_store64_other)
  next
    case False
    then show ?thesis using Cons by (cases w) auto
  qed
qed simp

lemma word_aligned_3: "aligned 3 (a :: u64) \<longleftrightarrow> unat a mod 8 = 0"
  by (simp add: aligned_def take_bit_eq_mod word_unat_eq_iff unat_mod)

lemma words_mem_upper:
  assumes "0xFFFFFFFF80000000 \<le> a" "a \<le> 0xFFFFFFFFFFFFF000" "i < 8"
  shows "words_mem ws (a + of_nat i) = fold (\<lambda>(a, v) m. store64 m a v) ws (\<lambda>_. 0) (a + of_nat i)"
proof -
  have "0xFFFFFFFF80000000 \<le> a + of_nat i"
    using assms by (simp add: word_le_nat_alt unat_word_ariths unat_of_nat)
  then show ?thesis by (simp add: words_mem_def)
qed

lemma words_mem_load64:
  assumes "words_ok ws" "(a, v) \<in> set ws"
  shows "load64 (words_mem ws) a = v"
proof -
  have a: "0xFFFFFFFF80000000 \<le> a" "a \<le> 0xFFFFFFFFFFFFF000" using assms by (auto simp: words_ok_def)
  have "load64 (words_mem ws) a = load64 (fold (\<lambda>(a, v) m. store64 m a v) ws (\<lambda>_. 0)) a"
    by (rule load64_cong) (rule words_mem_upper [OF a])
  also have "\<dots> = v"
    using assms by (intro fold_store64_same) (auto simp: words_ok_def word_aligned_3)
  finally show ?thesis .
qed

lemma load64_byte: "i < 8 \<Longrightarrow> m (a + of_nat i) = byte_of i (load64 m a)"
proof -
  assume i: "i < 8"
  have "bit (load_bytes m a n) k \<longleftrightarrow> k < 8 * n \<and> k < 64 \<and> bit (m (a + of_nat (k div 8))) (k mod 8)" for n k a
  proof (induction n arbitrary: a k)
    case (Suc n)
    show ?case
    proof (cases "k < 8")
      case False
      then obtain j where j: "k = j + 8" by (metis add.commute le_Suc_ex not_le)
      then have "k div 8 = Suc (j div 8)" "k mod 8 = j mod 8" by simp_all
      then show ?thesis
        using Suc.IH [of "a + 1" j] False j by (auto simp: bit_simps add.assoc dest: bit_imp_le_length)
    qed (auto simp: bit_simps)
  qed simp
  then show ?thesis
    using i by (intro bit_word_eqI) (simp add: bit_byte_of load64_def)
qed

lemma words_mem_byte:
  assumes "words_ok ws" "(a, v) \<in> set ws" "i < 8"
  shows "words_mem ws (a + of_nat i) = byte_of i v"
  using load64_byte [OF assms(3), of "words_mem ws" a] words_mem_load64 [OF assms(1,2)] by simp

lemma words_mem_vload:
  assumes "words_ok ws" "(a, v) \<in> set ws" "\<forall>b. 0xFFFFFFFF80000000 \<le> b \<longrightarrow> mem s b = words_mem ws b"
  shows "vload s a 8 = Some v"
proof -
  have a: "0xFFFFFFFF80000000 \<le> a" "a \<le> 0xFFFFFFFFFFFFF000" using assms by (auto simp: words_ok_def)
  have "load64 (mem s) a = load64 (words_mem ws) a"
  proof (rule load64_cong)
    fix i :: nat assume "i < 8"
    then have "0xFFFFFFFF80000000 \<le> a + of_nat i"
      using a by (simp add: word_le_nat_alt unat_word_ariths unat_of_nat)
    then show "mem s (a + of_nat i) = words_mem ws (a + of_nat i)" using assms(3) by blast
  qed
  then show ?thesis
    using vload8_upper [of a s] a words_mem_load64 [OF assms(1,2)] by (simp add: word_le_nat_alt)
qed

lemma vbytes_upper:
  "(\<And>i. i < n \<Longrightarrow> upper_half (a + of_nat i)) \<Longrightarrow> vbytes s a n = Some (map (\<lambda>i. mem s (a + of_nat i)) [0..<n])"
proof (induction n arbitrary: a)
  case (Suc n)
  have "vbytes s (a + 1) n = Some (map (\<lambda>i. mem s (a + 1 + of_nat i)) [0..<n])"
    by (rule Suc.IH) (use Suc.prems [of "Suc _"] in \<open>simp add: add.assoc\<close>)
  then show ?case using Suc.prems [of 0] by (simp add: upt_conv_Cons map_Suc_upt [symmetric] add.assoc del: upt_Suc)
qed simp

lemma takeWhile_map_upt:
  "k < n \<Longrightarrow> \<forall>i<k. f i \<noteq> 0 \<Longrightarrow> f k = 0 \<Longrightarrow> takeWhile (\<lambda>c. c \<noteq> 0) (map f [0..<n]) = map f [0..<k]"
proof -
  assume k: "k < n" "\<forall>i<k. f i \<noteq> 0" "f k = 0"
  have "[0..<n] = [0..<k] @ k # [Suc k..<n]" using upt_add_eq_append [of 0 k "n - k"] k(1) by (simp add: upt_conv_Cons)
  moreover have "takeWhile (\<lambda>c. c \<noteq> 0) (map f [0..<k] @ f k # map f [Suc k..<n]) =
      map f [0..<k] @ takeWhile (\<lambda>c. c \<noteq> 0) (f k # map f [Suc k..<n])"
    by (rule takeWhile_append2) (use k(2) in auto)
  ultimately show ?thesis using k(3) by simp
qed

end
