(* ===== verification/Launch.thy ===== *)
theory Launch
  imports WordsMem
begin

text \<open>
  What \<open>exec_setup\<close> does: the module it chooses, what happens when there is none, and what
  happens when the name is itself in the memory it has just unmapped. The bootloader's
  information is described by \<open>boot_info\<close>: upper-half bytes \<open>A\<close>, none in a page table,
  that alone determine the tag list and the modules.
\<close>

section \<open>The module found\<close>

definition mod_name :: "module \<Rightarrow> u8 list" where
  "mod_name m = takeWhile (\<lambda>c. c \<noteq> 0) (mod_string m)"

definition mod_ok :: "module \<Rightarrow> bool" where
  "mod_ok m \<longleftrightarrow> length (mod_string m) = 128 \<and> 0 \<in> set (mod_string m)"

definition modules_at :: "'a machine_scheme \<Rightarrow> u64 \<Rightarrow> module list \<Rightarrow> bool" where
  "modules_at s l ms \<longleftrightarrow> length ms < 2 ^ 31 \<and> module_count s l = Some (of_nat (length ms)) \<and>
     (\<forall>i<length ms. module_at s l (of_nat i) = Some (ms ! i)) \<and> (\<forall>m \<in> set ms. mod_ok m)"

lemma cstring_arr: "0 \<in> set (drop k bs) \<Longrightarrow> cstring (deref view) (Arr bs k) (takeWhile (\<lambda>c. c \<noteq> 0) (drop k bs))"
proof (induction "length bs - k" arbitrary: k)
  case (Suc n)
  then have k: "drop k bs = bs ! k # drop (Suc k) bs" "k < length bs" by (simp_all add: Cons_nth_drop_Suc)
  show ?case
  proof (cases "bs ! k = 0")
    case False
    have "0 \<in> set (drop (Suc k) bs)" using Suc.prems False by (simp add: k(1))
    then show ?thesis using Suc.hyps(1) [of "Suc k"] Suc.hyps(2) False by (simp add: k)
  qed (simp add: k)
qed simp

lemma cstring_mod_name: "mod_ok m \<Longrightarrow> cstring (kview s) (Arr (mod_string m) 0) (mod_name m)"
  using cstring_arr [of 0 "mod_string m"] by (simp add: mod_ok_def mod_name_def kview_def)

lemma length_mod_name: "mod_ok m \<Longrightarrow> length (mod_name m) \<le> 128"
  using length_takeWhile_le [of "\<lambda>c. c \<noteq> 0" "mod_string m"] by (simp add: mod_name_def mod_ok_def)

lemma find_module_first:
  assumes ms: "modules_at s l ms" and name: "cstring (kview s) p name" "length name < 2147483648"
  shows "i \<le> length ms \<Longrightarrow> find_module s l p (int i) = Some (find (\<lambda>m. mod_name m = name) (drop i ms))"
proof (induction "length ms - i" arbitrary: i)
  case 0
  then show ?case using ms by (subst find_module.simps) (simp add: modules_at_def)
next
  case (Suc n)
  then have i: "i < length ms" by simp
  then have d: "drop i ms = ms ! i # drop (Suc i) ms" by (simp add: Cons_nth_drop_Suc)
  have ok: "mod_ok (ms ! i)" and len: "length ms < 2 ^ 31" using ms i by (simp_all add: modules_at_def)
  have lt: "(of_nat i :: u64) < of_nat (length ms)" using i len by (simp add: word_less_nat_alt unat_of_nat)
  have cmp: "strcmp (kview s) p (Arr (mod_string (ms ! i)) 0) = Some (str_order name (mod_name (ms ! i)))"
    using strcmp_order [OF name(1) cstring_mod_name [OF ok] name(2)] length_mod_name [OF ok] by simp
  have IH: "find_module s l p (int i + 1) = Some (find (\<lambda>m. mod_name m = name) (drop (Suc i) ms))"
    using Suc.hyps(1) [of "Suc i"] Suc.hyps(2) i by (simp add: add.commute)
  have "\<not> 2147483647 \<le> int i" using i len by simp
  then show ?case
    using ms i by (subst find_module.simps) (auto simp: modules_at_def lt cmp IH d str_order_eq_0)
qed

lemma find_module_fault:
  assumes "modules_at s l ms" "ms \<noteq> []" "kview s p = None"
  shows "find_module s l p 0 = None"
proof -
  have "strlen (kview s) p = None"
    using assms(3) by (simp add: strlen_def strlen_loop.simps)
  then have "strcmp (kview s) p q = None" for q by (simp add: strcmp_def)
  moreover have "(0 :: u64) < of_nat (length ms)" using assms by (simp add: modules_at_def word_less_nat_alt unat_of_nat)
  moreover have "module_at s l 0 \<noteq> None" using assms by (auto simp: modules_at_def)
  ultimately show ?thesis
    using assms by (subst find_module.simps) (auto simp: modules_at_def split: Option.bind_splits)
qed

section \<open>After unmapping\<close>

definition boot_info :: "'a boot_scheme \<Rightarrow> u64 set \<Rightarrow> u64 \<Rightarrow> module list \<Rightarrow> bool" where
  "boot_info s A l ms \<longleftrightarrow>
     (\<forall>s' :: 'a boot_scheme. (\<forall>a \<in> A. mem s' a = mem s a) \<longrightarrow>
        find_tag s' (hdr s) STIVALE2_STRUCT_TAG_MODULES_ID = Some l \<and> modules_at s' l ms)"

text \<open>Bytes that no page table and no free page and not the text buffer contains.\<close>

definition page_base :: "u64 \<Rightarrow> u64" where
  "page_base a = push_bit 12 (drop_bit 12 a)"

definition apart :: "'a kmem_scheme \<Rightarrow> u64 \<Rightarrow> u64 list \<Rightarrow> u64 set \<Rightarrow> bool" where
  "apart s root ps A \<longleftrightarrow> (\<forall>a \<in> A. page_base a - hhdm_base s \<notin> tables_of s root \<union> set ps \<union> {VGA_BUFFER})"

lemma page_base_split: "a = page_base a + take_bit 12 a" "aligned 12 (page_base a)" "take_bit 12 a < 0x1000"
proof -
  show "a = page_base a + take_bit 12 a" by (simp add: page_base_def bits_ident)
  show "aligned 12 (page_base a)" by (simp add: page_base_def aligned_push_bit)
  show "take_bit 12 a < 0x1000" by (simp add: take_bit_eq_mod word_less_nat_alt unat_mod)
qed

lemma page_same_byte:
  assumes "page_same m m' (page_base a)"
  shows "m' a = m a"
proof -
  have "m' (page_base a + take_bit 12 a) = m (page_base a + take_bit 12 a)"
    using assms page_base_split(3) [of a] by (simp add: page_same_def)
  then show ?thesis using page_base_split(1) [of a] by simp
qed

definition tables_reachable :: "'a kmem_scheme \<Rightarrow> u64 \<Rightarrow> bool" where
  "tables_reachable s root \<longleftrightarrow> (\<forall>t \<in> tables_of s root. t \<noteq> root \<longrightarrow> t \<noteq> 0 \<and> t + hhdm_base s \<noteq> 0)"

lemma unmapped:
  assumes inv: "vm_inv s root ps" and nz: "tables_reachable s root" and ap: "apart s root ps A"
  defines "s1 \<equiv> unmap_lower_half root s"
  shows "\<exists>qs. vm_inv s1 root (qs @ ps) \<and> set qs = tables_of s root - {root}"
    "\<And>va. lower_half va \<Longrightarrow> leaf_of s1 root va = None \<and> missing_of s1 root va = 4"
    "a \<in> A \<Longrightarrow> mem s1 a = mem s a" "hhdm_base s1 = hhdm_base s" "cr3 s1 = cr3 s" "cr0 s1 = cr0 s"
    "kmem.more s1 = kmem.more s"
proof -
  note D = vm_invD [OF inv]
  note T = lower_tables_tree [OF D(2,3)]
  have nz': "t \<noteq> 0 \<and> t + hhdm_base s \<noteq> 0" if "t \<in> tables_of s root" "t \<noteq> root" for t
    using nz that by (simp add: tables_reachable_def)
  note U = unmapped_lower [OF vm_inv_handover [OF inv nz'], folded s1_def]
  have r: "root \<in> tables_of s root" by (rule root_in_tables)
  show "\<exists>qs. vm_inv s1 root (qs @ ps) \<and> set qs = tables_of s root - {root}"
    by (rule exI [of _ "rev (lower_tables (mem s) (hhdm_base s) root)"]) (use U(1) T r in auto)
  show "leaf_of s1 root va = None \<and> missing_of s1 root va = 4" if "lower_half va" for va using U(2) that by blast
  show "hhdm_base s1 = hhdm_base s" "cr3 s1 = cr3 s" "cr0 s1 = cr0 s" "kmem.more s1 = kmem.more s"
    using U by simp_all
  assume "a \<in> A"
  then have "page_base a - hhdm_base s \<notin> tables_of s root" using ap by (simp add: apart_def)
  moreover have "aligned 12 (page_base a - hhdm_base s)" using page_base_split(2) D(10) by (rule aligned_diff)
  ultimately have "page_same (mem s) (mem s1) (page_base a)"
    using U(4) [of "page_base a - hhdm_base s"] T r by auto
  then show "mem s1 a = mem s a" by (rule page_same_byte)
qed

section \<open>No program started\<close>

definition exec_ready :: "'a boot_scheme \<Rightarrow> u64 list \<Rightarrow> u64 set \<Rightarrow> u64 \<Rightarrow> module list \<Rightarrow> bool" where
  "exec_ready s ps A l ms \<longleftrightarrow> vm_inv s (cr3 s) ps \<and> cr3 s < 2 ^ 52 \<and> tables_reachable s (cr3 s) \<and>
     apart s (cr3 s) ps A \<and> boot_info s A l ms"

lemma aligned_bit: "aligned m r \<Longrightarrow> bit r n \<Longrightarrow> m \<le> n"
  by (metis aligned_def bit_take_bit_iff bit_0_eq bot_apply bot_bool_def not_le)

lemma cr3_root: "aligned 12 r \<Longrightarrow> r < 2 ^ 52 \<Longrightarrow> r AND 0x000FFFFFFFFFF000 = (r :: u64)"
proof -
  assume r: "aligned 12 r" "r < 2 ^ 52"
  have m: "(0x000FFFFFFFFFF000 :: u64) = push_bit 12 (mask 40)" by (simp add: mask_numeral)
  have lo: "bit r n \<Longrightarrow> 12 \<le> n" for n using aligned_bit r by blast
  have "take_bit 52 r = r" using take_bit_less_self [OF r(2)] by simp
  then have hi: "bit r n \<Longrightarrow> n < 52" for n by (metis bit_take_bit_iff)
  then have hi12: "bit r n \<Longrightarrow> n - 12 < 40" for n using lo by fastforce
  show ?thesis unfolding m
    by (rule bit_word_eqI) (use lo hi12 in \<open>auto simp: bit_simps\<close>)
qed

lemma cr3_mask: "aligned 12 r \<Longrightarrow> r AND 0xFFFFFFFFFFFFF000 = (r :: u64)"
proof -
  assume r: "aligned 12 r"
  have m: "(0xFFFFFFFFFFFFF000 :: u64) = push_bit 12 (mask 52)" by (simp add: mask_numeral)
  have lo: "bit r n \<Longrightarrow> 12 \<le> n" for n using aligned_bit r by blast
  show ?thesis unfolding m
    by (rule bit_word_eqI) (use lo in \<open>auto simp: bit_simps not_less\<close>)
qed

lemma vread_unmapped:
  assumes "vm_inv s (cr3 s) ps" "cr3 s < 2 ^ 52" "lower_half a" "leaf_of s (cr3 s) a = None"
  shows "vread s a = None"
proof -
  note D = vm_invD [OF assms(1)]
  have "mmu_translate s a = None"
    using mmu_leaf [OF D(3) assms(3)] assms(4) cr3_root [OF D(11) assms(2)] by (simp add: mmu_translate_def)
  moreover have "\<not> upper_half a" using assms(3) by (simp add: lower_half_def upper_half_def)
  ultimately show ?thesis using assms(3) by (simp add: vread_def vaddr_def)
qed

lemma hdr_of_more: "kmem.more s' = kmem.more s \<Longrightarrow> hdr s' = hdr (s :: 'a boot_scheme)"
  by (cases s; cases s'; simp)

lemma exec_ready_unmapped:
  assumes "exec_ready s ps A l ms"
  defines "s1 \<equiv> unmap_lower_half (read_cr3 s) s"
  shows "find_tag s1 (hdr s1) STIVALE2_STRUCT_TAG_MODULES_ID = Some l" "modules_at s1 l ms" "cr3 s1 = cr3 s"
    "\<exists>qs. vm_inv s1 (cr3 s) (qs @ ps)" "lower_half va \<Longrightarrow> leaf_of s1 (cr3 s) va = None"
    "lower_half va \<Longrightarrow> vread s1 va = None" "a \<in> A \<Longrightarrow> mem s1 a = mem s a"
proof -
  note R = assms(1) [unfolded exec_ready_def]
  have U: "\<exists>qs. vm_inv s1 (cr3 s) (qs @ ps) \<and> set qs = tables_of s (cr3 s) - {cr3 s}"
    "\<And>va. lower_half va \<Longrightarrow> leaf_of s1 (cr3 s) va = None \<and> missing_of s1 (cr3 s) va = 4"
    "\<And>a. a \<in> A \<Longrightarrow> mem s1 a = mem s a" "cr3 s1 = cr3 s" "kmem.more s1 = kmem.more s"
    using unmapped [of s "cr3 s" ps A] R by (simp_all add: s1_def read_cr3_def)
  have "hdr s1 = hdr s" using U(5) by (rule hdr_of_more)
  then show "find_tag s1 (hdr s1) STIVALE2_STRUCT_TAG_MODULES_ID = Some l" "modules_at s1 l ms"
    using R U(3) by (simp_all add: boot_info_def)
  show "cr3 s1 = cr3 s" "\<exists>qs. vm_inv s1 (cr3 s) (qs @ ps)" "a \<in> A \<Longrightarrow> mem s1 a = mem s a" using U by blast+
  assume va: "lower_half va"
  then show "leaf_of s1 (cr3 s) va = None" using U(2) by blast
  then show "vread s1 va = None" using vread_unmapped [of s1] U R va by force
qed

text \<open>A name in the kernel's memory: it reads the same as long as the bytes of \<open>A\<close> do.\<close>

definition kernel_name :: "u64 set \<Rightarrow> 'a boot_scheme \<Rightarrow> cptr \<Rightarrow> u8 list \<Rightarrow> bool" where
  "kernel_name A s p name \<longleftrightarrow> (\<forall>s' :: 'a boot_scheme. (\<forall>a \<in> A. mem s' a = mem s a) \<longrightarrow> cstring (kview s') p name)"

lemma kernel_name_lit: "CHR 0x00 \<notin> set name \<Longrightarrow> kernel_name A s (Lit name 0) (bytes_of name)"
  by (simp add: kernel_name_def kview_def cstring_lit)

lemma exec_setup_not_found:
  assumes "exec_ready s ps A l ms" "kernel_name A s p name" "length name < 2147483648" "name \<notin> mod_name ` set ms"
  shows "exec_setup p s = Some (Returned
    (term_puts (bytes_of ''An error occured when trying to find the module. \<newline>'') (unmap_lower_half (cr3 s) s)))"
proof -
  note E = exec_ready_unmapped [OF assms(1)]
  have "cstring (kview (unmap_lower_half (read_cr3 s) s)) p name"
    using assms(2) E(7) unfolding kernel_name_def by blast
  from find_module_first [OF E(2) this, of 0] assms(3)
  have "find_module (unmap_lower_half (read_cr3 s) s) l p 0 = Some (find (\<lambda>m. mod_name m = name) ms)" by simp
  also have "find (\<lambda>m. mod_name m = name) ms = None"
    using assms(4) by (force simp: find_None_iff)
  finally show ?thesis
    using E(1) by (simp add: exec_setup_def Let_def read_cr3_def kprintf_plain)
qed

lemma exec_setup_user_name:
  assumes "exec_ready s ps A l ms" "ms \<noteq> []" "lower_half a"
  shows "exec_setup (Addr a) s = None"
proof -
  note E = exec_ready_unmapped [OF assms(1)]
  have "kview (unmap_lower_half (read_cr3 s) s) (Addr a) = None" using E(6) [OF assms(3)] by (simp add: kview_def)
  from find_module_fault [OF E(2) assms(2) this] show ?thesis
    using E(1) by (simp add: exec_setup_def Let_def)
qed

section \<open>A machine with three modules\<close>

text \<open>
  The modules of \<open>limine.cfg\<close>: a list of three at \<open>0xFFFFFFFF80003000\<close>, 144 bytes each, with
  their names as little-endian words. The lower half is empty and the free pages are \<open>ps\<close>.
\<close>

definition module_words :: "(u64 \<times> u64) list" where
  "module_words = [(0xFFFFFFFF80001080, 0xFFFFFFFF80003000),
     (0xFFFFFFFF80003000, STIVALE2_STRUCT_TAG_MODULES_ID), (0xFFFFFFFF80003008, 0), (0xFFFFFFFF80003010, 3),
     (0xFFFFFFFF80003018, 0xFFFFFFFF80010000), (0xFFFFFFFF80003020, 0xFFFFFFFF80011000),
     (0xFFFFFFFF80003028, 0x74696E69),
     (0xFFFFFFFF800030A8, 0xFFFFFFFF80020000), (0xFFFFFFFF800030B0, 0xFFFFFFFF80021000),
     (0xFFFFFFFF800030B8, 0x6F686365),
     (0xFFFFFFFF80003138, 0xFFFFFFFF80030000), (0xFFFFFFFF80003140, 0xFFFFFFFF80031000),
     (0xFFFFFFFF80003148, 0x74696177)]"

lemma module_words_ok: "words_ok module_words"
  by (simp add: words_ok_def module_words_def)

definition name_of_word :: "u64 \<Rightarrow> u8 list" where
  "name_of_word v = map (\<lambda>i. byte_of i v) [0..<4]"

definition words_module :: "(u64 \<times> u64) list \<Rightarrow> u64 \<Rightarrow> u64 \<Rightarrow> u64 \<Rightarrow> module" where
  "words_module ws p b e = \<lparr>mod_begin = b, mod_end = e, mod_string = map (\<lambda>k. words_mem ws (p + 16 + of_nat k)) [0..<128]\<rparr>"

lemma words_module_name:
  assumes ok: "words_ok ws" and w: "(p + 16, v) \<in> set ws" and v: "byte_of 4 v = 0" "\<forall>k<4. byte_of k v \<noteq> 0"
  shows "mod_ok (words_module ws p b e)" "mod_name (words_module ws p b e) = name_of_word v"
proof -
  let ?f = "\<lambda>k. words_mem ws (p + 16 + of_nat k)"
  have byte: "?f k = byte_of k v" if "k < 8" for k using words_mem_byte [OF ok w that] .
  have f4: "?f 4 = 0" using byte [of 4] v(1) by simp
  have "\<forall>k<4. ?f k \<noteq> 0"
  proof (intro allI impI)
    fix k :: nat assume "k < 4"
    then show "?f k \<noteq> 0" using byte [of k] v(2) by simp
  qed
  then have "takeWhile (\<lambda>c. c \<noteq> 0) (map ?f [0..<128]) = map ?f [0..<4]"
    by (intro takeWhile_map_upt) (simp, assumption, rule f4)
  also have "\<dots> = name_of_word v"
    unfolding name_of_word_def by (rule map_cong [OF refl]) (use byte in simp)
  finally show "mod_name (words_module ws p b e) = name_of_word v" by (simp add: mod_name_def words_module_def)
  have "0 = ?f 4" using f4 by simp
  then have "0 \<in> ?f ` {0..<128}" by (rule image_eqI) simp
  then show "mod_ok (words_module ws p b e)" by (simp add: mod_ok_def words_module_def)
qed

lemma module_at_words:
  assumes same: "\<forall>b. 0xFFFFFFFF80000000 \<le> b \<longrightarrow> mem s b = words_mem ws b" and ok: "words_ok ws"
    and w: "(p, b) \<in> set ws" "(p + 8, e) \<in> set ws" "(p + 16, v) \<in> set ws" "p = l + 24 + 144 * i"
    and up: "p \<le> 0xFFFFFFFF90000000"
  shows "module_at s l i = Some (words_module ws p b e)"
proof -
  let ?f = "\<lambda>k. mem s (p + 16 + of_nat k)"
  have p: "0xFFFFFFFF80000000 \<le> p + 16" "p + 16 \<le> 0xFFFFFFFF90000010"
    using w(3) ok up by (auto simp: words_ok_def word_le_nat_alt unat_word_ariths)
  have "upper_half (p + 16 + of_nat k)" if "k < 128" for k
    using p that by (intro upper_half_add) (simp_all add: word_le_nat_alt)
  then have str: "vbytes s (p + 16) 128 = Some (map ?f [0..<128])" by (rule vbytes_upper)
  have "?f k = words_mem ws (p + 16 + of_nat k)" if "k < 128" for k
  proof -
    have "0xFFFFFFFF80000000 \<le> p + 16 + of_nat k"
      using p that by (simp add: word_le_nat_alt unat_word_ariths unat_of_nat)
    then show ?thesis using same by blast
  qed
  then have f: "map ?f [0..<128] = map (\<lambda>k. words_mem ws (p + 16 + of_nat k)) [0..<128]" by (intro map_cong) simp_all
  have pe: "l + TAG_BODY + 8 + 144 * i = p" using w(4) by (simp add: add.assoc)
  show ?thesis
    using words_mem_vload [OF ok w(1) same] words_mem_vload [OF ok w(2) same] str [unfolded f]
    unfolding module_at_def words_module_def Let_def pe by simp
qed

definition module_machine :: boot where
  "module_machine = (boot_machine (words_mem module_words)) \<lparr>hhdm_base := 0xFFFF800000000000\<rparr>"

lemma module_machine_simps [simp]:
  "hhdm_base module_machine = 0xFFFF800000000000" "cr3 module_machine = 0x1000"
  "mem module_machine = words_mem module_words" "hdr module_machine = 0xFFFFFFFF80001000"
  by (simp_all add: module_machine_def boot_machine_def)

lemma empty_lower_inv:
  assumes "page_zero (mem s) (0x1000 + 0xFFFF800000000000)" "hhdm_base s = 0xFFFF800000000000"
    "freelist s = 0" "term_inv s" "term_ptr s = VGA_BUFFER + hhdm_base s"
  shows "vm_inv s 0x1000 []" "tables_of s 0x1000 = {0x1000}" "lower_half va \<Longrightarrow> leaf_of s 0x1000 va = None"
proof -
  have al: "aligned 12 (hhdm_base s)" "aligned 12 (0x1000 :: u64)" by (simp_all add: word_aligned_12 assms(2))
  have "get_pte (mem s) (0x1000 + hhdm_base s) j = pte_of_word 0" if "j < 512" for j
    using get_pte_zero [OF _ that] assms(1,2) by simp
  then have "\<not> pte_present (get_pte (mem s) (0x1000 + hhdm_base s) (depth_index va 0))" for va
    by (simp add: pte_of_word_def)
  note E = empty_root [OF al this]
  show "tables_of s 0x1000 = {0x1000}" by (rule E(3))
  show "vm_inv s 0x1000 []"
    using E assms al by (simp add: vm_inv_def pmem_rep_def)
  show "lower_half va \<Longrightarrow> leaf_of s 0x1000 va = None" using E(4) by blast
qed

lemma module_machine_inv:
  "vm_inv module_machine 0x1000 []" "tables_of module_machine 0x1000 = {0x1000}"
proof -
  have "page_zero (mem module_machine) (0x1000 + 0xFFFF800000000000)"
    by (simp add: page_zero_def words_mem_def word_less_nat_alt word_le_nat_alt unat_word_ariths)
  note E = empty_lower_inv [OF this]
  show "vm_inv module_machine 0x1000 []" "tables_of module_machine 0x1000 = {0x1000}"
    by (rule E; simp add: module_machine_def boot_machine_def term_inv_def)+
qed

lemma page_base_far:
  assumes "0xFFFFFFFF80000000 \<le> a" "unat x < 0x100000000"
  shows "page_base a - 0xFFFF800000000000 \<noteq> x"
proof
  assume "page_base a - 0xFFFF800000000000 = x"
  then have pa: "page_base a = x + 0xFFFF800000000000" by (simp add: algebra_simps)
  obtain t where t: "t < 0x1000" "a = x + 0xFFFF800000000000 + t"
    using page_base_split(1,3) [of a] pa by metis
  then have "unat a < 0xFFFF900000000000"
    using assms(2) by (simp add: unat_word_ariths word_less_nat_alt)
  then show False using assms(1) by (simp add: word_le_nat_alt)
qed

lemma module_names:
  "name_of_word 0x74696E69 = bytes_of ''init''" "name_of_word 0x6F686365 = bytes_of ''echo''"
  "name_of_word 0x74696177 = bytes_of ''wait''"
  by (simp_all add: name_of_word_def bytes_of_def upt_rec byte_of_def)

lemma module_tag:
  fixes s' :: "'a boot_scheme"
  assumes same: "\<forall>b. 0xFFFFFFFF80000000 \<le> b \<longrightarrow> mem s' b = words_mem ws b" and ok: "words_ok ws"
    and w: "(h + 128, l) \<in> set ws" "(l, STIVALE2_STRUCT_TAG_MODULES_ID) \<in> set ws"
    and l: "l \<noteq> 0"
  shows "find_tag s' h STIVALE2_STRUCT_TAG_MODULES_ID = Some l"
  using words_mem_vload [OF ok w(1) same] words_mem_vload [OF ok w(2) same] l
  by (simp add: find_tag_def) (simp add: find_tag_loop.simps)

definition example_modules :: "(u64 \<times> u64) list \<Rightarrow> module list" where
  "example_modules ws =
     [words_module ws 0xFFFFFFFF80003018 0xFFFFFFFF80010000 0xFFFFFFFF80011000,
      words_module ws 0xFFFFFFFF800030A8 0xFFFFFFFF80020000 0xFFFFFFFF80021000,
      words_module ws 0xFFFFFFFF80003138 0xFFFFFFFF80030000 0xFFFFFFFF80031000]"

lemma example_module_names:
  assumes ok: "words_ok ws" "set module_words \<subseteq> set ws"
  shows "map mod_name (example_modules ws) = [bytes_of ''init'', bytes_of ''echo'', bytes_of ''wait'']"
  "\<forall>m \<in> set (example_modules ws). mod_ok m"
proof -
  have four: "k = 0 \<or> k = 1 \<or> k = 2 \<or> k = 3" if "k < 4" for k :: nat using that by linarith
  have nz: "\<forall>k<4. byte_of k (0x74696E69 :: u64) \<noteq> 0" "\<forall>k<4. byte_of k (0x6F686365 :: u64) \<noteq> 0"
    "\<forall>k<4. byte_of k (0x74696177 :: u64) \<noteq> 0"
    by (auto dest!: four simp: byte_of_def)
  have z: "byte_of 4 (0x74696E69 :: u64) = 0" "byte_of 4 (0x6F686365 :: u64) = 0" "byte_of 4 (0x74696177 :: u64) = 0"
    by (simp_all add: byte_of_def)
  have w: "(0xFFFFFFFF80003018 + 16, 0x74696E69) \<in> set ws"
    "(0xFFFFFFFF800030A8 + 16, 0x6F686365) \<in> set ws"
    "(0xFFFFFFFF80003138 + 16, 0x74696177) \<in> set ws" using ok(2) by (simp_all add: module_words_def)
  note N = words_module_name [OF ok(1)]
  show "map mod_name (example_modules ws) = [bytes_of ''init'', bytes_of ''echo'', bytes_of ''wait'']"
    "\<forall>m \<in> set (example_modules ws). mod_ok m"
    using N [OF w(1) z(1) nz(1)] N [OF w(2) z(2) nz(2)] N [OF w(3) z(3) nz(3)] module_names
    by (simp_all add: example_modules_def)
qed

lemma module_list:
  assumes same: "\<forall>b. 0xFFFFFFFF80000000 \<le> b \<longrightarrow> mem s' b = words_mem ws b"
    and ok: "words_ok ws" "set module_words \<subseteq> set ws"
  shows "modules_at s' 0xFFFFFFFF80003000 (example_modules ws)"
proof -
  note at = module_at_words [OF same ok(1)]
  have w: "p \<in> set module_words \<Longrightarrow> p \<in> set ws" for p using ok(2) by blast
  have "module_at s' 0xFFFFFFFF80003000 0 = Some (example_modules ws ! 0)"
    unfolding example_modules_def nth_Cons_0
    by (rule at [where v = "0x74696E69"]) (simp_all add: w module_words_def)
  moreover have "module_at s' 0xFFFFFFFF80003000 1 = Some (example_modules ws ! 1)"
    unfolding example_modules_def One_nat_def nth_Cons_Suc nth_Cons_0
    by (rule at [where v = "0x6F686365"]) (simp_all add: w module_words_def)
  moreover have "module_at s' 0xFFFFFFFF80003000 2 = Some (example_modules ws ! 2)"
    unfolding example_modules_def numeral_2_eq_2 nth_Cons_Suc nth_Cons_0
    by (rule at [where v = "0x74696177"]) (simp_all add: w module_words_def)
  moreover have "module_count s' 0xFFFFFFFF80003000 = Some 3"
    using words_mem_vload [OF ok(1) w same, of "0xFFFFFFFF80003010"] by (simp add: module_count_def module_words_def)
  moreover have "length (example_modules ws) = 3" by (simp add: example_modules_def)
  moreover have "i = 0 \<or> i = 1 \<or> i = 2" if "i < 3" for i :: nat using that by linarith
  ultimately have "\<forall>i<3. module_at s' 0xFFFFFFFF80003000 (of_nat i) = Some (example_modules ws ! i)"
    "module_count s' 0xFFFFFFFF80003000 = Some 3" "length (example_modules ws) = 3" by fastforce+
  then show ?thesis using example_module_names(2) [OF ok] by (simp add: modules_at_def)
qed

lemma module_boot_info:
  fixes s :: "'a boot_scheme"
  assumes same: "\<forall>b. 0xFFFFFFFF80000000 \<le> b \<longrightarrow> mem s b = words_mem ws b"
    and ok: "words_ok ws" "set module_words \<subseteq> set ws" and h: "hdr s = 0xFFFFFFFF80001000"
  shows "boot_info s {a. 0xFFFFFFFF80000000 \<le> a} 0xFFFFFFFF80003000 (example_modules ws)"
  unfolding boot_info_def h
proof (intro allI impI conjI)
  fix s' :: "'a boot_scheme"
  assume "\<forall>a \<in> {a. 0xFFFFFFFF80000000 \<le> a}. mem s' a = mem s a"
  then have same': "\<forall>b. 0xFFFFFFFF80000000 \<le> b \<longrightarrow> mem s' b = words_mem ws b" using same by simp
  have w: "p \<in> set module_words \<Longrightarrow> p \<in> set ws" for p using ok(2) by blast
  show "find_tag s' 0xFFFFFFFF80001000 STIVALE2_STRUCT_TAG_MODULES_ID = Some 0xFFFFFFFF80003000"
    by (rule module_tag [OF same' ok(1)]) (simp_all add: w module_words_def)
  show "modules_at s' 0xFFFFFFFF80003000 (example_modules ws)" by (rule module_list [OF same' ok])
qed

lemma module_machine_ready:
  "exec_ready module_machine [] {a. 0xFFFFFFFF80000000 \<le> a} 0xFFFFFFFF80003000 (example_modules module_words)"
proof -
  let ?A = "{a. 0xFFFFFFFF80000000 \<le> a} :: u64 set"
  have "boot_info module_machine ?A 0xFFFFFFFF80003000 (example_modules module_words)"
    by (rule module_boot_info [OF _ module_words_ok]) simp_all
  moreover have "apart module_machine 0x1000 [] ?A"
    unfolding apart_def module_machine_inv(2) using page_base_far by simp
  moreover have "tables_reachable module_machine 0x1000"
    unfolding tables_reachable_def module_machine_inv(2) by simp
  ultimately show ?thesis using module_machine_inv(1) by (simp add: exec_ready_def)
qed

section \<open>Properties\<close>

text \<open>C35: \<open>exec_setup\<close> with a name in the kernel's memory (a literal, as in \<open>_start\<close>, or a string
  apart from the page tables and free pages) that no module has unmaps the lower half, prints
  its message and returns: no program is started and nothing of the lower half is mapped.\<close>

theorem exec_unknown_module:
  assumes "exec_ready s ps A l ms" "kernel_name A s p name" "length name < 2147483648" "name \<notin> mod_name ` set ms"
  shows "exec_setup p s = Some (Returned
      (term_puts (bytes_of ''An error occured when trying to find the module. \<newline>'') (unmap_lower_half (cr3 s) s))) \<and>
    (\<forall>va. lower_half va \<longrightarrow> leaf_of (unmap_lower_half (cr3 s) s) (cr3 s) va = None)"
  using exec_setup_not_found [OF assms] exec_ready_unmapped(5) [OF assms(1)] by (simp add: read_cr3_def)

text \<open>The witness is the name that \<open>_start\<close> asks for, and the modules that are configured.\<close>

theorem exec_unknown_module_witness:
  "\<exists>s'. exec_setup (Lit ''sleep'' 0) module_machine = Some (Returned s')"
proof -
  have "mod_name ` set (example_modules module_words) = set [bytes_of ''init'', bytes_of ''echo'', bytes_of ''wait'']"
    by (metis example_module_names(1) [OF module_words_ok subset_refl] set_map)
  then have "\<forall>b \<in> mod_name ` set (example_modules module_words). length b = 4" by simp
  moreover have "length (bytes_of ''sleep'') = 5" by simp
  ultimately have "bytes_of ''sleep'' \<notin> mod_name ` set (example_modules module_words)" by fastforce
  from exec_unknown_module [OF module_machine_ready kernel_name_lit _ this] show ?thesis by auto
qed

text \<open>C33: a name in user memory is unmapped before it is read: \<open>exec_setup\<close> on a lower-half
  pointer, which is what the system call from a user program passes, always faults in
  \<open>strcmp\<close> when there is a module to compare with, and starts no program.\<close>

theorem exec_user_name_faults:
  assumes "exec_ready s ps A l ms" "ms \<noteq> []" "lower_half a"
  shows "exec_setup (Addr a) s = None"
  using assms by (rule exec_setup_user_name)

theorem exec_user_name_faults_witness: "exec_setup (Addr user_base) module_machine = None"
  by (rule exec_user_name_faults [OF module_machine_ready _ user_base_lower]) (simp add: example_modules_def)

end
