(* ===== verification/AddrGrow.thy ===== *)
theory AddrGrow
  imports Launch
begin

text \<open>
  Address spaces that grow: \<open>grown P s s'\<close> says that \<open>s'\<close> came from \<open>s\<close> by operations that
  changed only page tables and pages of \<open>P\<close>. It composes, it keeps what \<open>user_page\<close> says of
  a mapped page (its permissions and its 4096 bytes), and mapping, protecting and writing a
  page are instances. The loader's loops are sequences of such steps.
\<close>

lemma page_base_aligned_add:
  assumes "aligned 12 a" "x < 0x1000"
  shows "page_base (a + x) = a"
proof -
  have "take_bit 12 (a + x) = x" using take_bit_aligned_add [OF assms(1), of x] assms(2) by simp
  then show ?thesis using page_base_split(1) [of "a + x"] by (metis add_right_cancel)
qed

section \<open>Growth\<close>

definition grown :: "u64 set \<Rightarrow> u64 \<Rightarrow> 'a kmem_scheme \<Rightarrow> 'a kmem_scheme \<Rightarrow> bool" where
  "grown P root s s' \<longleftrightarrow> same_cpu s s' \<and> tables_of s' root \<subseteq> tables_of s root \<union> P \<and>
     (\<forall>a. aligned 12 a \<and> a \<notin> tables_of s root \<union> P \<longrightarrow> page_same (mem s) (mem s') (a + hhdm_base s))"

lemma grown_refl [simp]: "grown P root s s"
  by (simp add: grown_def)

lemma grown_trans: "grown P root s s1 \<Longrightarrow> grown P root s1 s2 \<Longrightarrow> grown P root s s2"
proof -
  assume g: "grown P root s s1" "grown P root s1 s2"
  have h: "hhdm_base s1 = hhdm_base s" using g(1) by (simp add: grown_def same_cpu_def)
  have "same_cpu s s2" using g same_cpu_trans by (auto simp: grown_def)
  moreover have "tables_of s2 root \<subseteq> tables_of s root \<union> P" using g by (auto simp: grown_def)
  moreover have "page_same (mem s) (mem s2) (a + hhdm_base s)" if "aligned 12 a" "a \<notin> tables_of s root \<union> P" for a
  proof (rule page_same_trans)
    show "page_same (mem s) (mem s1) (a + hhdm_base s)" using g(1) that by (simp add: grown_def)
    have "a \<notin> tables_of s1 root \<union> P" using g(1) that by (auto simp: grown_def)
    then show "page_same (mem s1) (mem s2) (a + hhdm_base s)" using g(2) that(1) by (simp add: grown_def h)
  qed
  ultimately show ?thesis by (simp add: grown_def)
qed

lemma grown_mono: "grown P root s s' \<Longrightarrow> P \<subseteq> Q \<Longrightarrow> grown Q root s s'"
  unfolding grown_def by blast

text \<open>The pages that growing may change, and the bytes \<open>A\<close> it does not.\<close>

definition safe :: "'a kmem_scheme \<Rightarrow> u64 \<Rightarrow> u64 set \<Rightarrow> u64 set \<Rightarrow> bool" where
  "safe s root P A \<longleftrightarrow> (\<forall>a \<in> A. page_base a - hhdm_base s \<notin> tables_of s root \<union> P)"

lemma safe_grown:
  assumes "safe s root P A" "grown P root s s'" "aligned 12 (hhdm_base s)"
  shows "safe s' root P A" "a \<in> A \<Longrightarrow> mem s' a = mem s a"
proof -
  show "safe s' root P A" using assms(1,2) by (auto simp: safe_def grown_def same_cpu_def)
  assume "a \<in> A"
  then have "page_base a - hhdm_base s \<notin> tables_of s root \<union> P" using assms(1) by (simp add: safe_def)
  moreover have "aligned 12 (page_base a - hhdm_base s)" using page_base_split(2) assms(3) by (rule aligned_diff)
  ultimately have "page_same (mem s) (mem s') (page_base a - hhdm_base s + hhdm_base s)"
    using assms(2) unfolding grown_def by blast
  then show "mem s' a = mem s a" by (intro page_same_byte) simp
qed

section \<open>A mapped page\<close>

text \<open>\<open>user_page s root Q va w x c\<close>: \<open>va\<close> is mapped for user mode with these permissions, to a
  page outside \<open>Q\<close>, the tables and the screen, that holds \<open>c\<close>.\<close>

definition user_page :: "'a kmem_scheme \<Rightarrow> u64 \<Rightarrow> u64 set \<Rightarrow> u64 \<Rightarrow> bool \<Rightarrow> bool \<Rightarrow> (nat \<Rightarrow> u8) \<Rightarrow> bool" where
  "user_page s root Q va w x c \<longleftrightarrow>
     (\<exists>e. leaf_of s root va = Some e \<and> pte_user e \<and> pte_writable e = w \<and> pte_no_execute e = (\<not> x) \<and>
        pte_frame e \<notin> tables_of s root \<union> Q \<union> {VGA_BUFFER} \<and>
        (\<forall>k<0x1000. mem s (pte_frame e + hhdm_base s + of_nat k) = c k))"

lemma user_page_grown:
  assumes "user_page s root Q va w x c" "grown P root s s'" "leaf_of s' root va = leaf_of s root va" "P \<subseteq> Q" "Q' \<subseteq> Q"
  shows "user_page s' root Q' va w x c"
proof -
  obtain e where e: "leaf_of s root va = Some e" "pte_user e" "pte_writable e = w" "pte_no_execute e = (\<not> x)"
    "pte_frame e \<notin> tables_of s root \<union> Q \<union> {VGA_BUFFER}"
    "\<forall>k<0x1000. mem s (pte_frame e + hhdm_base s + of_nat k) = c k"
    using assms(1) unfolding user_page_def by blast
  have h: "hhdm_base s' = hhdm_base s" using assms(2) by (simp add: grown_def same_cpu_def)
  have "pte_frame e \<notin> tables_of s root \<union> P" using assms(4) e(5) by blast
  then have same: "page_same (mem s) (mem s') (pte_frame e + hhdm_base s)"
    using assms(2) aligned_pte_frame unfolding grown_def by blast
  have "mem s' (pte_frame e + hhdm_base s + of_nat k) = c k" if "k < 0x1000" for k
  proof -
    have "(of_nat k :: u64) < 0x1000" using that by (simp add: word_less_nat_alt unat_of_nat)
    then show ?thesis using same e(6) that by (simp add: page_same_def)
  qed
  moreover have "pte_frame e \<notin> tables_of s' root \<union> Q' \<union> {VGA_BUFFER}"
    using assms(2,4,5) e(5) by (auto simp: grown_def)
  ultimately show ?thesis using e assms(3) unfolding user_page_def h by auto
qed

section \<open>Mapping\<close>

lemma missing_le_4: "missing_of s root va \<le> 4"
  unfolding pt_missing_def by (rule order_trans [OF length_filter_le]) simp

lemma missing_pos: "leaf_of s root va = None \<Longrightarrow> 0 < missing_of s root va"
proof -
  assume "leaf_of s root va = None"
  then have "pt_base (mem s) (hhdm_base s) root va (Suc 3) = None"
    by (auto simp only: pt_base.simps pt_leaf_def Let_def split: option.splits if_splits)
  then have "4 \<in> set (filter (\<lambda>d. pt_base (mem s) (hhdm_base s) root va d = None) [1, 2, 3, 4])" by simp
  then show ?thesis unfolding pt_missing_def by (metis length_pos_if_in_set)
qed

text \<open>Mapping a page writable for user mode takes at most four free pages; the new page is zero.\<close>

lemma map_user_page:
  assumes inv: "vm_inv s root ps" and low: "lower_half va" and none: "leaf_of s root va = None" and room: "4 \<le> length ps"
  shows "\<exists>s' n. vm_map root va True True False s = Some (True, s') \<and> n \<le> 4 \<and> vm_inv s' root (drop n ps) \<and>
    grown (set ps) root s s' \<and> user_page s' root (set (drop n ps)) va True False (\<lambda>_. 0) \<and>
    (\<exists>e. leaf_of s' root va = Some e \<and> pte_frame e \<in> set ps) \<and>
    (\<forall>va'. lower_half va' \<and> \<not> same_page va va' \<longrightarrow> leaf_of s' root va' = leaf_of s root va')"
proof -
  note D = vm_invD [OF inv]
  define n where "n = missing_of s root va"
  have n: "n \<le> 4" "0 < n" "n \<le> length ps"
    using missing_le_4 [of s root va] missing_pos [OF none] room by (auto simp: n_def)
  obtain s' where s': "vm_map root va True True False s = Some (True, s')"
    "vm_mapped root va True True False ps n s s'"
    using vm_map_spec [OF inv low, where u = True and w = True and x = False] none n by (auto simp: n_def)
  note M = s'(2) [unfolded vm_mapped_def]
  have h: "hhdm_base s' = hhdm_base s" using M by (simp add: same_cpu_def)
  have dist: "distinct ps" using D(1) by (simp add: pmem_rep_def)
  have split: "ps = take (n - 1) ps @ ps ! (n - 1) # drop n ps"
    using id_take_nth_drop [of "n - 1" ps] n by simp
  have p: "ps ! (n - 1) \<in> set ps" "ps ! (n - 1) \<notin> set (take (n - 1) ps)" "ps ! (n - 1) \<notin> set (drop n ps)"
  proof -
    have "distinct (take (n - 1) ps @ ps ! (n - 1) # drop n ps)" using dist split by metis
    then show "ps ! (n - 1) \<notin> set (take (n - 1) ps)" "ps ! (n - 1) \<notin> set (drop n ps)" by simp_all
    show "ps ! (n - 1) \<in> set ps" using n by (intro nth_mem) simp
  qed
  have frame: "ps ! (n - 1) \<notin> tables_of s' root \<union> set (drop n ps) \<union> {VGA_BUFFER}"
    using M p D by auto
  obtain e where e: "leaf_of s' root va = Some e" "pte_frame e = ps ! (n - 1)" "pte_user e" "pte_writable e" "pte_no_execute e"
    using M by auto
  have "mem s' (ps ! (n - 1) + hhdm_base s' + of_nat k) = 0" if "k < 0x1000" for k
    using M that by (simp add: page_zero_def h word_less_nat_alt unat_of_nat)
  then have "user_page s' root (set (drop n ps)) va True False (\<lambda>_. 0)"
    using e frame unfolding user_page_def by auto
  moreover have "grown (set ps) root s s'"
    using M in_set_takeD [of _ n ps] in_set_takeD [of _ "n - 1" ps] by (auto simp: grown_def)
  ultimately show ?thesis using s'(1) M n(1) e(1,2) p(1) by (intro exI [of _ s'] exI [of _ n]) auto
qed

section \<open>Writing a mapped page\<close>

lemma vm_inv_page_write:
  assumes inv: "vm_inv s root ps" and p: "p \<notin> tables_of s root \<union> set ps" "aligned 12 p"
    and same: "\<And>b. page_base b \<noteq> p + hhdm_base s \<Longrightarrow> m b = mem s b"
  shows "vm_inv (s\<lparr>mem := m\<rparr>) root ps" "tables_of (s\<lparr>mem := m\<rparr>) root = tables_of s root"
    "lower_half va \<Longrightarrow> leaf_of (s\<lparr>mem := m\<rparr>) root va = leaf_of s root va"
    "grown {p} root s (s\<lparr>mem := m\<rparr>)"
proof -
  note D = vm_invD [OF inv]
  have keep: "page_same (mem s) m (a + hhdm_base s)" if "aligned 12 a" "a \<noteq> p" for a
    unfolding page_same_def
  proof (intro allI impI same)
    fix x :: u64 assume x: "x < 0x1000"
    have "aligned 12 (a + hhdm_base s)" using that(1) D(10) by (rule aligned_add)
    then have "page_base (a + hhdm_base s + x) = a + hhdm_base s" using x by (rule page_base_aligned_add)
    then show "page_base (a + hhdm_base s + x) \<noteq> p + hhdm_base s" using that(2) by simp
  qed
  have t: "page_same (mem s) m (t + hhdm_base s)" if "t \<in> tables_of s root" for t
    using keep pt_tables_aligned [OF D(2) that] that p(1) by blast
  have q: "page_same (mem s) m (q + hhdm_base s)" if "q \<in> set ps" for q
    using keep [of q] that p(1) D(1) by (auto simp: pmem_rep_def page_ok_def)
  note U = tables_untouched [OF D(2,3) t]
  have "pmem_rep (s\<lparr>mem := m\<rparr>) ps" by (rule pmem_rep_cong [OF D(1)]) (use q in auto)
  then show "vm_inv (s\<lparr>mem := m\<rparr>) root ps" using D U(1,2,3) by (simp add: vm_inv_def term_inv_def)
  show t': "tables_of (s\<lparr>mem := m\<rparr>) root = tables_of s root"
    "lower_half va \<Longrightarrow> leaf_of (s\<lparr>mem := m\<rparr>) root va = leaf_of s root va" using U by simp_all
  show "grown {p} root s (s\<lparr>mem := m\<rparr>)" using keep t' by (auto simp: grown_def same_cpu_def)
qed

end
