(* ===== verification/Loader.thy ===== *)
theory Loader
  imports AddrGrow
begin

text \<open>
  What loading a program achieves (\<open>exec_setup\<close> of \<open>kernel/executables.c\<close>): a copy into a
  mapped page, one segment, the program header table, the stack, and the whole call. The ELF
  file is upper-half memory \<open>A\<close> that no page table, no free page and no mapped page contains.
\<close>

section \<open>Addresses within a page\<close>

lemma page_offset: "va AND 0xFFF = take_bit 12 (va :: u64)"
  by (simp add: take_bit_eq_mask mask_eq_exp_minus_1)

lemma lower_half_page: "lower_half a \<longleftrightarrow> drop_bit 35 (drop_bit 12 a) = 0"
  by (simp add: lower_half_def)

lemma within_page:
  assumes "unat (take_bit 12 va) + j < 0x1000"
  shows "page_base (va + of_nat j) = page_base va" "take_bit 12 (va + of_nat j) = take_bit 12 va + of_nat j"
    "drop_bit 12 (va + of_nat j) = drop_bit 12 va" "lower_half (va + of_nat j) = lower_half va"
    "same_page va (va + of_nat j)"
proof -
  let ?o = "take_bit 12 va + of_nat j"
  have o: "?o < 0x1000" using assms by (simp add: word_less_nat_alt unat_word_ariths unat_of_nat)
  have split: "va + of_nat j = page_base va + ?o"
    using page_base_split(1) [of va] by (metis add.assoc)
  show b: "page_base (va + of_nat j) = page_base va"
    unfolding split by (rule page_base_aligned_add [OF page_base_split(2) o])
  show "take_bit 12 (va + of_nat j) = ?o"
    unfolding split by (rule take_bit_aligned_add [OF page_base_split(2)]) (use o in simp_all)
  have "drop_bit 12 (page_base a) = drop_bit 12 a" for a :: u64
    unfolding page_base_def by (rule bit_word_eqI) (auto simp: bit_simps dest: bit_imp_le_length)
  then show d: "drop_bit 12 (va + of_nat j) = drop_bit 12 va" using b by metis
  then show "lower_half (va + of_nat j) = lower_half va" "same_page va (va + of_nat j)"
    by (simp_all only: lower_half_page same_page_def)
qed

lemma vaddr_mapped:
  assumes "vm_inv s (cr3 s) ps" "cr3 s < 2 ^ 52" "lower_half a" "leaf_of s (cr3 s) a = Some e"
    "write \<longrightarrow> pte_writable e"
  shows "vaddr s write a = Some (pte_frame e + hhdm_base s + take_bit 12 a)"
proof -
  note D = vm_invD [OF assms(1)]
  have "mmu_translate s a = Some \<lparr>tr_phys = pte_frame e + (a AND 0xFFF), tr_user = pte_user e,
      tr_writable = pte_writable e, tr_executable = \<not> pte_no_execute e\<rparr>"
    using mmu_leaf [OF D(3) assms(3)] assms(4) cr3_root [OF D(11) assms(2)] by (simp add: mmu_translate_def)
  moreover have "\<not> upper_half a" using assms(3) by (simp add: lower_half_def upper_half_def)
  ultimately show ?thesis using assms(3,5) by (simp add: vaddr_def ptov_def page_offset algebra_simps)
qed

lemma same_page_sym: "same_page a b \<longleftrightarrow> same_page b a"
  by (auto simp: same_page_def)

section \<open>Copying into a mapped page\<close>

text \<open>The memory after \<open>j\<close> bytes from \<open>src\<close> were copied to \<open>d\<close>.\<close>

definition copied :: "mem \<Rightarrow> u64 \<Rightarrow> u64 \<Rightarrow> nat \<Rightarrow> mem" where
  "copied m d src j = (\<lambda>b. if unat (b - d) < j then m (src + (b - d)) else m b)"

lemma copied_Suc:
  assumes "j < 0x1000"
  shows "(copied m d src j)(d + of_nat j := m (src + of_nat j)) = copied m d src (Suc j)"
proof
  fix b
  have u: "unat (of_nat j :: u64) = j" using assms by (simp add: unat_of_nat)
  have "unat (b - d) = j \<longleftrightarrow> b = d + of_nat j"
    by (metis add.commute add_diff_cancel_left' diff_add_cancel u word_unat_eq_iff)
  then show "((copied m d src j)(d + of_nat j := m (src + of_nat j))) b = copied m d src (Suc j) b"
    by (auto simp: copied_def less_Suc_eq u)
qed

lemma copied_other_page:
  assumes "aligned 12 p" "o' < 0x1000" "unat o' + j \<le> 0x1000" "page_base b \<noteq> p"
  shows "copied m (p + o') src j b = m b"
proof -
  have "\<not> unat (b - (p + o')) < j"
  proof
    assume j: "unat (b - (p + o')) < j"
    obtain x where x: "x = b - (p + o')" by blast
    have "o' + x < 0x1000" using assms(2,3) j by (simp add: word_less_nat_alt unat_word_ariths flip: x)
    then have "page_base (p + (o' + x)) = p" by (rule page_base_aligned_add [OF assms(1)])
    moreover have "p + (o' + x) = b" by (simp add: x)
    ultimately show False using assms(4) by simp
  qed
  then show ?thesis by (simp add: copied_def)
qed

lemma copied_page:
  assumes "aligned 12 p" "o' < 0x1000" "unat o' + j \<le> 0x1000" "k < 0x1000"
  shows "copied m (p + o') src j (p + of_nat k) =
    (if unat o' \<le> k \<and> k < unat o' + j then m (src + of_nat (k - unat o')) else m (p + of_nat k))"
proof (cases "unat o' \<le> k")
  case True
  have "of_nat k - o' = of_nat (k - unat o')" using True by (simp add: of_nat_diff)
  then have d: "p + of_nat k - (p + o') = of_nat (k - unat o')" by (simp add: algebra_simps)
  have "unat (of_nat (k - unat o') :: u64) = k - unat o'" using assms(4) by (simp add: unat_of_nat)
  then show ?thesis using True by (auto simp: copied_def d)
next
  case False
  have "unat (of_nat k - o') = 2 ^ 64 + k - unat o'"
  proof -
    have "of_nat k < o'" using False assms(4) by (simp add: word_less_nat_alt unat_of_nat)
    then show ?thesis using False assms(4) by (simp add: unat_sub_if' unat_of_nat word_le_nat_alt word_less_nat_alt)
  qed
  moreover have "p + of_nat k - (p + o') = of_nat k - o'" by simp
  moreover have "\<not> 2 ^ 64 + k - unat o' < j" using assms(2,3) by (simp add: word_less_nat_alt)
  ultimately show ?thesis using False by (simp add: copied_def)
qed

lemma vmemcpy_loop_page:
  fixes s :: "'a kmem_scheme"
  assumes inv: "vm_inv s (cr3 s) ps" "cr3 s < 2 ^ 52" and low: "lower_half va" and leaf: "leaf_of s (cr3 s) va = Some e"
    and w: "pte_writable e" and f: "pte_frame e \<notin> tables_of s (cr3 s) \<union> set ps"
    and n: "unat (take_bit 12 va) + n \<le> 0x1000"
    and src: "\<And>i. i < n \<Longrightarrow> upper_half (src + of_nat i) \<and> page_base (src + of_nat i) \<noteq> pte_frame e + hhdm_base s"
    and N: "n \<le> unat N"
  defines "C \<equiv> \<lambda>j. copied (mem s) (pte_frame e + hhdm_base s + take_bit 12 va) src j"
  shows "j \<le> n \<Longrightarrow> vmemcpy_loop (va + of_nat j) (src + of_nat j) N (int j) (s\<lparr>mem := C j\<rparr>) =
    vmemcpy_loop (va + of_nat n) (src + of_nat n) N (int n) (s\<lparr>mem := C n\<rparr>)"
proof (induction "n - j" arbitrary: j)
  case 0
  then show ?case by simp
next
  case (Suc r)
  note D = vm_invD [OF inv(1)]
  have P: "aligned 12 (pte_frame e + hhdm_base s)" using D(10) by (intro aligned_add) simp_all
  have jn: "j < n" "j < 0x1000" "unat (take_bit 12 va) + j < 0x1000" using Suc.hyps(2) n by auto
  have O: "take_bit 12 va < 0x1000" by (rule page_base_split(3))
  let ?s = "s\<lparr>mem := C j\<rparr>"
  have other: "C j b = mem s b" if "page_base b \<noteq> pte_frame e + hhdm_base s" for b
    unfolding C_def by (rule copied_other_page [OF P O _ that]) (use jn in simp)
  have W: "vm_inv ?s (cr3 s) ps" "lower_half b \<Longrightarrow> leaf_of ?s (cr3 s) b = leaf_of s (cr3 s) b" for b
    using vm_inv_page_write(1,3) [OF inv(1) f aligned_pte_frame, of "C j"] other by blast+
  have va: "lower_half (va + of_nat j)" "same_page va (va + of_nat j)"
    "take_bit 12 (va + of_nat j) = take_bit 12 va + of_nat j" using within_page [OF jn(3)] low by simp_all
  have "leaf_of ?s (cr3 s) (va + of_nat j) = Some e"
    using W(2) [OF va(1)] leaf leaf_same_page [OF va(2)] by metis
  then have A: "vaddr ?s True (va + of_nat j) = Some (pte_frame e + hhdm_base s + take_bit 12 va + of_nat j)"
    using vaddr_mapped [of ?s ps "va + of_nat j" e True] W(1) inv(2) va w by (simp add: add.assoc)
  have b: "vread ?s (src + of_nat j) = Some (mem s (src + of_nat j))" using src [OF jn(1)] other by simp
  have wr: "vwrite (va + of_nat j) (mem s (src + of_nat j)) ?s = Some (s\<lparr>mem := C (Suc j)\<rparr>)"
    unfolding vwrite_def A by (simp add: C_def copied_Suc [OF jn(2), symmetric])
  have lt: "(of_nat j :: u64) < N" using jn N by (simp add: word_less_nat_alt unat_of_nat)
  have IH: "vmemcpy_loop (va + of_nat j + 1) (src + of_nat j + 1) N (int j + 1) (s\<lparr>mem := C (Suc j)\<rparr>) =
      vmemcpy_loop (va + of_nat n) (src + of_nat n) N (int n) (s\<lparr>mem := C n\<rparr>)"
    using Suc.hyps(1) [of "Suc j"] Suc.hyps(2) jn by (simp add: algebra_simps)
  show ?case using jn by (subst vmemcpy_loop.simps) (simp add: lt b wr IH)
qed

lemma vmemcpy_page:
  assumes "vm_inv s (cr3 s) ps" "cr3 s < 2 ^ 52" "lower_half va" "leaf_of s (cr3 s) va = Some e"
    "pte_writable e" "pte_frame e \<notin> tables_of s (cr3 s) \<union> set ps" "unat (take_bit 12 va) + unat n \<le> 0x1000"
    "\<And>i. i < unat n \<Longrightarrow> upper_half (src + of_nat i) \<and> page_base (src + of_nat i) \<noteq> pte_frame e + hhdm_base s"
  shows "vmemcpy va src n s = Some (s\<lparr>mem := copied (mem s) (pte_frame e + hhdm_base s + take_bit 12 va) src (unat n)\<rparr>)"
proof -
  have z: "copied (mem s) d src 0 = mem s" for d by (simp add: copied_def)
  show ?thesis
    using vmemcpy_loop_page [OF assms order_refl, of 0] vmemcpy_loop.simps [of _ _ n "int (unat n)"]
    by (simp add: vmemcpy_def z)
qed

section \<open>Reading the ELF file\<close>

text \<open>A program header as the loader reads it, and the bytes \<open>a .. a + n - 1\<close> as part of the file.\<close>

record segment =
  seg_type :: u64
  seg_flags :: u64
  seg_offset :: u64
  seg_vaddr :: u64
  seg_filesz :: u64
  seg_memsz :: u64

definition phdr_at :: "mem \<Rightarrow> u64 \<Rightarrow> segment" where
  "phdr_at m ph = \<lparr>seg_type = load_bytes m ph 4, seg_flags = load_bytes m (ph + 4) 4,
     seg_offset = load_bytes m (ph + 8) 8, seg_vaddr = load_bytes m (ph + 16) 8,
     seg_filesz = load_bytes m (ph + 32) 8, seg_memsz = load_bytes m (ph + 40) 8\<rparr>"

definition readable :: "u64 set \<Rightarrow> u64 \<Rightarrow> nat \<Rightarrow> bool" where
  "readable A a n \<longleftrightarrow> (\<forall>i<n. upper_half (a + of_nat i) \<and> a + of_nat i \<in> A)"

abbreviation loadable :: "segment \<Rightarrow> bool" where
  "loadable sg \<equiv> seg_type sg = PT_LOAD \<and> 0 < seg_filesz sg"

definition segment_fits :: "u64 set \<Rightarrow> u64 \<Rightarrow> segment \<Rightarrow> bool" where
  "segment_fits A header sg \<longleftrightarrow> lower_half (seg_vaddr sg) \<and>
     unat (take_bit 12 (seg_vaddr sg)) + unat (seg_memsz sg) \<le> 0x1000 \<and>
     readable A (header + seg_offset sg) (unat (seg_memsz sg))"

text \<open>The page that the segment becomes: \<open>p_memsz\<close> bytes of the file, zero around them.\<close>

definition segment_page :: "mem \<Rightarrow> u64 \<Rightarrow> segment \<Rightarrow> nat \<Rightarrow> u8" where
  "segment_page m header sg k =
     (let d = unat (take_bit 12 (seg_vaddr sg))
      in if d \<le> k \<and> k < d + unat (seg_memsz sg) then m (header + seg_offset sg + of_nat (k - d)) else 0)"

lemma segment_page_cong:
  assumes "segment_fits A header sg" "\<And>b. b \<in> A \<Longrightarrow> m' b = m b"
  shows "segment_page m' header sg = segment_page m header sg"
proof
  fix k
  have "m' (header + seg_offset sg + of_nat j) = m (header + seg_offset sg + of_nat j)" if "j < unat (seg_memsz sg)" for j
    using assms that by (simp add: segment_fits_def readable_def)
  from this [of "k - unat (take_bit 12 (seg_vaddr sg))"]
  show "segment_page m' header sg k = segment_page m header sg k"
    unfolding segment_page_def Let_def by (metis less_diff_conv2 add.commute)
qed

lemma readable_sub: "readable A a n \<Longrightarrow> k + j \<le> n \<Longrightarrow> readable A (a + of_nat k) j"
proof -
  assume r: "readable A a n" and k: "k + j \<le> n"
  have "upper_half (a + of_nat k + of_nat i) \<and> a + of_nat k + of_nat i \<in> A" if "i < j" for i
    using r [unfolded readable_def, rule_format, of "k + i"] k that by (simp add: add.assoc)
  then show ?thesis by (simp add: readable_def)
qed

lemma readable_vload:
  assumes "readable A a n" "\<And>b. b \<in> A \<Longrightarrow> mem s b = m b"
  shows "vload s a n = Some (load_bytes m a n)"
proof -
  have "vload s a n = Some (load_bytes (mem s) a n)"
    by (rule vload_upper) (use assms(1) in \<open>simp add: readable_def\<close>)
  also have "load_bytes (mem s) a n = load_bytes m a n"
    by (rule load_bytes_cong) (use assms in \<open>simp add: readable_def\<close>)
  finally show ?thesis .
qed

lemma segment_fields:
  assumes r: "readable A ph 56" and same: "\<And>b. b \<in> A \<Longrightarrow> mem s b = m b"
  shows "p_type s ph = Some (seg_type (phdr_at m ph))" "p_flags s ph = Some (seg_flags (phdr_at m ph))"
    "p_offset s ph = Some (seg_offset (phdr_at m ph))" "p_vaddr s ph = Some (seg_vaddr (phdr_at m ph))"
    "p_filesz s ph = Some (seg_filesz (phdr_at m ph))" "p_memsz s ph = Some (seg_memsz (phdr_at m ph))"
proof -
  have at: "vload s (ph + of_nat k) j = Some (load_bytes m (ph + of_nat k) j)" if "k + j \<le> 56" for k j
    using readable_vload [OF readable_sub [OF r that] same] .
  show "p_type s ph = Some (seg_type (phdr_at m ph))" using at [of 0 4] by (simp add: p_type_def phdr_at_def)
  show "p_flags s ph = Some (seg_flags (phdr_at m ph))" using at [of 4 4] by (simp add: p_flags_def phdr_at_def)
  show "p_offset s ph = Some (seg_offset (phdr_at m ph))" using at [of 8 8] by (simp add: p_offset_def phdr_at_def)
  show "p_vaddr s ph = Some (seg_vaddr (phdr_at m ph))" using at [of 16 8] by (simp add: p_vaddr_def phdr_at_def)
  show "p_filesz s ph = Some (seg_filesz (phdr_at m ph))" using at [of 32 8] by (simp add: p_filesz_def phdr_at_def)
  show "p_memsz s ph = Some (seg_memsz (phdr_at m ph))" using at [of 40 8] by (simp add: p_memsz_def phdr_at_def)
qed

lemma phdr_at_cong: "readable A ph 56 \<Longrightarrow> (\<And>b. b \<in> A \<Longrightarrow> m' b = m b) \<Longrightarrow> phdr_at m' ph = phdr_at m ph"
proof -
  assume r: "readable A ph 56" and same: "\<And>b. b \<in> A \<Longrightarrow> m' b = m b"
  have "load_bytes m' (ph + of_nat k) j = load_bytes m (ph + of_nat k) j" if "k + j \<le> 56" for k j
    by (rule load_bytes_cong) (use readable_sub [OF r that] same in \<open>simp add: readable_def\<close>)
  from this [of 0 4] this [of 4 4] this [of 8 8] this [of 16 8] this [of 32 8] this [of 40 8]
  show ?thesis by (simp add: phdr_at_def)
qed

section \<open>One segment\<close>

lemma fill_page:
  assumes inv: "vm_inv s (cr3 s) ps" "cr3 s < 2 ^ 52" and fits: "segment_fits A header sg"
    and leaf: "leaf_of s (cr3 s) (seg_vaddr sg) = Some e" and page: "user_page s (cr3 s) (set ps) (seg_vaddr sg) True x (\<lambda>_. 0)"
    and away: "\<And>a. a \<in> A \<Longrightarrow> page_base a \<noteq> pte_frame e + hhdm_base s"
  shows "\<exists>m. vmemcpy (seg_vaddr sg) (header + seg_offset sg) (seg_memsz sg) s = Some (s\<lparr>mem := m\<rparr>) \<and>
    vm_inv (s\<lparr>mem := m\<rparr>) (cr3 s) ps \<and> grown {pte_frame e} (cr3 s) s (s\<lparr>mem := m\<rparr>) \<and>
    (\<forall>va. lower_half va \<longrightarrow> leaf_of (s\<lparr>mem := m\<rparr>) (cr3 s) va = leaf_of s (cr3 s) va) \<and>
    user_page (s\<lparr>mem := m\<rparr>) (cr3 s) (set ps) (seg_vaddr sg) True x (segment_page (mem s) header sg)"
proof -
  note D = vm_invD [OF inv(1)]
  note F = fits [unfolded segment_fits_def readable_def]
  have P: "aligned 12 (pte_frame e + hhdm_base s)" using D(10) by (intro aligned_add) simp_all
  have O: "take_bit 12 (seg_vaddr sg) < 0x1000" by (rule page_base_split(3))
  have e: "pte_user e" "pte_writable e" "pte_no_execute e = (\<not> x)"
    "pte_frame e \<notin> tables_of s (cr3 s) \<union> set ps \<union> {VGA_BUFFER}"
    "\<forall>k<0x1000. mem s (pte_frame e + hhdm_base s + of_nat k) = 0"
    using page leaf by (auto simp: user_page_def)
  then have f: "pte_frame e \<notin> tables_of s (cr3 s) \<union> set ps" by blast
  define m where "m = copied (mem s) (pte_frame e + hhdm_base s + take_bit 12 (seg_vaddr sg)) (header + seg_offset sg) (unat (seg_memsz sg))"
  have "vmemcpy (seg_vaddr sg) (header + seg_offset sg) (seg_memsz sg) s = Some (s\<lparr>mem := m\<rparr>)"
    unfolding m_def by (rule vmemcpy_page [OF inv _ leaf e(2) f]) (use F away in auto)
  moreover have other: "m b = mem s b" if "page_base b \<noteq> pte_frame e + hhdm_base s" for b
    unfolding m_def by (rule copied_other_page [OF P O _ that]) (use F in simp)
  have W: "vm_inv (s\<lparr>mem := m\<rparr>) (cr3 s) ps" "tables_of (s\<lparr>mem := m\<rparr>) (cr3 s) = tables_of s (cr3 s)"
    "\<forall>va. lower_half va \<longrightarrow> leaf_of (s\<lparr>mem := m\<rparr>) (cr3 s) va = leaf_of s (cr3 s) va"
    "grown {pte_frame e} (cr3 s) s (s\<lparr>mem := m\<rparr>)"
    using vm_inv_page_write [OF inv(1) f aligned_pte_frame, of m] other by blast+
  moreover have "m (pte_frame e + hhdm_base s + of_nat k) = segment_page (mem s) header sg k" if "k < 0x1000" for k
    unfolding m_def by (subst copied_page [OF P O _ that]) (use F e(5) that in \<open>auto simp: segment_page_def Let_def\<close>)
  then have "user_page (s\<lparr>mem := m\<rparr>) (cr3 s) (set ps) (seg_vaddr sg) True x (segment_page (mem s) header sg)"
    using W(2,3) F leaf e by (auto simp: user_page_def)
  ultimately show ?thesis by blast
qed

lemma protect_user_page:
  assumes "vm_inv s root ps" "lower_half va" "user_page s root Q va w0 x0 c"
  shows "\<exists>s'. vm_protect root va True w x s = Some (True, s') \<and> vm_inv s' root ps \<and> grown {} root s s' \<and>
    user_page s' root Q va w x c \<and>
    (\<forall>va'. lower_half va' \<and> \<not> same_page va va' \<longrightarrow> leaf_of s' root va' = leaf_of s root va')"
proof -
  obtain e where e: "leaf_of s root va = Some e" "pte_frame e \<notin> tables_of s root \<union> Q \<union> {VGA_BUFFER}"
    "\<forall>k<0x1000. mem s (pte_frame e + hhdm_base s + of_nat k) = c k"
    using assms(3) by (auto simp: user_page_def)
  obtain s' where s': "vm_protect root va True w x s = Some (True, s')" "vm_inv s' root ps" "same_cpu s s'"
    "tables_of s' root = tables_of s root"
    "\<forall>va'. lower_half va' \<longrightarrow> leaf_of s' root va' =
       (if same_page va va' then Some (e\<lparr>pte_no_execute := \<not> x, pte_user := True, pte_writable := w\<rparr>)
        else leaf_of s root va')"
    "\<forall>a. aligned 12 a \<and> a \<notin> tables_of s root \<longrightarrow> page_same (mem s) (mem s') (a + hhdm_base s)"
    using vm_protect_mapped [OF assms(1,2) e(1), where u = True and w = w and x = x] by blast
  have h: "hhdm_base s' = hhdm_base s" using s'(3) by (simp add: same_cpu_def)
  have g: "grown {} root s s'" using s'(3,4,6) by (simp add: grown_def)
  have "page_same (mem s) (mem s') (pte_frame e + hhdm_base s)" using s'(6) e(2) by simp
  then have "mem s' (pte_frame e + hhdm_base s + of_nat k) = c k" if "k < 0x1000" for k
    using e(3) that by (simp add: page_same_def word_less_nat_alt unat_of_nat)
  moreover have "same_page va va" by (simp add: same_page_def)
  ultimately have "user_page s' root Q va w x c"
    using s'(4,5) assms(2) e(2) by (auto simp: user_page_def h pte_frame_def)
  then show ?thesis using s'(1,2,5) g by auto
qed

text \<open>What \<open>load_segment\<close> does to the address space when the segment fits in its page.\<close>

definition seg_writable :: "segment \<Rightarrow> bool" where "seg_writable sg \<longleftrightarrow> 0 < seg_flags sg AND PF_W"
definition seg_executable :: "segment \<Rightarrow> bool" where "seg_executable sg \<longleftrightarrow> 0 < seg_flags sg AND PF_X"

definition segment_loaded :: "'a kmem_scheme \<Rightarrow> u64 \<Rightarrow> u64 set \<Rightarrow> mem \<Rightarrow> u64 \<Rightarrow> segment \<Rightarrow> bool" where
  "segment_loaded s root Q m header sg \<longleftrightarrow>
     user_page s root Q (seg_vaddr sg) (seg_writable sg) (seg_executable sg) (segment_page m header sg)"

lemma load_segment_loads:
  assumes inv: "vm_inv s root ps" "cr3 s = root" "root < 2 ^ 52" and A: "safe s root (set ps) A"
    and sg: "readable A ph 56" "sg = phdr_at (mem s) ph" "loadable sg" "segment_fits A header sg"
    and none: "leaf_of s root (seg_vaddr sg) = None" and room: "4 \<le> length ps"
  shows "\<exists>s' n. load_segment root header ph s = Some s' \<and> n \<le> 4 \<and> vm_inv s' root (drop n ps) \<and>
    grown (set ps) root s s' \<and> segment_loaded s' root (set (drop n ps)) (mem s) header sg \<and>
    (\<forall>va. lower_half va \<and> \<not> same_page (seg_vaddr sg) va \<longrightarrow> leaf_of s' root va = leaf_of s root va)"
proof -
  let ?va = "seg_vaddr sg"
  have low: "lower_half ?va" using sg(4) by (simp add: segment_fits_def)
  have al: "aligned 12 (hhdm_base s)" using vm_invD(10) [OF inv(1)] .
  obtain s1 n e where s1: "vm_map root ?va True True False s = Some (True, s1)" "n \<le> 4" "vm_inv s1 root (drop n ps)"
    "grown (set ps) root s s1" "user_page s1 root (set (drop n ps)) ?va True False (\<lambda>_. 0)"
    "leaf_of s1 root ?va = Some e" "pte_frame e \<in> set ps"
    "\<forall>va'. lower_half va' \<and> \<not> same_page ?va va' \<longrightarrow> leaf_of s1 root va' = leaf_of s root va'"
    using map_user_page [OF inv(1) low none room] by blast
  have c1: "cr3 s1 = root" "hhdm_base s1 = hhdm_base s" using s1(4) inv(2) by (simp_all add: grown_def same_cpu_def)
  have sub: "set (drop n ps) \<subseteq> set ps" by (rule set_drop_subset)
  have away: "page_base a \<noteq> pte_frame e + hhdm_base s1" if "a \<in> A" for a
    using A that s1(7) c1(2) by (auto simp: safe_def)
  obtain m where m: "vmemcpy ?va (header + seg_offset sg) (seg_memsz sg) s1 = Some (s1\<lparr>mem := m\<rparr>)"
    "vm_inv (s1\<lparr>mem := m\<rparr>) root (drop n ps)" "grown {pte_frame e} root s1 (s1\<lparr>mem := m\<rparr>)"
    "\<forall>va. lower_half va \<longrightarrow> leaf_of (s1\<lparr>mem := m\<rparr>) root va = leaf_of s1 root va"
    "user_page (s1\<lparr>mem := m\<rparr>) root (set (drop n ps)) ?va True False (segment_page (mem s1) header sg)"
    using fill_page [OF _ _ sg(4) _ _ away, of "drop n ps" False] s1 c1 inv(3) by auto
  let ?s2 = "s1\<lparr>mem := m\<rparr>"
  have g2: "grown (set ps) root s ?s2"
    using grown_trans [OF s1(4) grown_mono [OF m(3)]] s1(7) by simp
  have c2: "cr3 ?s2 = root" using c1 by simp
  obtain s3 where s3: "vm_protect root ?va True (seg_writable sg) (seg_executable sg) ?s2 = Some (True, s3)"
    "vm_inv s3 root (drop n ps)" "grown {} root ?s2 s3"
    "user_page s3 root (set (drop n ps)) ?va (seg_writable sg) (seg_executable sg) (segment_page (mem s1) header sg)"
    "\<forall>va'. lower_half va' \<and> \<not> same_page ?va va' \<longrightarrow> leaf_of s3 root va' = leaf_of ?s2 root va'"
    using protect_user_page [OF m(2) low m(5)] by blast
  note same1 = safe_grown(2) [OF A s1(4) al] and same2 = safe_grown(2) [OF A g2 al]
  note F = segment_fields [OF sg(1) refl, of s, folded sg(2)]
    segment_fields [OF sg(1) same1, folded sg(2)] segment_fields [OF sg(1) same2, folded sg(2)]
  have nz: "seg_filesz sg \<noteq> 0" using sg(3) by auto
  have "load_segment root header ph s = Some s3"
    using sg(3) s1(1) m(1) s3(1) nz c2
    by (simp add: load_segment_def F read_cr3_def seg_writable_def seg_executable_def)
  moreover have "segment_page (mem s1) header sg = segment_page (mem s) header sg"
    by (rule segment_page_cong [OF sg(4)]) (rule same1)
  then have "segment_loaded s3 root (set (drop n ps)) (mem s) header sg" using s3(4) by (simp add: segment_loaded_def)
  moreover have "grown (set ps) root s s3"
    using grown_trans [OF g2 grown_mono [OF s3(3)]] by simp
  ultimately show ?thesis using s1(2,8) s3(2,5) m(4) by (intro exI [of _ s3] exI [of _ n]) auto
qed

lemma load_segment_skips:
  assumes "readable A ph 56" "\<not> loadable (phdr_at (mem s) ph)"
  shows "load_segment root header ph s = Some s"
  using assms(2) segment_fields [OF assms(1) refl, of s] by (auto simp: load_segment_def)

section \<open>Sequences of loading steps\<close>

text \<open>\<open>s'\<close> came from \<open>s\<close> by mapping the pages \<open>V\<close> and nothing else, with at most \<open>n\<close> free pages.\<close>

definition extended :: "u64 \<Rightarrow> u64 set \<Rightarrow> nat \<Rightarrow> u64 list \<Rightarrow> 'a kmem_scheme \<Rightarrow> u64 list \<Rightarrow> 'a kmem_scheme \<Rightarrow> bool" where
  "extended root V n ps s qs s' \<longleftrightarrow> (\<exists>k\<le>n. qs = drop k ps) \<and> vm_inv s' root qs \<and> grown (set ps) root s s' \<and>
     (\<forall>va. lower_half va \<and> (\<forall>v \<in> V. \<not> same_page v va) \<longrightarrow> leaf_of s' root va = leaf_of s root va)"

lemma extended_refl: "vm_inv s root ps \<Longrightarrow> extended root {} 0 ps s ps s"
  by (simp add: extended_def)

lemma extended_trans:
  assumes "extended root V n ps s qs s1" "extended root W k qs s1 rs s2"
  shows "extended root (V \<union> W) (n + k) ps s rs s2"
proof -
  note E = assms [unfolded extended_def]
  obtain i j where ij: "i \<le> n" "qs = drop i ps" "j \<le> k" "rs = drop j qs" using E by blast
  then have "rs = drop (j + i) ps" "j + i \<le> n + k" by simp_all
  moreover have "set qs \<subseteq> set ps" unfolding ij(2) by (rule set_drop_subset)
  then have "grown (set ps) root s s2" using E grown_trans grown_mono by blast
  ultimately show ?thesis using E unfolding extended_def by auto
qed

lemma extendedD:
  assumes "extended root V n ps s qs s'"
  shows "cr3 s' = cr3 s" "hhdm_base s' = hhdm_base s" "kmem.more s' = kmem.more s" "vm_inv s' root qs"
    "set qs \<subseteq> set ps" "length ps \<le> length qs + n" "grown (set ps) root s s'"
    "safe s root (set ps) A \<Longrightarrow> safe s' root (set qs) A"
    "safe s root (set ps) A \<Longrightarrow> a \<in> A \<Longrightarrow> mem s' a = mem s a"
proof -
  note E = assms [unfolded extended_def]
  show c: "cr3 s' = cr3 s" "hhdm_base s' = hhdm_base s" "kmem.more s' = kmem.more s" "vm_inv s' root qs"
    "grown (set ps) root s s'"
    using E unfolding grown_def same_cpu_def by blast+
  show sub: "set qs \<subseteq> set ps" "length ps \<le> length qs + n" using E set_drop_subset by (fastforce, auto)
  have al: "aligned 12 (hhdm_base s)" using vm_invD(10) [OF c(4)] c(2) by simp
  assume A: "safe s root (set ps) A"
  have "safe s' root (set ps) A" by (rule safe_grown(1) [OF A c(5) al])
  then show "safe s' root (set qs) A" using sub(1) by (auto simp: safe_def)
  show "a \<in> A \<Longrightarrow> mem s' a = mem s a" by (rule safe_grown(2) [OF A c(5) al])
qed

lemma extended_keeps:
  assumes "extended root V n ps s qs s'" "user_page s root (set ps) va w x c" "lower_half va" "\<forall>v \<in> V. \<not> same_page v va"
  shows "user_page s' root (set qs) va w x c"
  using user_page_grown [OF assms(2) extendedD(7) [OF assms(1)] _ _ extendedD(5) [OF assms(1)]] assms
  by (auto simp: extended_def)

lemma extended_unmapped:
  "extended root V n ps s qs s' \<Longrightarrow> leaf_of s root va = None \<Longrightarrow> lower_half va \<Longrightarrow> \<forall>v \<in> V. \<not> same_page v va \<Longrightarrow>
   leaf_of s' root va = None"
  by (simp add: extended_def)

lemma load_segment_extends:
  assumes "vm_inv s root ps" "cr3 s = root" "root < 2 ^ 52" "safe s root (set ps) A"
    and "readable A ph 56" "sg = phdr_at (mem s) ph" "loadable sg \<Longrightarrow> segment_fits A header sg"
    and "loadable sg \<Longrightarrow> leaf_of s root (seg_vaddr sg) = None" "loadable sg \<Longrightarrow> 4 \<le> length ps"
  shows "\<exists>s' qs. load_segment root header ph s = Some s' \<and>
    extended root (if loadable sg then {seg_vaddr sg} else {}) (if loadable sg then 4 else 0) ps s qs s' \<and>
    (loadable sg \<longrightarrow> segment_loaded s' root (set qs) (mem s) header sg)"
proof (cases "loadable sg")
  case True
  then show ?thesis
    using load_segment_loads [OF assms(1-6) True assms(7) assms(8) assms(9)] by (fastforce simp: extended_def)
next
  case False
  then show ?thesis
    using load_segment_skips [OF assms(5)] assms(6) extended_refl [OF assms(1)] by (intro exI [of _ s] exI [of _ ps]) auto
qed

section \<open>The program header table\<close>

primrec segments :: "mem \<Rightarrow> u64 \<Rightarrow> nat \<Rightarrow> segment list" where
  "segments m ph 0 = []"
| "segments m ph (Suc n) = phdr_at m ph # segments m (ph + 56) n"

definition load_addrs :: "segment list \<Rightarrow> u64 list" where
  "load_addrs sgs = map seg_vaddr (filter (\<lambda>sg. loadable sg) sgs)"

lemma load_addrs_simps [simp]:
  "load_addrs [] = []"
  "load_addrs (sg # sgs) = (if loadable sg then [seg_vaddr sg] else []) @ load_addrs sgs"
  by (simp_all add: load_addrs_def)

lemma load_addrs_mem: "sg \<in> set sgs \<Longrightarrow> loadable sg \<Longrightarrow> seg_vaddr sg \<in> set (load_addrs sgs)"
  by (simp add: load_addrs_def)

text \<open>Addresses to be mapped: different pages, none mapped yet.\<close>

definition fresh :: "'a kmem_scheme \<Rightarrow> u64 \<Rightarrow> u64 list \<Rightarrow> bool" where
  "fresh s root vas \<longleftrightarrow> sorted_wrt (\<lambda>a b. \<not> same_page a b) vas \<and>
     (\<forall>va \<in> set vas. lower_half va \<and> leaf_of s root va = None)"

lemma fresh_extended:
  assumes "fresh s root (us @ vs)" "extended root (set us) n ps s qs s'"
  shows "fresh s' root vs"
proof -
  have F: "sorted_wrt (\<lambda>a b. \<not> same_page a b) vs" "\<forall>u \<in> set us. \<forall>v \<in> set vs. \<not> same_page u v"
    "\<forall>v \<in> set vs. lower_half v \<and> leaf_of s root v = None"
    using assms(1) by (auto simp: fresh_def sorted_wrt_append)
  then have "leaf_of s' root v = None" if "v \<in> set vs" for v
    using extended_unmapped [OF assms(2)] that by blast
  then show ?thesis using F by (simp add: fresh_def)
qed

definition phnum :: "mem \<Rightarrow> u64 \<Rightarrow> u16" where
  "phnum m header = ucast (load_bytes m (header + 56) 2)"

lemma load_segments_extends:
  assumes root: "root < 2 ^ 52" and hd: "readable A (header + 56) 2"
  shows "vm_inv s root ps \<Longrightarrow> cr3 s = root \<Longrightarrow> safe s root (set ps) A \<Longrightarrow> \<forall>b \<in> A. mem s b = m b \<Longrightarrow>
    readable A ph (56 * k) \<Longrightarrow> unat i + k = unat (phnum m header) \<Longrightarrow>
    \<forall>sg \<in> set (segments m ph k). loadable sg \<longrightarrow> segment_fits A header sg \<Longrightarrow>
    fresh s root (load_addrs (segments m ph k)) \<Longrightarrow> 4 * length (load_addrs (segments m ph k)) \<le> length ps \<Longrightarrow>
    \<exists>s' qs. load_segments root header ph i s = Some s' \<and>
      extended root (set (load_addrs (segments m ph k))) (4 * length (load_addrs (segments m ph k))) ps s qs s' \<and>
      (\<forall>sg \<in> set (segments m ph k). loadable sg \<longrightarrow> segment_loaded s' root (set qs) m header sg)"
proof (induction k arbitrary: ph i s ps)
  case 0
  have n: "e_phnum s header = Some (load_bytes m (header + 56) 2)"
    unfolding e_phnum_def by (rule readable_vload [OF hd]) (use 0(4) in blast)
  show ?case
    using 0 extended_refl [OF 0(1)] by (subst load_segments.simps) (auto simp: n phnum_def word_less_nat_alt)
next
  case (Suc k)
  have same: "b \<in> A \<Longrightarrow> mem s b = m b" for b using Suc.prems(4) by blast
  have n: "e_phnum s header = Some (load_bytes m (header + 56) 2)"
    unfolding e_phnum_def by (rule readable_vload [OF hd same])
  let ?sg = "phdr_at m ph"
  have r: "readable A ph 56" "readable A (ph + 56) (56 * k)"
    using readable_sub [OF Suc.prems(5), of 0 56] readable_sub [OF Suc.prems(5), of 56 "56 * k"] by simp_all
  have sg: "phdr_at (mem s) ph = ?sg" by (rule phdr_at_cong [OF r(1) same])
  have F: "loadable ?sg \<Longrightarrow> segment_fits A header ?sg" "loadable ?sg \<Longrightarrow> leaf_of s root (seg_vaddr ?sg) = None"
    "loadable ?sg \<Longrightarrow> 4 \<le> length ps" "loadable ?sg \<Longrightarrow> lower_half (seg_vaddr ?sg)"
    using Suc.prems(7-9) by (auto simp: fresh_def)
  obtain s1 qs where s1: "load_segment root header ph s = Some s1"
    "extended root (if loadable ?sg then {seg_vaddr ?sg} else {}) (if loadable ?sg then 4 else 0) ps s qs s1"
    "loadable ?sg \<longrightarrow> segment_loaded s1 root (set qs) (mem s) header ?sg"
    using load_segment_extends [OF Suc.prems(1,2) root Suc.prems(3) r(1) sg [symmetric] F(1-3)] by blast
  note E = extendedD [OF s1(2)]
  have m1: "\<forall>b \<in> A. mem s1 b = m b" using E(9) [OF Suc.prems(3)] same by simp
  have c1: "cr3 s1 = root" "4 * length (load_addrs (segments m (ph + 56) k)) \<le> length qs"
    "\<forall>sg \<in> set (segments m (ph + 56) k). loadable sg \<longrightarrow> segment_fits A header sg"
    using E(1,6) Suc.prems(2,7,9) by (auto split: if_splits)
  have i: "unat (i + 1) + k = unat (phnum m header)" "i < phnum m header"
    using Suc.prems(6) unat_inc [of i "phnum m header"] by (simp_all add: word_less_nat_alt)
  have fr: "fresh s1 root (load_addrs (segments m (ph + 56) k))"
    by (rule fresh_extended [where us = "if loadable ?sg then [seg_vaddr ?sg] else []" and n = "if loadable ?sg then 4 else 0"])
      (use Suc.prems(8) s1(2) in \<open>auto split: if_splits\<close>)
  obtain s2 rs where s2: "load_segments root header (ph + 56) (i + 1) s1 = Some s2"
    "extended root (set (load_addrs (segments m (ph + 56) k))) (4 * length (load_addrs (segments m (ph + 56) k))) qs s1 rs s2"
    "\<forall>sg \<in> set (segments m (ph + 56) k). loadable sg \<longrightarrow> segment_loaded s2 root (set rs) m header sg"
    using Suc.IH [OF E(4) c1(1) E(8) [OF Suc.prems(3)] m1 r(2) i(1) c1(3) fr c1(2)] by blast
  have "segment_loaded s2 root (set rs) m header ?sg" if "loadable ?sg"
  proof -
    have "segment_page (mem s) header ?sg = segment_page m header ?sg"
      by (rule segment_page_cong [OF F(1) [OF that] same])
    then show ?thesis
      using extended_keeps [OF s2(2)] s1(3) that F(4) Suc.prems(8) same_page_sym
      by (simp add: segment_loaded_def fresh_def)
  qed
  moreover have "load_segments root header ph i s = Some s2"
    using i(2) by (subst load_segments.simps) (simp add: n s1(1) s2(1) flip: phnum_def)
  moreover note extended_trans [OF s1(2) s2(2)]
  ultimately show ?case using s2(3) by (auto split: if_splits)
qed

section \<open>The stack\<close>

primrec page_addrs :: "u64 \<Rightarrow> nat \<Rightarrow> u64 list" where
  "page_addrs p 0 = []"
| "page_addrs p (Suc n) = p # page_addrs (p + 0x1000) n"

lemma map_stack_extends:
  "vm_inv s root ps \<Longrightarrow> cr3 s = root \<Longrightarrow> unat p + n * 0x1000 < 2 ^ 64 \<Longrightarrow> limit = p + of_nat n * 0x1000 \<Longrightarrow>
   fresh s root (page_addrs p n) \<Longrightarrow> 4 * n \<le> length ps \<Longrightarrow>
   \<exists>s' qs. map_stack p limit s = Some s' \<and> extended root (set (page_addrs p n)) (4 * n) ps s qs s' \<and>
     (\<forall>va \<in> set (page_addrs p n). user_page s' root (set qs) va True False (\<lambda>_. 0))"
proof (induction n arbitrary: p s ps)
  case 0
  then show ?case using extended_refl [OF 0(1)] by (subst map_stack.simps) auto
next
  case (Suc n)
  have none: "leaf_of s root p = None" "lower_half p" using Suc.prems(5) by (auto simp: fresh_def)
  have room: "4 \<le> length ps" using Suc.prems(6) by simp
  obtain s1 k where s1: "vm_map root p True True False s = Some (True, s1)" "k \<le> 4" "vm_inv s1 root (drop k ps)"
    "grown (set ps) root s s1" "user_page s1 root (set (drop k ps)) p True False (\<lambda>_. 0)"
    "\<forall>va'. lower_half va' \<and> \<not> same_page p va' \<longrightarrow> leaf_of s1 root va' = leaf_of s root va'"
    using map_user_page [OF Suc.prems(1) none(2,1) room] by blast
  have E: "extended root {p} 4 ps s (drop k ps) s1" using s1 by (auto simp: extended_def)
  note D = extendedD [OF E]
  have limit: "limit = p + 0x1000 + of_nat n * 0x1000" using Suc.prems(4) by (simp add: algebra_simps)
  have up: "unat (p + 0x1000) = unat p + 0x1000" using Suc.prems(3) by (simp add: unat_word_ariths)
  have "unat limit = unat p + Suc n * 0x1000"
    using Suc.prems(3,4) by (simp add: unat_word_ariths unat_of_nat)
  then have lt: "p < limit" by (simp add: word_less_nat_alt)
  have fr: "fresh s1 root (page_addrs (p + 0x1000) n)"
    by (rule fresh_extended [of s root "[p]"]) (use Suc.prems(5) E in auto)
  have c: "cr3 s1 = root" "unat (p + 0x1000) + n * 0x1000 < 2 ^ 64" "4 * n \<le> length (drop k ps)"
    using D(1,6) Suc.prems(2,3,6) up by simp_all
  obtain s2 qs where s2: "map_stack (p + 0x1000) limit s1 = Some s2"
    "extended root (set (page_addrs (p + 0x1000) n)) (4 * n) (drop k ps) s1 qs s2"
    "\<forall>va \<in> set (page_addrs (p + 0x1000) n). user_page s2 root (set qs) va True False (\<lambda>_. 0)"
    using Suc.IH [OF s1(3) c(1,2) limit fr c(3)] by blast
  have "user_page s2 root (set qs) p True False (\<lambda>_. 0)"
    by (rule extended_keeps [OF s2(2) s1(5) none(2)]) (use Suc.prems(5) same_page_sym in \<open>auto simp: fresh_def\<close>)
  moreover have "map_stack p limit s = Some s2"
    using s1(1) s2(1) lt Suc.prems(2) cr3_mask [OF vm_invD(11) [OF Suc.prems(1)]]
    by (subst map_stack.simps) (simp add: read_cr3_def)
  moreover note extended_trans [OF E s2(2)]
  ultimately show ?case using s2(3) by auto
qed

section \<open>What the program sees\<close>

text \<open>The 4096 bytes of the page of \<open>va\<close> as the processor translates them in user mode.\<close>

definition user_sees :: "'a kmem_scheme \<Rightarrow> u64 \<Rightarrow> bool \<Rightarrow> bool \<Rightarrow> (nat \<Rightarrow> u8) \<Rightarrow> bool" where
  "user_sees s va w x c \<longleftrightarrow> (\<forall>k<0x1000. \<exists>t. mmu_translate s (page_base va + of_nat k) = Some t \<and>
     tr_user t \<and> tr_writable t = w \<and> tr_executable t = x \<and> mem s (ptov s (tr_phys t)) = c k)"

lemma mmu_translate_leaf:
  assumes "vm_inv s (cr3 s) ps" "cr3 s < 2 ^ 52" "lower_half a"
  shows "mmu_translate s a = map_option (\<lambda>e. \<lparr>tr_phys = pte_frame e + take_bit 12 a, tr_user = pte_user e,
    tr_writable = pte_writable e, tr_executable = \<not> pte_no_execute e\<rparr>) (leaf_of s (cr3 s) a)"
  using mmu_leaf [OF vm_invD(3) [OF assms(1)] assms(3)] cr3_root [OF vm_invD(11) [OF assms(1)] assms(2)]
  by (simp add: mmu_translate_def page_offset)

lemma user_page_seen:
  assumes "vm_inv s (cr3 s) ps" "cr3 s < 2 ^ 52" "lower_half va" "user_page s (cr3 s) Q va w x c"
  shows "user_sees s va w x c"
  unfolding user_sees_def
proof (intro allI impI)
  fix k :: nat assume k: "k < 0x1000"
  let ?a = "page_base va + of_nat k"
  have base: "take_bit 12 (page_base va) = 0" using page_base_split(2) by (simp add: aligned_def)
  note W = within_page [of "page_base va" k, unfolded base]
  note V = within_page [of "page_base va" "unat (take_bit 12 va)", unfolded base]
  have o: "page_base va + of_nat (unat (take_bit 12 va)) = va" using page_base_split(1) [of va] by simp
  have lt: "unat (take_bit 12 va) < 0x1000" using page_base_split(3) [of va] by (simp add: word_less_nat_alt)
  have "lower_half ?a" "same_page va ?a"
    using W(4,5) V(4,5) k lt assms(3) unfolding o by (auto simp: same_page_def)
  then have "mmu_translate s ?a = map_option (\<lambda>e. \<lparr>tr_phys = pte_frame e + take_bit 12 ?a, tr_user = pte_user e,
      tr_writable = pte_writable e, tr_executable = \<not> pte_no_execute e\<rparr>) (leaf_of s (cr3 s) va)"
    using mmu_translate_leaf [OF assms(1,2), of ?a] leaf_same_page [of va ?a] by simp
  then have T: "mmu_translate s ?a = map_option (\<lambda>e. \<lparr>tr_phys = pte_frame e + of_nat k, tr_user = pte_user e,
      tr_writable = pte_writable e, tr_executable = \<not> pte_no_execute e\<rparr>) (leaf_of s (cr3 s) va)"
    using W(2) k by simp
  obtain e where e: "leaf_of s (cr3 s) va = Some e" "pte_user e" "pte_writable e = w" "pte_no_execute e = (\<not> x)"
    "mem s (pte_frame e + hhdm_base s + of_nat k) = c k" using assms(4) k by (auto simp: user_page_def)
  have "mem s (pte_frame e + of_nat k + hhdm_base s) = c k" using e(5) by (simp only: ac_simps)
  then show "\<exists>t. mmu_translate s ?a = Some t \<and> tr_user t \<and> tr_writable t = w \<and> tr_executable t = x \<and> mem s (ptov s (tr_phys t)) = c k"
    unfolding T e(1) ptov_def using e by simp
qed

section \<open>The whole call\<close>

definition elf_file :: "u64 set \<Rightarrow> mem \<Rightarrow> u64 \<Rightarrow> segment list \<Rightarrow> bool" where
  "elf_file A m header sgs \<longleftrightarrow> readable A header 64 \<and>
     sgs = segments m (header + load_bytes m (header + 32) 8) (unat (phnum m header)) \<and>
     readable A (header + load_bytes m (header + 32) 8) (56 * length sgs) \<and>
     (\<forall>sg \<in> set sgs. loadable sg \<longrightarrow> segment_fits A header sg)"

lemma length_segments [simp]: "length (segments m ph n) = n"
  by (induction n arbitrary: ph) simp_all

lemma no_tables:
  assumes "\<And>va. lower_half va \<Longrightarrow> pt_missing m h root va = 4"
  shows "pt_tables m h root = {root}"
proof -
  have "pt_base m h root va (Suc d) = None" if "lower_half va" for va d
  proof -
    have "length (filter (\<lambda>d. pt_base m h root va d = None) [1, 2, 3, 4]) = length [1, 2, 3, 4 :: nat]"
      using assms [OF that] by (simp add: pt_missing_def)
    then have "\<forall>d \<in> set [1, 2, 3, 4]. pt_base m h root va d = None"
      using length_filter_less by (metis (mono_tags, lifting) less_irrefl)
    then have "pt_base m h root va 1 = None" by simp
    then show ?thesis by (rule pt_base_None_mono) simp
  qed
  then have "d = 0" if "lower_half va" "pt_base m h root va d = Some t" for va d t
    using that by (cases d) auto
  then show ?thesis using root_in_tables by (fastforce simp: pt_tables_def)
qed

text \<open>The address space that \<open>exec_setup\<close> starts from: only the root table, everything else free.\<close>

lemma exec_ready_fresh:
  assumes "exec_ready s ps A l ms"
  defines "s1 \<equiv> unmap_lower_half (read_cr3 s) s"
  shows "\<exists>qs. vm_inv s1 (cr3 s) (qs @ ps) \<and> safe s1 (cr3 s) (set (qs @ ps)) A" "\<forall>a \<in> A. mem s1 a = mem s a"
    "cr3 s1 = cr3 s"
proof -
  note R = assms(1) [unfolded exec_ready_def]
  have U: "\<exists>qs. vm_inv s1 (cr3 s) (qs @ ps) \<and> set qs = tables_of s (cr3 s) - {cr3 s}"
    "\<And>va. lower_half va \<Longrightarrow> leaf_of s1 (cr3 s) va = None \<and> missing_of s1 (cr3 s) va = 4"
    "\<And>a. a \<in> A \<Longrightarrow> mem s1 a = mem s a" "hhdm_base s1 = hhdm_base s" "cr3 s1 = cr3 s"
    using unmapped [of s "cr3 s" ps A] R by (simp_all add: s1_def read_cr3_def)
  have "tables_of s1 (cr3 s) = {cr3 s}" by (rule no_tables) (use U(2) in blast)
  moreover obtain qs where qs: "vm_inv s1 (cr3 s) (qs @ ps)" "set qs = tables_of s (cr3 s) - {cr3 s}" using U(1) by blast
  moreover have "cr3 s \<in> tables_of s (cr3 s)" by (rule root_in_tables)
  ultimately have "safe s1 (cr3 s) (set (qs @ ps)) A"
    using R U(4) by (auto simp: safe_def apart_def)
  then show "\<exists>qs. vm_inv s1 (cr3 s) (qs @ ps) \<and> safe s1 (cr3 s) (set (qs @ ps)) A" using qs(1) by blast
  show "\<forall>a \<in> A. mem s1 a = mem s a" "cr3 s1 = cr3 s" using U by blast+
qed

lemma page_addrs_8:
  "page_addrs p 8 = [p, p + 0x1000, p + 0x2000, p + 0x3000, p + 0x4000, p + 0x5000, p + 0x6000, p + 0x7000]"
  by (simp add: eval_nat_numeral add.assoc)

lemma stack_pages: "\<forall>va \<in> set (page_addrs user_stack 8). lower_half va"
  by (simp add: lower_half_def page_addrs_8 drop_bit_eq_div)

text \<open>The page addresses a program occupies: its segments and the eight pages of the stack.\<close>

abbreviation program_pages :: "segment list \<Rightarrow> u64 list" where
  "program_pages sgs \<equiv> load_addrs sgs @ page_addrs user_stack 8"

lemma load_program:
  assumes inv: "vm_inv s root ps" "cr3 s = root" "root < 2 ^ 52" and A: "safe s root (set ps) A"
    and same: "\<forall>a \<in> A. mem s a = m a" and elf: "elf_file A m header sgs"
    and fr: "fresh s root (program_pages sgs)" and room: "4 * (length (load_addrs sgs) + 8) \<le> length ps"
  shows "\<exists>s1 s2 rs. load_segments root header (header + load_bytes m (header + 32) 8) 0 s = Some s1 \<and>
    map_stack user_stack (user_stack + user_stack_size) s1 = Some s2 \<and>
    e_entry s2 header = Some (load_bytes m (header + 24) 8) \<and>
    extended root (set (program_pages sgs)) (4 * (length (load_addrs sgs) + 8)) ps s rs s2 \<and>
    (\<forall>sg \<in> set sgs. loadable sg \<longrightarrow> segment_loaded s2 root (set rs) m header sg) \<and>
    (\<forall>va \<in> set (page_addrs user_stack 8). user_page s2 root (set rs) va True False (\<lambda>_. 0))"
proof -
  let ?ph = "header + load_bytes m (header + 32) 8"
  have hd: "readable A (header + 56) 2" "readable A (header + 24) 8" "readable A ?ph (56 * unat (phnum m header))"
    and sgs: "segments m ?ph (unat (phnum m header)) = sgs" and fits: "\<forall>sg \<in> set sgs. loadable sg \<longrightarrow> segment_fits A header sg"
    using elf readable_sub [of A header 64 56 2] readable_sub [of A header 64 24 8] by (auto simp: elf_file_def)
  have fr1: "fresh s root (load_addrs sgs)" using fr by (auto simp: fresh_def sorted_wrt_append)
  have room1: "4 * length (load_addrs sgs) \<le> length ps" using room by simp
  obtain s1 qs where s1: "load_segments root header ?ph 0 s = Some s1"
    "extended root (set (load_addrs sgs)) (4 * length (load_addrs sgs)) ps s qs s1"
    "\<forall>sg \<in> set sgs. loadable sg \<longrightarrow> segment_loaded s1 root (set qs) m header sg"
    using load_segments_extends [OF inv(3) hd(1) inv(1,2) A same hd(3), of 0, unfolded sgs] fits fr1 room1 by auto
  note E = extendedD [OF s1(2)]
  have fr2: "fresh s1 root (page_addrs user_stack 8)" by (rule fresh_extended [OF fr s1(2)])
  have c: "cr3 s1 = root" "4 * 8 \<le> length qs" using E(1,6) inv(2) room by simp_all
  obtain s2 rs where s2: "map_stack user_stack (user_stack + user_stack_size) s1 = Some s2"
    "extended root (set (page_addrs user_stack 8)) (4 * 8) qs s1 rs s2"
    "\<forall>va \<in> set (page_addrs user_stack 8). user_page s2 root (set rs) va True False (\<lambda>_. 0)"
    using map_stack_extends [OF E(4) c(1) _ _ fr2 c(2), of "user_stack + user_stack_size"] by auto
  have m2: "mem s2 a = m a" if "a \<in> A" for a
    using extendedD(9) [OF s2(2) E(8) [OF A] that] E(9) [OF A that] same that by simp
  have "e_entry s2 header = Some (load_bytes m (header + 24) 8)"
    unfolding e_entry_def by (rule readable_vload [OF hd(2) m2])
  moreover have "segment_loaded s2 root (set rs) m header sg" if sg: "sg \<in> set sgs" "loadable sg" for sg
  proof -
    have "\<forall>v \<in> set (page_addrs user_stack 8). \<not> same_page v (seg_vaddr sg)" "lower_half (seg_vaddr sg)"
      using fr load_addrs_mem [OF sg] same_page_sym by (auto simp: fresh_def sorted_wrt_append)
    then show ?thesis
      using extended_keeps [OF s2(2)] s1(3) sg by (simp add: segment_loaded_def)
  qed
  moreover have "extended root (set (program_pages sgs)) (4 * (length (load_addrs sgs) + 8)) ps s rs s2"
    using extended_trans [OF s1(2) s2(2)] by simp
  ultimately show ?thesis using s1(1) s2(1,3) by blast
qed

end
