(* ===== verification/ExecStart.thy ===== *)
theory ExecStart
  imports Loader
begin

text \<open>
  \<open>exec_setup\<close> of a module that exists: the program is in memory as its ELF file says and runs
  in user mode. The example is a machine with 36 free pages whose module \<open>init\<close> has one
  segment.
\<close>

section \<open>A segment that leaves its page\<close>

lemma next_page:
  assumes "lower_half va" "lower_half nxt" "nxt = page_base va + 0x1000"
  shows "\<not> same_page va nxt"
proof
  assume "same_page va nxt"
  have small: "take_bit 36 (drop_bit 12 a) = drop_bit 12 a" if "lower_half a" for a
  proof -
    have "unat a div 2 ^ 47 = 0" using that by (simp add: lower_half_def drop_bit_eq_div word_unat_eq_iff unat_div)
    then have "unat a < 2 ^ 47" by (simp add: div_eq_0_iff)
    then have "drop_bit 12 a < 2 ^ 36" by (simp add: word_less_nat_alt drop_bit_eq_div unat_div)
    then show ?thesis by (intro take_bit_less_self) simp_all
  qed
  have "drop_bit 12 va = drop_bit 12 nxt"
    using \<open>same_page va nxt\<close> small assms(1,2) by (simp add: same_page_def)
  then have "page_base va = page_base nxt" by (simp add: page_base_def)
  moreover have "aligned 12 nxt" unfolding assms(3)
    by (intro aligned_add page_base_split(2)) (simp add: word_aligned_12)
  then have "page_base nxt = nxt" using page_base_aligned_add [of nxt 0] by simp
  ultimately show False using assms(3) by simp
qed

lemma vaddr_unmapped:
  "vm_inv s (cr3 s) ps \<Longrightarrow> cr3 s < 2 ^ 52 \<Longrightarrow> lower_half a \<Longrightarrow> leaf_of s (cr3 s) a = None \<Longrightarrow> vaddr s w a = None"
  by (simp add: vaddr_def mmu_translate_leaf) (simp add: lower_half_def upper_half_def)

lemma vmemcpy_spills:
  assumes inv: "vm_inv s (cr3 s) ps" "cr3 s < 2 ^ 52" and low: "lower_half va" and leaf: "leaf_of s (cr3 s) va = Some e"
    and w: "pte_writable e" and f: "pte_frame e \<notin> tables_of s (cr3 s) \<union> set ps"
    and n: "unat (take_bit 12 va) + n = 0x1000" "n < unat N"
    and src: "\<And>i. i < n \<Longrightarrow> upper_half (src + of_nat i) \<and> page_base (src + of_nat i) \<noteq> pte_frame e + hhdm_base s"
    and nxt: "lower_half (va + of_nat n)" "leaf_of s (cr3 s) (va + of_nat n) = None"
  shows "vmemcpy va src N s = None"
proof -
  let ?m = "copied (mem s) (pte_frame e + hhdm_base s + take_bit 12 va) src n"
  have P: "aligned 12 (pte_frame e + hhdm_base s)" using vm_invD(10) [OF inv(1)] by (intro aligned_add) simp_all
  have O: "take_bit 12 va < 0x1000" by (rule page_base_split(3))
  have z: "copied (mem s) d src 0 = mem s" for d by (simp add: copied_def)
  have run: "vmemcpy va src N s = vmemcpy_loop (va + of_nat n) (src + of_nat n) N (int n) (s\<lparr>mem := ?m\<rparr>)"
    using vmemcpy_loop_page [OF inv low leaf w f _ src, of n N 0] n by (simp add: vmemcpy_def z)
  have "?m b = mem s b" if "page_base b \<noteq> pte_frame e + hhdm_base s" for b
    by (rule copied_other_page [OF P O _ that]) (use n in simp)
  then have W: "vm_inv (s\<lparr>mem := ?m\<rparr>) (cr3 s) ps" "leaf_of (s\<lparr>mem := ?m\<rparr>) (cr3 s) (va + of_nat n) = None"
    using vm_inv_page_write(1,3) [OF inv(1) f aligned_pte_frame, of ?m] nxt by auto
  have "vaddr (s\<lparr>mem := ?m\<rparr>) True (va + of_nat n) = None"
    by (rule vaddr_unmapped [where ps = ps]) (use W nxt inv(2) in simp_all)
  moreover have "(of_nat n :: u64) < N" using n(2) n(1) by (simp add: word_less_nat_alt unat_of_nat)
  ultimately show ?thesis
    unfolding run by (subst vmemcpy_loop.simps) (simp add: vwrite_def split: option.split Option.bind_splits)
qed

lemma load_segment_spills:
  assumes inv: "vm_inv s root ps" "cr3 s = root" "root < 2 ^ 52" and A: "safe s root (set ps) A"
    and sg: "readable A ph 56" "sg = phdr_at (mem s) ph" "loadable sg" "lower_half (seg_vaddr sg)"
    and n: "unat (take_bit 12 (seg_vaddr sg)) + n = 0x1000" "n < unat (seg_memsz sg)"
    and src: "readable A (header + seg_offset sg) n"
    and nxt: "lower_half (seg_vaddr sg + of_nat n)" "leaf_of s root (seg_vaddr sg + of_nat n) = None"
    and none: "leaf_of s root (seg_vaddr sg) = None" and room: "4 \<le> length ps"
  shows "load_segment root header ph s = None"
proof -
  let ?va = "seg_vaddr sg"
  obtain s1 k e where s1: "vm_map root ?va True True False s = Some (True, s1)" "vm_inv s1 root (drop k ps)"
    "grown (set ps) root s s1" "user_page s1 root (set (drop k ps)) ?va True False (\<lambda>_. 0)"
    "leaf_of s1 root ?va = Some e" "pte_frame e \<in> set ps"
    "\<forall>va'. lower_half va' \<and> \<not> same_page ?va va' \<longrightarrow> leaf_of s1 root va' = leaf_of s root va'"
    using map_user_page [OF inv(1) sg(4) none room] by blast
  have c1: "cr3 s1 = root" "hhdm_base s1 = hhdm_base s" using s1(3) inv(2) by (simp_all add: grown_def same_cpu_def)
  have e: "pte_writable e" "pte_frame e \<notin> tables_of s1 root \<union> set (drop k ps)"
    using s1(4,5) by (auto simp: user_page_def)
  have "?va + of_nat n = page_base ?va + 0x1000"
  proof -
    have "?va + of_nat n = page_base ?va + (take_bit 12 ?va + of_nat n)" using page_base_split(1) [of ?va] by (metis add.assoc)
    also have "take_bit 12 ?va + of_nat n = (of_nat (unat (take_bit 12 ?va) + n) :: u64)" by simp
    finally show ?thesis by (simp only: n(1)) simp
  qed
  then have "leaf_of s1 root (?va + of_nat n) = None" using s1(7) next_page [OF sg(4) nxt(1)] nxt by simp
  moreover have "upper_half (header + seg_offset sg + of_nat i) \<and>
      page_base (header + seg_offset sg + of_nat i) \<noteq> pte_frame e + hhdm_base s1" if "i < n" for i
  proof -
    have "page_base a \<noteq> pte_frame e + hhdm_base s1" if "a \<in> A" for a
      using A that s1(6) c1(2) by (auto simp: safe_def)
    then show ?thesis using src that by (simp add: readable_def)
  qed
  ultimately have "vmemcpy ?va (header + seg_offset sg) (seg_memsz sg) s1 = None"
    by (intro vmemcpy_spills [of s1 "drop k ps" ?va e n]) (use s1(2,5) c1 e inv(3) sg(4) n nxt(1) in simp_all)
  moreover note same1 = safe_grown(2) [OF A s1(3) vm_invD(10) [OF inv(1)]]
  moreover note segment_fields [OF sg(1) refl, of s, folded sg(2)] segment_fields [OF sg(1) same1, folded sg(2)]
  moreover have "seg_filesz sg \<noteq> 0" using sg(3) by auto
  ultimately show ?thesis using sg(3) s1(1) by (simp add: load_segment_def)
qed

section \<open>A machine with free pages and an ELF file\<close>

lemma free_pages_inv:
  fixes s :: "'a kmem_scheme"
  assumes s: "vm_inv s 0x1000 []" "tables_of s 0x1000 = {0x1000}" "hhdm_base s = 0xFFFF800000000000"
    and ps: "pages_ok ps" "\<forall>p \<in> set ps. unat p < 0x100000000"
  defines "f \<equiv> foldr pmem_free ps s"
  shows "vm_inv f 0x1000 ps \<and> tables_of f 0x1000 = {0x1000} \<and> hhdm_base f = 0xFFFF800000000000 \<and> cr3 f = cr3 s \<and>
    kmem.more f = kmem.more s \<and> (\<forall>b. 0xFFFFFFFF80000000 \<le> b \<longrightarrow> mem f b = mem s b)"
  using ps unfolding f_def
proof (induction ps)
  case (Cons p ps)
  let ?f = "foldr pmem_free ps s"
  have "vm_inv ?f 0x1000 ps \<and> tables_of ?f 0x1000 = {0x1000} \<and> hhdm_base ?f = 0xFFFF800000000000 \<and> cr3 ?f = cr3 s \<and>
    kmem.more ?f = kmem.more s \<and> (\<forall>b. 0xFFFFFFFF80000000 \<le> b \<longrightarrow> mem ?f b = mem s b)"
    by (rule Cons.IH) (use Cons.prems in \<open>simp_all add: pages_ok_def\<close>)
  then have IH: "vm_inv ?f 0x1000 ps" "tables_of ?f 0x1000 = {0x1000}" "hhdm_base ?f = 0xFFFF800000000000"
    "cr3 ?f = cr3 s" "kmem.more ?f = kmem.more s" "\<And>b. 0xFFFFFFFF80000000 \<le> b \<Longrightarrow> mem ?f b = mem s b"
    by blast+
  have p: "unat p mod 4096 = 0" "p < 2 ^ 47" "p \<notin> {0, 0x1000, VGA_BUFFER}" "p \<notin> set ps" "unat p < 0x100000000"
    using Cons.prems by (simp_all add: pages_ok_def)
  have "p + 0xFFFF800000000000 \<noteq> 0"
    using p(2) by (auto simp: word_less_nat_alt word_unat_eq_iff unat_word_ariths)
  then have ok: "page_ok ?f p"
    using p(1,2) by (simp add: page_ok_def IH word_aligned_12 word_less_nat_alt)
  have "p \<notin> tables_of ?f 0x1000" "p \<noteq> 0" "p \<noteq> VGA_BUFFER" using p(3) IH(2) by auto
  note F = vm_inv_free [OF IH(1) ok p(4) this]
  have "mem (pmem_free p ?f) b = mem s b" if b: "0xFFFFFFFF80000000 \<le> b" for b
  proof -
    have "b \<noteq> p + 0xFFFF800000000000 + of_nat i" if "i < 8" for i
    proof
      assume "b = p + 0xFFFF800000000000 + of_nat i"
      then have "unat b < 0xFFFF900000000000" using p(5) that by (simp add: unat_word_ariths unat_of_nat)
      then show False using b by (simp add: word_le_nat_alt)
    qed
    then have "mem (pmem_free p ?f) b = mem ?f b"
      by (simp add: pmem_free_def Let_def IH(3) store64_other_byte)
    then show ?thesis using IH(6) [OF b] by simp
  qed
  moreover have "hhdm_base (pmem_free p ?f) = hhdm_base ?f" "cr3 (pmem_free p ?f) = cr3 ?f" "kmem.more (pmem_free p ?f) = kmem.more ?f"
    by (simp_all add: pmem_free_def Let_def)
  ultimately show ?case using F(1,2) IH(2-5) by simp
qed (use s in simp)

lemma freed_machine_facts:
  fixes ws :: "(u64 \<times> u64) list"
  assumes "pages_ok ps" "\<forall>p \<in> set ps. unat p < 0x100000000"
  defines "f \<equiv> foldr pmem_free ps (module_machine\<lparr>mem := words_mem ws\<rparr>)"
  shows "vm_inv f 0x1000 ps" "tables_of f 0x1000 = {0x1000}" "hhdm_base f = 0xFFFF800000000000" "cr3 f = 0x1000"
    "hdr f = 0xFFFFFFFF80001000" "\<And>b. 0xFFFFFFFF80000000 \<le> b \<Longrightarrow> mem f b = words_mem ws b"
proof -
  let ?s = "module_machine\<lparr>mem := words_mem ws\<rparr>"
  have "page_zero (mem ?s) (0x1000 + 0xFFFF800000000000)"
    by (simp add: page_zero_def words_mem_def word_less_nat_alt word_le_nat_alt unat_word_ariths)
  note E = empty_lower_inv [OF this]
  have "vm_inv ?s 0x1000 []" "tables_of ?s 0x1000 = {0x1000}"
    by (rule E; simp add: module_machine_def boot_machine_def term_inv_def)+
  note G = free_pages_inv [OF this _ assms(1,2), folded f_def]
  have c: "cr3 ?s = 0x1000" "kmem.more ?s = kmem.more module_machine" "mem ?s = words_mem ws"
    "hhdm_base ?s = 0xFFFF800000000000" by simp_all
  have F: "vm_inv f 0x1000 ps \<and> tables_of f 0x1000 = {0x1000} \<and> hhdm_base f = 0xFFFF800000000000 \<and> cr3 f = 0x1000 \<and>
      kmem.more f = kmem.more module_machine \<and> (\<forall>b. 0xFFFFFFFF80000000 \<le> b \<longrightarrow> mem f b = words_mem ws b)"
    using G [OF c(4)] unfolding c .
  then show "vm_inv f 0x1000 ps" "tables_of f 0x1000 = {0x1000}" "hhdm_base f = 0xFFFF800000000000" "cr3 f = 0x1000"
    "\<And>b. 0xFFFFFFFF80000000 \<le> b \<Longrightarrow> mem f b = words_mem ws b" by blast+
  show "hdr f = 0xFFFFFFFF80001000" using F hdr_of_more [of f module_machine] by simp
qed

text \<open>
  The file of \<open>init\<close> at \<open>0xFFFFFFFF80010000\<close>: the ELF header's words for entry point, program
  header offset and count, one program header (\<open>PT_LOAD\<close>, readable and executable, eight bytes at
  file offset 120 for address \<open>0x500000000\<close>) and the eight bytes. The header after it, which the count
  leaves out, asks for one byte more than a page.
\<close>

definition elf_words :: "(u64 \<times> u64) list" where
  "elf_words = module_words @
    [(0xFFFFFFFF80010018, 0x500000000), (0xFFFFFFFF80010020, 64), (0xFFFFFFFF80010038, 1),
     (0xFFFFFFFF80010040, 0x0000000500000001), (0xFFFFFFFF80010048, 120), (0xFFFFFFFF80010050, 0x500000000),
     (0xFFFFFFFF80010060, 8), (0xFFFFFFFF80010068, 8), (0xFFFFFFFF80010078, 0xFEEB),
     (0xFFFFFFFF80010080, 0x0000000600000001), (0xFFFFFFFF80010088, 0), (0xFFFFFFFF80010090, 0x500001000),
     (0xFFFFFFFF800100A0, 0x1001), (0xFFFFFFFF800100A8, 0x1001)]"

lemma elf_words_ok: "words_ok elf_words" "set module_words \<subseteq> set elf_words"
  by (simp_all add: words_ok_def elf_words_def module_words_def)

definition elf_pages :: "u64 list" where
  "elf_pages = map (\<lambda>i. 0x2000 + 0x1000 * of_nat i) [0..<36]"

lemma elf_pages_ok: "pages_ok elf_pages" "\<forall>p \<in> set elf_pages. unat p < 0x100000000" "length elf_pages = 36"
proof -
  let ?p = "\<lambda>i. 0x2000 + 0x1000 * of_nat i :: u64"
  have u: "unat (?p i) = 0x2000 + 0x1000 * i" if "i < 36" for i
    using that by (simp add: unat_word_ariths unat_of_nat)
  have "inj_on ?p {0..<36}"
  proof (rule inj_onI)
    fix i j :: nat assume ij: "i \<in> {0..<36}" "j \<in> {0..<36}" and "?p i = ?p j"
    then have "unat (?p i) = unat (?p j)" by (simp only:)
    moreover have "unat (?p i) = 0x2000 + 0x1000 * i" "unat (?p j) = 0x2000 + 0x1000 * j" using u ij by simp_all
    ultimately show "i = j" by linarith
  qed
  then have "distinct elf_pages" by (simp add: elf_pages_def distinct_map)
  moreover have "unat (?p i) mod 4096 = 0 \<and> ?p i < 2 ^ 47 \<and> ?p i \<notin> {0, 0x1000, VGA_BUFFER}" if "i < 36" for i
    using u [OF that] that by (auto simp: word_less_nat_alt word_unat_eq_iff)
  ultimately show "pages_ok elf_pages" by (auto simp: pages_ok_def elf_pages_def)
  show "\<forall>p \<in> set elf_pages. unat p < 0x100000000" using u by (auto simp: elf_pages_def)
  show "length elf_pages = 36" by (simp add: elf_pages_def)
qed

definition elf_machine :: boot where
  "elf_machine = foldr pmem_free elf_pages (module_machine\<lparr>mem := words_mem elf_words\<rparr>)"

lemma elf_machine_facts:
  "vm_inv elf_machine 0x1000 elf_pages" "tables_of elf_machine 0x1000 = {0x1000}"
  "hhdm_base elf_machine = 0xFFFF800000000000" "cr3 elf_machine = 0x1000" "hdr elf_machine = 0xFFFFFFFF80001000"
  "\<And>b. 0xFFFFFFFF80000000 \<le> b \<Longrightarrow> mem elf_machine b = words_mem elf_words b"
  using freed_machine_facts [OF elf_pages_ok(1,2), where ws = elf_words] by (simp_all only: elf_machine_def)

abbreviation high :: "u64 set" where "high \<equiv> {a. 0xFFFFFFFF80000000 \<le> a}"

lemma elf_machine_ready: "exec_ready elf_machine elf_pages high 0xFFFFFFFF80003000 (example_modules elf_words)"
proof -
  note M = elf_machine_facts
  have "boot_info elf_machine high 0xFFFFFFFF80003000 (example_modules elf_words)"
    by (rule module_boot_info [OF _ elf_words_ok M(5)]) (use M(6) in simp)
  moreover have "apart elf_machine 0x1000 elf_pages high"
    unfolding apart_def M(2) unfolding M(3) using page_base_far elf_pages_ok(2) by fastforce
  moreover have "tables_reachable elf_machine 0x1000"
    unfolding tables_reachable_def M(2) by simp
  ultimately show ?thesis using M(1) by (simp add: exec_ready_def M(4))
qed

lemma readable_high: "0xFFFFFFFF80000000 \<le> a \<Longrightarrow> a \<le> 0xFFFFFFFF90000000 \<Longrightarrow> n \<le> 0x1000 \<Longrightarrow> readable high a n"
proof -
  assume a: "0xFFFFFFFF80000000 \<le> a" "a \<le> 0xFFFFFFFF90000000" "n \<le> 0x1000"
  have "0xFFFFFFFF80000000 \<le> a + of_nat i" if "i < n" for i
    using a that by (simp add: word_le_nat_alt unat_word_ariths unat_of_nat)
  moreover have "upper_half (a + of_nat i)" if "i < n" for i
    by (rule upper_half_add) (use a that in \<open>simp_all add: word_le_nat_alt\<close>)
  ultimately show ?thesis by (simp add: readable_def)
qed

lemma elf_load: "(a, v) \<in> set elf_words \<Longrightarrow> load_bytes (mem elf_machine) a 8 = v"
proof -
  assume w: "(a, v) \<in> set elf_words"
  have "0xFFFFFFFF80000000 \<le> a" "a \<le> 0xFFFFFFFFFFFFF000" using w elf_words_ok(1) by (auto simp: words_ok_def)
  then have "vload elf_machine a 8 = Some (load64 (mem elf_machine) a)"
    by (intro vload8_upper) (simp_all add: word_le_nat_alt)
  moreover have "vload elf_machine a 8 = Some v"
    using words_mem_vload [OF elf_words_ok(1) w] elf_machine_facts(6) by blast
  ultimately show ?thesis by (simp add: load64_def)
qed

lemma elf_prefix: "(a, v) \<in> set elf_words \<Longrightarrow> n \<le> 8 \<Longrightarrow> load_bytes (mem elf_machine) a n = take_bit (8 * n) v"
  using load_bytes_prefix [of n 8 "mem elf_machine" a] elf_load by simp


lemma only_root_unmapped:
  assumes "vm_inv s root ps" "tables_of s root = {root}" "lower_half va"
  shows "leaf_of s root va = None"
proof -
  have "pt_base (mem s) (hhdm_base s) root va (Suc 0) = None"
  proof (rule ccontr)
    assume "pt_base (mem s) (hhdm_base s) root va (Suc 0) \<noteq> None"
    then obtain t where t: "pt_base (mem s) (hhdm_base s) root va (Suc 0) = Some t" by blast
    then have "t \<in> tables_of s root" by (intro pt_tables_I [OF assms(3) _ t]) simp
    then show False
      using t assms(2) no_shareD(1) [OF vm_invD(2) [OF assms(1)] assms(3) assms(3), of 1 0 root] by simp
  qed
  then show ?thesis by (rule leaf_None) simp
qed

lemma elf_machine_unmapped: "lower_half va \<Longrightarrow> leaf_of elf_machine 0x1000 va = None"
  by (rule only_root_unmapped [OF elf_machine_facts(1,2)])

lemma elf_machine_file:
  defines "h \<equiv> 0xFFFFFFFF80010000"
  shows "elf_file high (mem elf_machine) h [phdr_at (mem elf_machine) 0xFFFFFFFF80010040]"
    "load_addrs [phdr_at (mem elf_machine) 0xFFFFFFFF80010040] = [0x500000000]"
    "load_bytes (mem elf_machine) (h + 24) 8 = 0x500000000"
proof -
  let ?m = "mem elf_machine"
  let ?sg = "phdr_at ?m 0xFFFFFFFF80010040"
  note prefix = elf_prefix
  have n: "load_bytes ?m (h + 56) 2 = 1" "load_bytes ?m (h + 32) 8 = 64" "load_bytes ?m (h + 24) 8 = 0x500000000"
    using prefix [of "h + 56" 1 2] prefix [of "h + 32" 64 8] prefix [of "h + 24" "0x500000000" 8]
    by (simp_all add: h_def elf_words_def)
  have f: "seg_type ?sg = 1" "seg_vaddr ?sg = 0x500000000" "seg_filesz ?sg = 8" "seg_memsz ?sg = 8" "seg_offset ?sg = 120"
    using prefix [of "0xFFFFFFFF80010040" "0x0000000500000001" 4] prefix [of "0xFFFFFFFF80010050" "0x500000000" 8]
      prefix [of "0xFFFFFFFF80010060" 8 8] prefix [of "0xFFFFFFFF80010068" 8 8] prefix [of "0xFFFFFFFF80010048" 120 8]
    by (simp_all add: phdr_at_def elf_words_def)
  have p: "phnum ?m h = 1" by (simp add: phnum_def n)
  have "segment_fits high h ?sg"
    using user_base_lower readable_high [of "h + 120" 8] by (simp add: segment_fits_def f h_def take_bit_eq_mod)
  moreover have "readable high h 64" "readable high (h + 64) 56" by (rule readable_high; simp add: h_def)+
  moreover have "segments ?m (h + 64) 1 = [?sg]" by (simp add: h_def)
  ultimately show "elf_file high ?m h [?sg]" by (simp add: elf_file_def n p)
  show "load_addrs [?sg] = [0x500000000]" by (simp add: f)
  show "load_bytes ?m (h + 24) 8 = 0x500000000" by (rule n)
qed

section \<open>Properties\<close>

text \<open>C3: \<open>exec_setup\<close> with the name of a module, given in kernel memory, runs it: it jumps to the
  ELF entry point in user mode with the stack pointer at the top of the stack, and in the new
  address space every loadable segment of at most one page is its bytes of the file, zero
  around them, with the permissions of its flags; eight zero pages, writable and not
  executable, are the stack; no other lower-half page is mapped. It needs four free pages for
  each of these.\<close>

theorem exec_starts_program:
  assumes "exec_ready s ps A l ms" "CHR 0x00 \<notin> set name" "length name < 2147483648"
    and "find (\<lambda>m. mod_name m = bytes_of name) ms = Some md"
    and "elf_file A (mem s) (mod_begin md) sgs" "sorted_wrt (\<lambda>a b. \<not> same_page a b) (program_pages sgs)"
    and "4 * (length (load_addrs sgs) + 8) \<le> length ps"
  shows "\<exists>s'. exec_setup (Lit name 0) s =
      Some (User_entry 0x23 0x70000007FF8 0x1B (load_bytes (mem s) (mod_begin md + 24) 8) s') \<and>
    (\<forall>sg \<in> set sgs. loadable sg \<longrightarrow>
       user_sees s' (seg_vaddr sg) (seg_writable sg) (seg_executable sg) (segment_page (mem s) (mod_begin md) sg)) \<and>
    (\<forall>va \<in> set (page_addrs user_stack 8). user_sees s' va True False (\<lambda>_. 0)) \<and>
    (\<forall>va. lower_half va \<and> (\<forall>v \<in> set (program_pages sgs). \<not> same_page v va) \<longrightarrow> mmu_translate s' va = None)"
proof -
  let ?s = "unmap_lower_half (read_cr3 s) s" and ?root = "cr3 s" and ?h = "mod_begin md"
  note E = exec_ready_unmapped [OF assms(1)] and F = exec_ready_fresh [OF assms(1)]
  obtain qs where qs: "vm_inv ?s ?root (qs @ ps)" "safe ?s ?root (set (qs @ ps)) A" using F(1) by blast
  have root: "?root < 2 ^ 52" using assms(1) by (simp add: exec_ready_def)
  have "\<forall>va \<in> set (load_addrs sgs). lower_half va"
    using assms(5) by (auto simp: elf_file_def segment_fits_def load_addrs_def)
  then have low: "\<forall>va \<in> set (program_pages sgs). lower_half va" using stack_pages by (simp only: set_append ball_Un)
  then have fr: "fresh ?s ?root (program_pages sgs)" using assms(6) E(5) unfolding fresh_def by blast
  have "4 * (length (load_addrs sgs) + 8) \<le> length (qs @ ps)" using assms(7) by simp
  from load_program [OF qs(1) F(3) root qs(2) F(2) assms(5) fr this]
  obtain s1 s2 rs where L: "load_segments ?root ?h (?h + load_bytes (mem s) (?h + 32) 8) 0 ?s = Some s1"
    "map_stack user_stack (user_stack + user_stack_size) s1 = Some s2"
    "e_entry s2 ?h = Some (load_bytes (mem s) (?h + 24) 8)"
    "extended ?root (set (program_pages sgs)) (4 * (length (load_addrs sgs) + 8)) (qs @ ps) ?s rs s2"
    "\<forall>sg \<in> set sgs. loadable sg \<longrightarrow> segment_loaded s2 ?root (set rs) (mem s) ?h sg"
    "\<forall>va \<in> set (page_addrs user_stack 8). user_page s2 ?root (set rs) va True False (\<lambda>_. 0)"
    by (elim exE conjE) (rule that)
  have c: "cr3 s2 = ?root" "vm_inv s2 (cr3 s2) rs" "cr3 s2 < 2 ^ 52"
    using extendedD(1,4) [OF L(4)] F(3) root by simp_all
  have "readable A (?h + of_nat 32) 8"
    using assms(5) by (intro readable_sub [of A ?h 64]) (simp_all add: elf_file_def)
  then have phoff: "e_phoff ?s ?h = Some (load_bytes (mem s) (?h + 32) 8)"
    unfolding e_phoff_def by (intro readable_vload) (use F(2) in auto)
  have "cstring (kview ?s) (Lit name 0) (bytes_of name)" unfolding kview_def by (rule cstring_lit) (rule assms(2))
  from find_module_first [OF E(2) this, of 0] assms(3,4)
  have "find_module ?s l (Lit name 0) 0 = Some (Some md)" by simp
  moreover have "read_cr3 ?s AND 0xFFFFFFFFFFFFF000 = ?root"
    using cr3_mask [OF vm_invD(11) [OF qs(1)]] F(3) by (simp add: read_cr3_def)
  ultimately have "exec_setup (Lit name 0) s = Some (User_entry 0x23 0x70000007FF8 0x1B (load_bytes (mem s) (?h + 24) 8) s2)"
    using E(1) phoff L(1-3) by (simp add: exec_setup_def Let_def)
  moreover have "user_sees s2 va w x b" if "user_page s2 ?root (set rs) va w x b" "va \<in> set (program_pages sgs)" for va w x b
    by (rule user_page_seen [OF c(2,3)]) (use low that c(1) in simp_all)
  then have "\<forall>sg \<in> set sgs. loadable sg \<longrightarrow>
       user_sees s2 (seg_vaddr sg) (seg_writable sg) (seg_executable sg) (segment_page (mem s) ?h sg)"
    "\<forall>va \<in> set (page_addrs user_stack 8). user_sees s2 va True False (\<lambda>_. 0)"
    using L(5,6) load_addrs_mem unfolding segment_loaded_def set_append by blast+
  moreover have "mmu_translate s2 va = None" if "lower_half va" "\<forall>v \<in> set (program_pages sgs). \<not> same_page v va" for va
    using extended_unmapped [OF L(4) E(5) [OF that(1)] that] that(1) mmu_translate_leaf [OF c(2,3)] c(1) by simp
  ultimately show ?thesis by blast
qed

text \<open>The witness: the machine starts \<open>init\<close> at the page where its segment was put.\<close>

theorem exec_starts_program_witness:
  "\<exists>s'. exec_setup (Lit ''init'' 0) elf_machine = Some (User_entry 0x23 0x70000007FF8 0x1B 0x500000000 s')"
proof -
  note N = example_module_names(1) [OF elf_words_ok]
  have f: "find (\<lambda>m. mod_name m = bytes_of ''init'') (example_modules elf_words) =
      Some (words_module elf_words 0xFFFFFFFF80003018 0xFFFFFFFF80010000 0xFFFFFFFF80011000)"
    using N by (simp add: example_modules_def)
  have h: "mod_begin (words_module elf_words 0xFFFFFFFF80003018 0xFFFFFFFF80010000 0xFFFFFFFF80011000) = 0xFFFFFFFF80010000"
    by (simp add: words_module_def)
  have d: "sorted_wrt (\<lambda>a b. \<not> same_page a b) ([0x500000000] @ page_addrs user_stack 8)"
    by (simp add: page_addrs_8 same_page_def drop_bit_eq_div take_bit_eq_mod)
  show ?thesis
    using exec_starts_program [OF elf_machine_ready _ _ f, unfolded h, OF _ _ elf_machine_file(1)]
      elf_machine_file(2,3) d elf_pages_ok(3) by auto
qed

text \<open>C34: the loader maps one page for a segment and copies all of \<open>p_memsz\<close>: when the segment
  reaches past the end of its page and the next page is not mapped, the copy faults in the
  kernel, whatever else the file holds, and the program is not started.\<close>

theorem segment_past_page_faults:
  assumes "vm_inv s root ps" "cr3 s = root" "root < 2 ^ 52" "safe s root (set ps) A"
    and "readable A ph 56" "sg = phdr_at (mem s) ph" "loadable sg" "lower_half (seg_vaddr sg)"
    and "unat (take_bit 12 (seg_vaddr sg)) + n = 0x1000" "n < unat (seg_memsz sg)" "readable A (header + seg_offset sg) n"
    and "lower_half (seg_vaddr sg + of_nat n)" "leaf_of s root (seg_vaddr sg + of_nat n) = None"
    and "leaf_of s root (seg_vaddr sg) = None" "4 \<le> length ps"
  shows "load_segment root header ph s = None"
  using assms by (rule load_segment_spills)

theorem segment_past_page_faults_witness: "load_segment 0x1000 0xFFFFFFFF80010000 0xFFFFFFFF80010080 elf_machine = None"
proof -
  let ?m = "mem elf_machine"
  let ?sg = "phdr_at ?m 0xFFFFFFFF80010080"
  note M = elf_machine_facts
  have f: "seg_type ?sg = 1" "seg_vaddr ?sg = 0x500001000" "seg_filesz ?sg = 0x1001" "seg_memsz ?sg = 0x1001" "seg_offset ?sg = 0"
    using elf_prefix [of "0xFFFFFFFF80010080" "0x0000000600000001" 4] elf_prefix [of "0xFFFFFFFF80010090" "0x500001000" 8]
      elf_prefix [of "0xFFFFFFFF800100A0" "0x1001" 8] elf_prefix [of "0xFFFFFFFF800100A8" "0x1001" 8] elf_prefix [of "0xFFFFFFFF80010088" 0 8]
    by (simp_all add: phdr_at_def elf_words_def)
  have low: "lower_half (0x500001000 :: u64)" "lower_half (0x500002000 :: u64)"
    by (simp_all add: lower_half_def drop_bit_eq_div word_unat_eq_iff)
  have safe: "safe elf_machine 0x1000 (set elf_pages) high"
    using elf_machine_ready by (simp add: exec_ready_def apart_def safe_def M(4))
  show ?thesis
    by (rule segment_past_page_faults [where n = "0x1000" and A = high and ps = elf_pages and sg = ?sg])
      (use M(1,4) low safe elf_machine_unmapped elf_pages_ok(3) in
        \<open>simp_all add: f readable_high take_bit_eq_mod\<close>)
qed

end
