(* ===== verification/KeyboardSteps.thy ===== *)
theory KeyboardSteps
  imports Console
begin

text \<open>
  The reader \<open>kgetc\<close> (\<open>kernel/systemcalls.c\<close>) access by access, with \<open>keyboard_interrupt\<close>
  (\<open>kernel/boot.c\<close>) between any two of them: the gates of both are trap gates, so interrupts
  stay enabled. The increment of the index and the decrement of the volatile length are each a
  load and a store, and the test for the end of the array and the reset of the index are two
  accesses. The ghost lists are the characters typed and the characters returned by successive
  calls. With the parameter \<open>atomic\<close> no interrupt falls between the load and the store of the
  length. The keys are those of \<open>plain_keys\<close>: neither backspace, which moves the reader's own
  index (\<open>backspace_reads_stale\<close> says what comes of that), nor the scan code 0x80.
\<close>

datatype reader_pc = Poll | Take | Bump u8 | Bumped u8 u8 | Load u8 | Store u8 u8 | Wrap u8 | Reset u8 | Done u8

inductive reader_step :: "reader_pc \<times> 'a kernel_scheme \<Rightarrow> reader_pc \<times> 'a kernel_scheme \<Rightarrow> bool" where
  wait: "buffer_length s = 0 \<Longrightarrow> reader_step (Poll, s) (Poll, s)"
| leave: "buffer_length s \<noteq> 0 \<Longrightarrow> reader_step (Poll, s) (Take, s)"
| take: "0 \<le> sint (reading_index s) \<Longrightarrow> sint (reading_index s) < int (length (buffer s)) \<Longrightarrow>
    reader_step (Take, s) (Bump (buffer s ! unat (reading_index s)), s)"
| bump: "reader_step (Bump c, s) (Bumped c (reading_index s), s)"
| bumped: "reader_step (Bumped c r, s) (Load c, s\<lparr>reading_index := r + 1\<rparr>)"
| load: "reader_step (Load c, s) (Store c (buffer_length s), s)"
| store: "reader_step (Store c l, s) (Wrap c, s\<lparr>buffer_length := l - 1\<rparr>)"
| wrap: "reader_step (Wrap c, s) (if sint (reading_index s) \<ge> 100 then Reset c else Done c, s)"
| reset: "reader_step (Reset c, s) (Done c, s\<lparr>reading_index := 0\<rparr>)"
| return: "reader_step (Done c, s) (Poll, s)"

fun emitted :: "reader_pc \<Rightarrow> u8 list" where
  "emitted (Done c) = [c]"
| "emitted _ = []"

fun interruptible :: "bool \<Rightarrow> reader_pc \<Rightarrow> bool" where
  "interruptible atomic (Store c l) \<longleftrightarrow> \<not> atomic"
| "interruptible atomic _ \<longleftrightarrow> True"

inductive console_reach ::
  "bool \<Rightarrow> 'a kernel_scheme \<Rightarrow> reader_pc \<Rightarrow> 'a kernel_scheme \<Rightarrow> u8 list \<Rightarrow> u8 list \<Rightarrow> bool"
  for atomic s0 where
  start: "console_reach atomic s0 Poll s0 [] []"
| reader: "console_reach atomic s0 pc s ins outs \<Longrightarrow> reader_step (pc, s) (pc', s') \<Longrightarrow>
    console_reach atomic s0 pc' s' ins (outs @ emitted pc)"
| key: "console_reach atomic s0 pc s ins outs \<Longrightarrow> interruptible atomic pc \<Longrightarrow> length ins < length outs + 100 \<Longrightarrow>
    code = devices s (io_trace s) 0x60 \<Longrightarrow> plain_keys [code] \<Longrightarrow> keyboard_interrupt s = Some s' \<Longrightarrow>
    console_reach atomic s0 pc s' (ins @ typed [code]) outs"

section \<open>The invariant\<close>

text \<open>The stored length never exceeds the characters that wait, and equals them when atomic.\<close>

definition counts :: "bool \<Rightarrow> u8 \<Rightarrow> nat \<Rightarrow> bool" where
  "counts atomic l n \<longleftrightarrow> unat l \<le> n \<and> (atomic \<longrightarrow> unat l = n)"

definition advanced :: "'a kernel_scheme \<Rightarrow> u8 \<Rightarrow> u8 list \<Rightarrow> bool" where
  "advanced s c w \<longleftrightarrow> (\<exists>q. w = c # q \<and> unat (reading_index s) \<le> 100 \<and> queue_at s (unat (reading_index s) mod 100) q)"

fun reader_inv :: "bool \<Rightarrow> reader_pc \<Rightarrow> 'a kernel_scheme \<Rightarrow> u8 list \<Rightarrow> bool" where
  "reader_inv atomic Poll s w \<longleftrightarrow> queue_at s (unat (reading_index s)) w \<and> counts atomic (buffer_length s) (length w)"
| "reader_inv atomic Take s w \<longleftrightarrow> queue_at s (unat (reading_index s)) w \<and> counts atomic (buffer_length s) (length w) \<and>
     buffer_length s \<noteq> 0"
| "reader_inv atomic (Bump c) s w \<longleftrightarrow> queue_at s (unat (reading_index s)) w \<and> (\<exists>q. w = c # q) \<and>
     counts atomic (buffer_length s) (length w) \<and> buffer_length s \<noteq> 0"
| "reader_inv atomic (Bumped c r) s w \<longleftrightarrow> queue_at s (unat (reading_index s)) w \<and> (\<exists>q. w = c # q) \<and>
     counts atomic (buffer_length s) (length w) \<and> buffer_length s \<noteq> 0 \<and> r = reading_index s"
| "reader_inv atomic (Load c) s w \<longleftrightarrow> advanced s c w \<and> counts atomic (buffer_length s) (length w) \<and> buffer_length s \<noteq> 0"
| "reader_inv atomic (Store c l) s w \<longleftrightarrow> advanced s c w \<and> counts atomic l (length w) \<and> l \<noteq> 0"
| "reader_inv atomic (Wrap c) s w \<longleftrightarrow> advanced s c w \<and> counts atomic (buffer_length s) (length w - 1)"
| "reader_inv atomic (Reset c) s w \<longleftrightarrow> advanced s c w \<and> reading_index s = 100 \<and> counts atomic (buffer_length s) (length w - 1)"
| "reader_inv atomic (Done c) s w \<longleftrightarrow> (\<exists>q. w = c # q \<and> queue_at s (unat (reading_index s)) q \<and>
     counts atomic (buffer_length s) (length q))"

lemma counts_pred: "counts atomic l n \<Longrightarrow> l \<noteq> 0 \<Longrightarrow> counts atomic (l - 1) (n - 1)"
  by (simp add: counts_def unat_minus_one) linarith

lemma counts_add:
  assumes "counts atomic l n" "n + k \<le> 101"
  shows "counts atomic (l + of_nat k) (n + k)" "l \<noteq> 0 \<Longrightarrow> l + of_nat k \<noteq> 0"
proof -
  have "unat l \<le> n" using assms(1) by (simp add: counts_def)
  then have "unat (l + of_nat k) = unat l + k" using assms(2) by (simp add: unat_word_ariths unat_of_nat)
  then show "counts atomic (l + of_nat k) (n + k)" "l \<noteq> 0 \<Longrightarrow> l + of_nat k \<noteq> 0"
    using assms(1) by (auto simp: counts_def word_unat_eq_iff)
qed

lemma queue_at_cong:
  "buffer s' = buffer s \<Longrightarrow> writing_index s' = writing_index s \<Longrightarrow> queue_at s' r q = queue_at s r q"
  by (simp add: queue_at_def)

section \<open>Every step keeps it\<close>

lemma key_queue:
  assumes Q: "queue_at s r q" "length q < 100" and code: "code = devices s (io_trace s) 0x60" "plain_keys [code]"
    and run: "keyboard_interrupt s = Some s'"
  shows "queue_at s' r (q @ typed [code])" "buffer_length s' = buffer_length s + of_nat (length (typed [code]))"
    "reading_index s' = reading_index s"
proof -
  let ?in = "s\<lparr>io_trace := In 0x60 code # io_trace s\<rparr>"
  define w where "w = (if key_char code = 0 then ?in else put_char (key_char code) ?in)"
  have Qin: "queue_at ?in r q" using Q(1) queue_at_cong [of ?in s] by simp
  have "char_write (key_char code) ?in = Some w"
    using char_write_put [of "key_char code" ?in] Qin by (auto simp: w_def char_write_def [of 0] queue_at_def)
  then have s': "s' = outb PIC1_COMMAND PIC_EOI w"
    using run keyboard_interrupt_eq [of code s] code by simp
  have "queue_at w r (q @ typed [code])"
    using Qin put_char_queue [OF Qin Q(2)] by (simp add: w_def)
  then show "queue_at s' r (q @ typed [code])" using queue_at_cong [of s' w] by (simp add: s' outb_def)
  show "buffer_length s' = buffer_length s + of_nat (length (typed [code]))" "reading_index s' = reading_index s"
    by (simp_all add: s' outb_def w_def put_char_def Let_def)
qed

lemma advanced_key:
  assumes "advanced s c w" "length w < 100" "code = devices s (io_trace s) 0x60" "plain_keys [code]"
    "keyboard_interrupt s = Some s'"
  shows "advanced s' c (w @ typed [code])"
proof -
  obtain q where q: "w = c # q" "unat (reading_index s) \<le> 100" "queue_at s (unat (reading_index s) mod 100) q"
    using assms(1) by (auto simp: advanced_def)
  then show ?thesis using key_queue [OF q(3) _ assms(3-5)] assms(2) by (auto simp: advanced_def)
qed

lemma reader_inv_queue:
  assumes "reader_inv atomic pc s w"
  shows "\<exists>r q. queue_at s r q \<and> length q \<le> length w"
proof -
  have "(\<exists>r. queue_at s r w) \<or> (\<exists>r c q. w = c # q \<and> queue_at s r q)"
    using assms by (cases pc) (auto simp: advanced_def)
  then show ?thesis by (metis le_refl le_SucI length_Cons)
qed

lemma reader_inv_key:
  assumes inv: "reader_inv atomic pc s w" and pc: "interruptible atomic pc" and room: "length w < 100"
    and code: "code = devices s (io_trace s) 0x60" "plain_keys [code]" and run: "keyboard_interrupt s = Some s'"
  shows "reader_inv atomic pc s' (w @ typed [code])"
proof -
  note K = key_queue [OF _ _ code run] and B = advanced_key [OF _ room code run]
  obtain r q where "queue_at s r q" "length q < 100" using reader_inv_queue [OF inv] room le_less_trans by blast
  note F = K(2,3) [OF this]
  have k: "length (typed [code]) \<le> 1" by simp
  show ?thesis
  proof (cases pc)
    case (Store c l)
    then show ?thesis using inv pc B by (auto simp: counts_def)
  next
    case (Wrap c)
    then obtain q where "w = c # q" using inv by (auto simp: advanced_def)
    then show ?thesis using inv Wrap B counts_add(1) [of atomic "buffer_length s" "length w - 1" "length (typed [code])"] k room F
      by simp
  next
    case (Reset c)
    then obtain q where "w = c # q" using inv by (auto simp: advanced_def)
    then show ?thesis using inv Reset B counts_add(1) [of atomic "buffer_length s" "length w - 1" "length (typed [code])"] k room F
      by simp
  next
    case (Done c)
    then obtain q where q: "w = c # q" "queue_at s (unat (reading_index s)) q" "counts atomic (buffer_length s) (length q)"
      using inv by auto
    then show ?thesis using Done K(1) [OF q(2)] counts_add(1) [OF q(3), of "length (typed [code])"] k room F by simp
  qed (use inv B K(1) [of "unat (reading_index s)" w] counts_add [of atomic "buffer_length s" "length w" "length (typed [code])"]
      k room F in auto)
qed

lemma reader_inv_bump:
  assumes "queue_at s (unat (reading_index s)) (c # q)" "s' = s\<lparr>reading_index := reading_index s + 1\<rparr>"
  shows "advanced s' c (c # q)"
proof -
  have r: "unat (reading_index s) < 100" "length q < 100" using assms(1) by (simp_all add: queue_at_def)
  then have "unat (reading_index s') = unat (reading_index s) + 1" by (simp add: assms(2) unat_word_ariths)
  moreover have "queue_at s' ((unat (reading_index s) + 1) mod 100) q"
    by (rule queue_at_tl(2) [OF assms(1) r(2)]) (simp_all add: assms(2))
  ultimately show ?thesis using r by (simp add: advanced_def)
qed

text \<open>The index past its increment is below 100, or is 100 and about to be reset.\<close>

lemma reader_inv_wrap:
  assumes "unat (reading_index s) \<le> 100" "queue_at s (unat (reading_index s) mod 100) q"
  shows "sint (reading_index s) \<ge> 100 \<Longrightarrow> reading_index s = 100"
    "\<not> sint (reading_index s) \<ge> 100 \<Longrightarrow> queue_at s (unat (reading_index s)) q"
proof -
  have e: "100 \<le> sint (reading_index s) \<longleftrightarrow> unat (reading_index s) = 100"
    using sint_u8(3) [of "reading_index s"] assms(1) by simp
  then show "sint (reading_index s) \<ge> 100 \<Longrightarrow> reading_index s = 100" by (simp add: word_unat_eq_iff)
  show "queue_at s (unat (reading_index s)) q" if "\<not> sint (reading_index s) \<ge> 100"
  proof -
    have "unat (reading_index s) < 100" using that e assms(1) by simp
    then show ?thesis using assms(2) by simp
  qed
qed

lemma reader_inv_reset:
  assumes "reading_index s = 100" "queue_at s (unat (reading_index s) mod 100) q"
  shows "queue_at (s\<lparr>reading_index := 0\<rparr>) 0 q"
  using assms queue_at_cong [of "s\<lparr>reading_index := 0\<rparr>" s] by simp

lemma reader_inv_step:
  assumes "reader_inv atomic pc s w" "reader_step (pc, s) (pc', s')"
  shows "\<exists>w'. w = emitted pc @ w' \<and> reader_inv atomic pc' s' w'"
  using assms(2)
proof cases
  case take
  have "w \<noteq> []" using assms(1) take by (auto simp: counts_def word_unat_eq_iff)
  then obtain c q where w: "w = c # q" by (cases w) auto
  then have "queue_at s (unat (reading_index s)) (c # q)" "length q < 100"
    using assms(1) take by (auto simp: queue_at_def)
  then have "buffer s ! unat (reading_index s) = c" by (intro queue_at_tl(1)) auto
  then show ?thesis using assms(1) take w by auto
next
  case (bumped c r)
  then show ?thesis using assms(1) reader_inv_bump [of s c _ s'] by auto
next
  case (store c l)
  then show ?thesis
    using assms(1) counts_pred [of atomic l "length w"] by (auto simp: advanced_def queue_at_cong [of "s\<lparr>buffer_length := l - 1\<rparr>" s])
next
  case (wrap c)
  then obtain q where q: "w = c # q" "unat (reading_index s) \<le> 100" "queue_at s (unat (reading_index s) mod 100) q"
    using assms(1) by (auto simp: advanced_def)
  then show ?thesis using assms(1) wrap reader_inv_wrap [OF q(2,3)] by (auto simp: advanced_def)
next
  case (reset c)
  then show ?thesis using assms(1) reader_inv_reset [of s] by (auto simp: advanced_def)
qed (use assms(1) in auto)

lemma console_reach_inv:
  "console_reach atomic s0 pc s ins outs \<Longrightarrow> kb_rep s0 [] \<Longrightarrow> \<exists>w. ins = outs @ w \<and> reader_inv atomic pc s w"
proof (induction rule: console_reach.induct)
  case start
  then show ?case by (simp add: kb_rep_def counts_def)
next
  case (reader pc s ins outs pc' s')
  then show ?case using reader_inv_step by fastforce
next
  case (key pc s ins outs code s')
  then obtain w where w: "ins = outs @ w" "reader_inv atomic pc s w" by blast
  moreover have "length w < 100" using key.hyps(3) w(1) by simp
  ultimately show ?case using reader_inv_key [OF w(2) key.hyps(2) _ key.hyps(4-6)] by simp
qed

lemma key_total:
  assumes "queue_at s r q" "code = devices s (io_trace s) 0x60" "plain_keys [code]"
  shows "\<exists>s'. keyboard_interrupt s = Some s'"
proof -
  let ?in = "s\<lparr>io_trace := In 0x60 code # io_trace s\<rparr>"
  have "char_write (key_char code) ?in \<noteq> None"
    using char_write_put [of "key_char code" ?in] assms(1)
    by (cases "key_char code = 0") (auto simp: char_write_def [of 0] queue_at_def)
  then show ?thesis using keyboard_interrupt_eq [of code s] assms(2,3) by auto
qed

text \<open>The end of a call, from the test for the end of the array on, and a whole call.\<close>

lemma reader_wraps:
  assumes "console_reach atomic s0 (Wrap c) s ins outs"
    and "unat (reading_index s) \<le> 100" "queue_at s (unat (reading_index s) mod 100) q"
  shows "\<exists>s'. console_reach atomic s0 Poll s' ins (outs @ [c]) \<and> buffer_length s' = buffer_length s \<and>
    queue_at s' (unat (reading_index s')) q"
proof -
  note W = reader_inv_wrap [OF assms(2,3)]
  have finish: "console_reach atomic s0 Poll s' ins (outs @ [c])" if "console_reach atomic s0 (Done c) s' ins outs" for s'
    using console_reach.reader [OF that reader_step.return] by simp
  have step: "console_reach atomic s0 (if sint (reading_index s) \<ge> 100 then Reset c else Done c) s ins outs"
    using console_reach.reader [OF assms(1) reader_step.wrap] by simp
  show ?thesis
  proof (cases "sint (reading_index s) \<ge> 100")
    case True
    then have "console_reach atomic s0 (Reset c) s ins outs" using step by simp
    then have "console_reach atomic s0 (Done c) (s\<lparr>reading_index := 0\<rparr>) ins outs"
      using console_reach.reader [OF _ reader_step.reset] by fastforce
    then show ?thesis using finish reader_inv_reset [OF W(1) [OF True] assms(3)]
      by (intro exI [of _ "s\<lparr>reading_index := 0\<rparr>"]) simp
  next
    case False
    then show ?thesis using finish step W(2) by (intro exI [of _ s]) simp
  qed
qed

lemma reader_returns:
  assumes "console_reach atomic s0 Take s ins outs" "kb_rep s0 []"
  shows "\<exists>s' c. console_reach atomic s0 Poll s' ins (outs @ [c])"
proof -
  obtain w where w: "reader_inv atomic Take s w" using console_reach_inv [OF assms] by blast
  define c where "c = buffer s ! unat (reading_index s)"
  define s1 where "s1 = s\<lparr>reading_index := reading_index s + 1\<rparr>"
  define s2 where "s2 = s1\<lparr>buffer_length := buffer_length s1 - 1\<rparr>"
  have "0 \<le> sint (reading_index s)" "sint (reading_index s) < int (length (buffer s))"
    using w sint_u8(1) [of "reading_index s"] sint_u8(2) [of "reading_index s" 100] by (simp_all add: queue_at_def)
  then have "reader_step (Take, s) (Bump c, s)" unfolding c_def by (rule reader_step.take)
  then have "console_reach atomic s0 (Bump c) s ins outs" using console_reach.reader [OF assms(1)] by fastforce
  then have "console_reach atomic s0 (Bumped c (reading_index s)) s ins outs"
    using console_reach.reader [OF _ reader_step.bump] by fastforce
  then have "console_reach atomic s0 (Load c) s1 ins outs"
    unfolding s1_def using console_reach.reader [OF _ reader_step.bumped] by fastforce
  then have "console_reach atomic s0 (Store c (buffer_length s1)) s1 ins outs"
    using console_reach.reader [OF _ reader_step.load] by fastforce
  then have r: "console_reach atomic s0 (Wrap c) s2 ins outs"
    unfolding s2_def using console_reach.reader [OF _ reader_step.store] by fastforce
  obtain w' where "reader_inv atomic (Wrap c) s2 w'" using console_reach_inv [OF r assms(2)] by blast
  then obtain q where "unat (reading_index s2) \<le> 100" "queue_at s2 (unat (reading_index s2) mod 100) q"
    by (auto simp: advanced_def)
  from reader_wraps [OF r this] show ?thesis by blast
qed

text \<open>From an empty buffer: a first key, and the reader up to a second key inside its decrement.\<close>

lemma first_key:
  assumes "kb_rep s0 []" "typing s0 (a # codes)" "plain_keys [a]" "key_char a \<noteq> 0"
  shows "\<exists>s. console_reach atomic s0 Take s (typed [a]) [] \<and> kb_rep s [key_char a] \<and> typing s codes"
proof -
  have code: "a = devices s0 (io_trace s0) 0x60" using typing_Cons(1) [OF assms(2)] by simp
  have Q: "queue_at s0 (unat (reading_index s0)) []" using assms(1) by (simp add: kb_rep_def)
  obtain s where s: "keyboard_interrupt s0 = Some s" using key_total [OF Q code assms(3)] by blast
  note K = key_queue [OF Q _ code assms(3) s]
  have rep: "kb_rep s [key_char a]" using K assms(1,4) by (simp add: kb_rep_def)
  have "console_reach atomic s0 Poll s ([] @ typed [a]) []"
    by (rule console_reach.key [OF console_reach.start _ _ code assms(3) s]) simp_all
  then have "console_reach atomic s0 Take s ([] @ typed [a]) ([] @ emitted Poll)"
    by (rule console_reach.reader) (use kb_rep_length0 [OF rep] in \<open>simp add: reader_step.leave\<close>)
  moreover have "typing s codes"
  proof (rule typing_Cons(2) [OF assms(2)])
    obtain w where w: "char_write (key_char a) (s0\<lparr>io_trace := In 0x60 a # io_trace s0\<rparr>) = Some w"
      "s = outb PIC1_COMMAND PIC_EOI w"
      using keyboard_interrupt_eq [OF code] assms(3) s by (auto simp: eq_commute [of "Some s"])
    moreover have "w = put_char (key_char a) (s0\<lparr>io_trace := In 0x60 a # io_trace s0\<rparr>)"
      using w(1) char_write_put [OF assms(4), of "s0\<lparr>io_trace := In 0x60 a # io_trace s0\<rparr>"] Q
      by (simp add: queue_at_def)
    ultimately show "devices s = devices s0" "data_reads (io_trace s) = Suc (data_reads (io_trace s0))"
      by (simp_all add: put_char_frame)
  qed
  ultimately show ?thesis using rep by auto
qed

lemma a_key: "key_char 0x1E = 97" "key_char 0x30 = 98"
  by (simp_all add: key_char_def keys_def bytes_of_def)

section \<open>Properties\<close>

text \<open>C30: as long as no key is a backspace or has the scan code 0x80, with keyboard interrupts
  between any two memory accesses of the reader, the length's load and store included, and at
  most 100 characters not yet returned, the characters returned by successive \<open>kgetc\<close> calls are
  the first ones typed, in order, none lost, duplicated or invented, and the reader never
  indexes outside the buffer.\<close>

theorem kgetc_returns_prefix:
  assumes "console_reach atomic s0 pc s ins outs" "kb_rep s0 []"
  shows "(\<exists>w. ins = outs @ w) \<and>
    (pc = Take \<longrightarrow> 0 \<le> sint (reading_index s) \<and> sint (reading_index s) < int (length (buffer s)))"
proof -
  obtain w where w: "ins = outs @ w" "reader_inv atomic pc s w" using console_reach_inv [OF assms] by blast
  have "0 \<le> sint (reading_index s) \<and> sint (reading_index s) < int (length (buffer s))" if "pc = Take"
    using w(2) that sint_u8 [of "reading_index s"] by (simp add: queue_at_def)
  then show ?thesis using w(1) by blast
qed

text \<open>The witness types ``a'' and takes the reader through a whole call.\<close>

theorem kgetc_returns_prefix_witness:
  "\<exists>s. console_reach False (kernel_machine (\<lambda>_. 0) [0x1E]) Poll s [97] [97]"
proof -
  note K = kernel_machine_facts(1) [of "\<lambda>_. 0" "[0x1E]"]
  obtain s where "console_reach False (kernel_machine (\<lambda>_. 0) [0x1E]) Take s [97] []"
    using first_key [OF kernel_machine_facts(1,3), where a = "0x1E" and atomic = False] by (auto simp: a_key)
  then obtain s' c where s': "console_reach False (kernel_machine (\<lambda>_. 0) [0x1E]) Poll s' [97] [c]"
    using reader_returns [OF _ K] by fastforce
  then have "c = 97" using kgetc_returns_prefix [OF s' K] by simp
  then show ?thesis using s' by blast
qed



text \<open>C32: when a key arrives between that load and that store, its count is lost: the second
  of two characters is in the buffer, the length is 0, and the reader waits although a
  character typed has not been returned.\<close>

theorem kgetc_loses_count:
  assumes "kb_rep s0 []" "typing s0 (a # b # codes)" "plain_keys [a, b]" "key_char a \<noteq> 0" "key_char b \<noteq> 0"
  shows "\<exists>s. console_reach False s0 Poll s [key_char a, key_char b] [key_char a] \<and> buffer_length s = 0 \<and>
    queue_at s (unat (reading_index s)) [key_char b]"
proof -
  have "plain_keys [a]" using assms(3) by simp
  then obtain s where s: "console_reach False s0 Take s (typed [a]) []" "kb_rep s [key_char a]" "typing s (b # codes)"
    using first_key [OF assms(1,2)] assms(4) by blast
  define s1 where "s1 = s\<lparr>reading_index := reading_index s + 1\<rparr>"
  define c where "c = buffer s ! unat (reading_index s)"
  have Q: "queue_at s (unat (reading_index s)) [key_char a]" and l: "buffer_length s = 1"
    using s(2) by (simp_all add: kb_rep_def)
  have c: "c = key_char a" unfolding c_def using queue_at_tl(1) [OF Q _ refl refl] by simp
  have bumped: "advanced s1 c [key_char a]" using reader_inv_bump [OF Q s1_def] by (simp add: c)
  have "console_reach False s0 (Bump c) s (typed [a]) ([] @ emitted Take)"
  proof (rule console_reach.reader [OF s(1)])
    have "0 \<le> sint (reading_index s)" "sint (reading_index s) < int (length (buffer s))"
      using Q sint_u8(1) [of "reading_index s"] sint_u8(2) [of "reading_index s" 100] by (simp_all add: queue_at_def)
    then show "reader_step (Take, s) (Bump c, s)" unfolding c_def by (rule reader_step.take)
  qed
  then have "console_reach False s0 (Bumped c (reading_index s)) s (typed [a]) (([] @ emitted Take) @ emitted (Bump c))"
    by (rule console_reach.reader [OF _ reader_step.bump])
  then have "console_reach False s0 (Load c) s1 (typed [a]) ((([] @ emitted Take) @ emitted (Bump c)) @ emitted (Bumped c (reading_index s)))"
    unfolding s1_def by (rule console_reach.reader [OF _ reader_step.bumped])
  then have "console_reach False s0 (Store c (buffer_length s1)) s1 (typed [a])
      (((([] @ emitted Take) @ emitted (Bump c)) @ emitted (Bumped c (reading_index s))) @ emitted (Load c))"
    by (rule console_reach.reader [OF _ reader_step.load])
  then have r1: "console_reach False s0 (Store c 1) s1 (typed [a]) []" using l by (simp add: s1_def)
  have code: "b = devices s1 (io_trace s1) 0x60" "plain_keys [b]"
    using typing_Cons(1) [OF s(3)] assms(3) by (simp_all add: s1_def)
  obtain s2 where s2: "keyboard_interrupt s1 = Some s2"
    using bumped key_total [OF _ code] by (auto simp: advanced_def)
  define s3 where "s3 = s2\<lparr>buffer_length := 1 - 1\<rparr>"
  have "advanced s2 c ([key_char a] @ typed [b])" by (rule advanced_key [OF bumped _ code s2]) simp
  then have q: "unat (reading_index s3) \<le> 100" "queue_at s3 (unat (reading_index s3) mod 100) [key_char b]"
    using assms(5) queue_at_cong [of s3 s2] by (simp_all add: advanced_def s3_def)
  have "console_reach False s0 (Store c 1) s2 (typed [a] @ typed [b]) []"
    by (rule console_reach.key [OF r1 _ _ code s2]) simp_all
  then have "console_reach False s0 (Wrap c) s3 (typed [a] @ typed [b]) ([] @ emitted (Store c 1))"
    unfolding s3_def by (rule console_reach.reader [OF _ reader_step.store])
  then have w: "console_reach False s0 (Wrap c) s3 (typed [a] @ typed [b]) []" by simp
  obtain s4 where s4: "console_reach False s0 Poll s4 (typed [a] @ typed [b]) [c]" "buffer_length s4 = buffer_length s3"
    "queue_at s4 (unat (reading_index s4)) [key_char b]"
    using reader_wraps [OF w q] by auto
  then show ?thesis using assms(4,5) c by (auto simp: s3_def)
qed

theorem kgetc_loses_count_witness:
  "\<exists>s. console_reach False (kernel_machine (\<lambda>_. 0) [0x1E, 0x30]) Poll s [97, 98] [97] \<and> buffer_length s = 0"
  using kgetc_loses_count [OF kernel_machine_facts(1,3), where a = "0x1E" and b = "0x30"] by (auto simp: a_key)

end
