(* ===== verification/Kernel.thy ===== *)
theory Kernel
  imports ExecStart KeyboardSteps
begin

text \<open>
  The system-call dispatcher (\<open>syscall_handler\<close> of \<open>kernel/systemcalls.c\<close>, with the wrappers
  \<open>read\<close>, \<open>write\<close>, \<open>exec\<close> of \<open>stdlib/io.c\<close> and \<open>stdlib/process.c\<close> as seen by the kernel) and
  the boot sequence (\<open>_start\<close> of \<open>kernel/boot.c\<close>). A schedule of keyboard interrupts goes
  through the calls that wait. The gate 0x80 and the assembly of \<open>syscall.s\<close> and
  \<open>syscall_entry.s\<close> pass the registers on unchanged. The wrappers run in the caller: \<open>write\<close>
  and \<open>exit\<close> are called by user programs, whose memory accesses go through user pages only
  (\<open>uview\<close>) and whose string literals are where their linker put them (\<open>lit\<close>).
\<close>

abbreviation SYS_READ :: u64 where "SYS_READ \<equiv> 0"
abbreviation SYS_WRITE :: u64 where "SYS_WRITE \<equiv> 1"
abbreviation SYS_EXEC :: u64 where "SYS_EXEC \<equiv> 3"

datatype 's sys_result = Sys_return int "nat list" 's | Sys_user u64 u64 u64 u64 's

definition syscall_handler ::
  "u64 \<Rightarrow> cptr \<Rightarrow> cptr \<Rightarrow> u64 \<Rightarrow> nat list \<Rightarrow> 'a kernel_scheme \<Rightarrow> 'a kernel_scheme sys_result option" where
  "syscall_handler nr arg0 arg1 arg2 ns s =
     (if nr = SYS_READ then
        (case arg1 of Addr buf \<Rightarrow> do { (rlen, ns, s) \<leftarrow> kread buf arg2 ns s; Some (Sys_return rlen ns s) } | _ \<Rightarrow> None)
      else if nr = SYS_WRITE then
        do { (wlen, s) \<leftarrow> kwrite arg1 arg2 s; Some (Sys_return wlen ns s) }
      else if nr = SYS_EXEC then
        do { r \<leftarrow> exec_setup arg0 s;
             case r of Returned s \<Rightarrow> Some (Sys_return (-1) ns s)
             | User_entry ds sp cs ip s \<Rightarrow> Some (Sys_user ds sp cs ip s) }
      else Some (Sys_return (-1) ns s))"

text \<open>What user mode can load and store: lower-half pages whose entries allow it.\<close>

definition uaddr :: "'a machine_scheme \<Rightarrow> bool \<Rightarrow> u64 \<Rightarrow> u64 option" where
  "uaddr s write a =
     (if lower_half a
      then do { t \<leftarrow> mmu_translate s a;
                if tr_user t \<and> (write \<longrightarrow> tr_writable t) then Some (ptov s (tr_phys t)) else None }
      else None)"

definition uview :: "'a machine_scheme \<Rightarrow> cptr \<Rightarrow> u8 option" where
  "uview s = deref (\<lambda>a. map_option (mem s) (uaddr s False a))"

definition uwrite :: "u64 \<Rightarrow> u8 \<Rightarrow> 'a machine_scheme \<Rightarrow> 'a machine_scheme option" where
  "uwrite a v s = map_option (\<lambda>k. s\<lparr>mem := (mem s)(k := v)\<rparr>) (uaddr s True a)"

text \<open>\<open>exec\<close> of \<open>stdlib/process.c\<close>: the result of the call is not used.\<close>

definition exec :: "cptr \<Rightarrow> nat list \<Rightarrow> 'a kernel_scheme \<Rightarrow> 'a kernel_scheme sys_result option" where
  "exec modulename ns s = syscall_handler SYS_EXEC modulename (Addr 0) 0 ns s"

definition exit_call :: "(string \<Rightarrow> u64) \<Rightarrow> nat list \<Rightarrow> 'a kernel_scheme \<Rightarrow> 'a kernel_scheme sys_result option" where
  "exit_call lit ns s = exec (Addr (lit ''init'')) ns s"

definition read_call :: "cptr \<Rightarrow> cptr \<Rightarrow> u64 \<Rightarrow> nat list \<Rightarrow> 'a kernel_scheme \<Rightarrow> 'a kernel_scheme sys_result option" where
  "read_call filedes buf numchars ns s = syscall_handler SYS_READ filedes buf numchars ns s"

definition write_call :: "cptr \<Rightarrow> cptr \<Rightarrow> nat list \<Rightarrow> 'a kernel_scheme \<Rightarrow> 'a kernel_scheme sys_result option" where
  "write_call filedes str ns s = do { len \<leftarrow> strlen (uview s) str; syscall_handler SYS_WRITE filedes str len ns s }"

section \<open>Boot\<close>

datatype 's boot_result = Halted 's | Running u64 u64 u64 u64 's

definition start_setup :: "image \<Rightarrow> u64 \<Rightarrow> 'a system_scheme \<Rightarrow> 'a system_scheme option" where
  "start_setup im ihdr s =
     do { let s = s\<lparr>hdr := ihdr\<rparr>;
          s \<leftarrow> init_init s;
          let s = term_init s;
          s \<leftarrow> gdt_setup im s;
          let s = idt_setup im s;
          s \<leftarrow> mem_init s;
          let s = pic_init s;
          let s = pic_unmask_irq 1 s;
          let s = idt_set_handler 0x80 (syscall_entry im) IDT_TYPE_TRAP s;
          Some (idt_set_handler IRQ1_INTERRUPT (keyboard_handler im) IDT_TYPE_TRAP s) }"

definition start :: "image \<Rightarrow> u64 \<Rightarrow> 'a system_scheme \<Rightarrow> 'a system_scheme boot_result option" where
  "start im ihdr s =
     do { s \<leftarrow> start_setup im ihdr s;
          r \<leftarrow> exec (Lit ''sleep'' 0) [] s;
          case r of Sys_return _ _ s \<Rightarrow> Some (Halted s) | Sys_user ds sp cs ip s \<Rightarrow> Some (Running ds sp cs ip s) }"

end
