(* ===== verification/UserMode.thy ===== *)
theory UserMode
  imports Kernel
begin

text \<open>
  User memory under the system calls: a \<open>run_step F s s'\<close> changes only the screen, the console
  and bytes of the pages \<open>F\<close>. Reads and writes are such steps, and they keep the address
  space, the other user pages and what \<open>exec_setup\<close> relies on.
\<close>

section \<open>Steps of a running program\<close>

definition run_step :: "u64 set \<Rightarrow> 'a kernel_scheme \<Rightarrow> 'a kernel_scheme \<Rightarrow> bool" where
  "run_step F s s' \<longleftrightarrow> (\<forall>b. page_base b - hhdm_base s \<notin> insert VGA_BUFFER F \<longrightarrow> mem s' b = mem s b) \<and>
     term_inv s' \<and> term_ptr s' = term_ptr s \<and> cr0 s' = cr0 s \<and> cr3 s' = cr3 s \<and> hhdm_base s' = hhdm_base s \<and>
     freelist s' = freelist s \<and> hdr s' = hdr s"

lemma run_stepD:
  assumes "run_step F s s'"
  shows "term_inv s'" "term_ptr s' = term_ptr s" "cr3 s' = cr3 s" "hhdm_base s' = hhdm_base s" "cr0 s' = cr0 s"
    "freelist s' = freelist s" "hdr s' = hdr s"
    "page_base b - hhdm_base s \<notin> insert VGA_BUFFER F \<Longrightarrow> mem s' b = mem s b"
  using assms unfolding run_step_def by blast+

lemma run_step_refl: "term_inv s \<Longrightarrow> run_step F s s"
  by (simp add: run_step_def)

lemma run_step_trans: "run_step F s s1 \<Longrightarrow> run_step F s1 s2 \<Longrightarrow> run_step F s s2"
  by (simp add: run_step_def)

lemma run_step_mono: "run_step F s s' \<Longrightarrow> F \<subseteq> G \<Longrightarrow> run_step G s s'"
  unfolding run_step_def by blast

lemma vga_page:
  assumes "aligned 12 (hhdm_base s)" "term_ptr s = VGA_BUFFER + hhdm_base s" "b - term_ptr s < 4000"
  shows "page_base b - hhdm_base s = VGA_BUFFER"
proof -
  have "aligned 12 (VGA_BUFFER + hhdm_base s)" using vga_aligned assms(1) by (rule aligned_add)
  moreover have "b - term_ptr s < 0x1000" using assms(3) by (simp add: word_less_nat_alt)
  ultimately have "page_base (VGA_BUFFER + hhdm_base s + (b - term_ptr s)) = VGA_BUFFER + hhdm_base s"
    by (rule page_base_aligned_add)
  then show ?thesis using assms(2) by simp
qed

lemma run_step_read:
  assumes "read_step A s s'" "aligned 12 (hhdm_base s)" "term_ptr s = VGA_BUFFER + hhdm_base s"
    and "\<And>a. a \<in> A \<Longrightarrow> page_base a - hhdm_base s \<in> F"
  shows "run_step F s s'"
proof -
  note R = assms(1) [unfolded read_step_def]
  have "mem s' b = mem s b" if "page_base b - hhdm_base s \<notin> insert VGA_BUFFER F" for b
  proof -
    have "4000 \<le> b - term_ptr s" using vga_page [OF assms(2,3)] that by (metis insertCI not_le)
    moreover have "b \<notin> A" using assms(4) that by blast
    ultimately show ?thesis using R by blast
  qed
  then show ?thesis using R by (simp add: run_step_def)
qed

lemma run_step_puts:
  fixes s :: "'a kernel_scheme"
  assumes "vm_inv s root ps"
  shows "run_step F s (term_puts cs s)"
proof -
  note D = vm_invD [OF assms]
  have "outside_vga (term_ptr s) (mem s) (mem (term_puts cs s))" by (rule term_puts_outside [OF D(6)])
  moreover have "term_inv (term_puts cs s)" using term_puts_refines [OF D(6), of cs] by blast
  ultimately have "read_step {} s (term_puts cs s)" by (simp add: read_step_def outside_vga_def)
  then show ?thesis by (rule run_step_read [OF _ D(10,7)]) simp
qed

text \<open>A program's own store to one of its pages.\<close>

lemma run_step_store: "term_inv s \<Longrightarrow> page_base a - hhdm_base s \<in> F \<Longrightarrow> run_step F s (s\<lparr>mem := (mem s)(a := v)\<rparr>)"
  by (auto simp: run_step_def term_inv_def)

section \<open>What such steps keep\<close>

lemma run_step_page:
  assumes "run_step F s s'" "aligned 12 p" "aligned 12 (hhdm_base s)" "p \<notin> insert VGA_BUFFER F"
  shows "page_same (mem s) (mem s') (p + hhdm_base s)"
  unfolding page_same_def
proof (intro allI impI)
  fix x :: u64 assume "x < 0x1000"
  then have "page_base (p + hhdm_base s + x) = p + hhdm_base s"
    using page_base_aligned_add aligned_add assms(2,3) by blast
  then show "mem s' (p + hhdm_base s + x) = mem s (p + hhdm_base s + x)"
    using run_stepD(8) [OF assms(1)] assms(4) by simp
qed

lemma run_step_space:
  assumes inv: "vm_inv s root ps" and step: "run_step F s s'" and F: "F \<inter> (tables_of s root \<union> set ps) = {}"
  shows "vm_inv s' root ps" "tables_of s' root = tables_of s root"
    "lower_half va \<Longrightarrow> leaf_of s' root va = leaf_of s root va"
proof -
  note D = vm_invD [OF inv] and S = run_stepD [OF step]
  have t: "page_same (mem s) (mem s') (t + hhdm_base s)" if "t \<in> tables_of s root" for t
    by (rule run_step_page [OF step pt_tables_aligned [OF D(2) that] D(10)]) (use that F D(8) in auto)
  have q: "page_same (mem s) (mem s') (q + hhdm_base s)" if "q \<in> set ps" for q
    by (rule run_step_page [OF step _ D(10)]) (use that F D(1,9) in \<open>auto simp: pmem_rep_def page_ok_def\<close>)
  note U = tables_untouched [OF D(2,3) t]
  have "pmem_rep s' ps" by (rule pmem_rep_cong [OF D(1)]) (use q S in auto)
  then show "vm_inv s' root ps" using D U(1,2,3) S by (simp add: vm_inv_def)
  show "tables_of s' root = tables_of s root" "lower_half va \<Longrightarrow> leaf_of s' root va = leaf_of s root va"
    using U(3,4) S(4) by simp_all
qed

lemma run_step_user_page:
  assumes "vm_inv s root ps" "run_step F s s'" "F \<inter> (tables_of s root \<union> set ps) = {}" "F \<subseteq> Q" "lower_half va"
    and "user_page s root Q va w x c"
  shows "user_page s' root Q va w x c"
proof -
  note D = vm_invD [OF assms(1)] and S = run_stepD [OF assms(2)] and K = run_step_space [OF assms(1-3)]
  obtain e where e: "leaf_of s root va = Some e" "pte_user e" "pte_writable e = w" "pte_no_execute e = (\<not> x)"
    "pte_frame e \<notin> tables_of s root \<union> Q \<union> {VGA_BUFFER}"
    "\<forall>k<0x1000. mem s (pte_frame e + hhdm_base s + of_nat k) = c k"
    using assms(6) unfolding user_page_def by blast
  have "page_same (mem s) (mem s') (pte_frame e + hhdm_base s)"
    by (rule run_step_page [OF assms(2) aligned_pte_frame D(10)]) (use e(5) assms(4) in auto)
  then have "mem s' (pte_frame e + hhdm_base s' + of_nat k) = c k" if "k < 0x1000" for k
    using e(6) that S(4) by (simp add: page_same_def word_less_nat_alt unat_of_nat)
  then show ?thesis using e K(2) K(3) [OF assms(5)] unfolding user_page_def by auto
qed

lemma run_step_exec_ready:
  assumes "exec_ready s ps A l ms" "run_step F s s'" "F \<inter> (tables_of s (cr3 s) \<union> set ps) = {}"
    and "\<And>a. a \<in> A \<Longrightarrow> page_base a - hhdm_base s \<notin> F"
  shows "exec_ready s' ps A l ms"
proof -
  note R = assms(1) [unfolded exec_ready_def] and S = run_stepD [OF assms(2)]
  have inv: "vm_inv s (cr3 s) ps" using R by blast
  note K = run_step_space [OF inv assms(2,3)]
  have "mem s' a = mem s a" if "a \<in> A" for a
    using S(8) [of a] R assms(4) [OF that] that by (auto simp: apart_def)
  then have "boot_info s' A l ms" using R S(7) by (simp add: boot_info_def)
  moreover have "apart s' (cr3 s) ps A" "tables_reachable s' (cr3 s)"
    using R K(2) S(4) by (simp_all add: apart_def tables_reachable_def)
  ultimately show ?thesis using K(1) R S(3) by (simp add: exec_ready_def)
qed

section \<open>Loads and stores of a user page\<close>

lemma vaddr_stable:
  assumes inv: "vm_inv s (cr3 s) ps" "cr3 s < 2 ^ 52" and s': "cr3 s' = cr3 s" "hhdm_base s' = hhdm_base s"
    and t: "\<And>t. t \<in> tables_of s (cr3 s) \<Longrightarrow> page_same (mem s) (mem s') (t + hhdm_base s)"
    and a: "lower_half a" "leaf_of s (cr3 s) a = Some e" "write \<longrightarrow> pte_writable e"
  shows "vaddr s' write a = Some (pte_frame e + hhdm_base s + take_bit 12 a)"
proof -
  note D = vm_invD [OF inv(1)] and U = tables_untouched [OF vm_invD(2,3) [OF inv(1)] t]
  have "pt_leaf (mem s') (hhdm_base s) (cr3 s) a = Some e" using U(4) a(1,2) by simp
  then have "mmu_translate s' a = Some \<lparr>tr_phys = pte_frame e + (a AND 0xFFF), tr_user = pte_user e,
      tr_writable = pte_writable e, tr_executable = \<not> pte_no_execute e\<rparr>"
    using mmu_leaf [OF U(2) a(1)] cr3_root [OF D(11) inv(2)] by (simp add: mmu_translate_def s')
  moreover have "\<not> upper_half a" using a(1) by (simp add: lower_half_def upper_half_def)
  ultimately show ?thesis using a(1,3) by (simp add: vaddr_def ptov_def page_offset s' algebra_simps)
qed

lemma uaddr_page:
  assumes "vm_inv s (cr3 s) ps" "cr3 s < 2 ^ 52" "lower_half a" "leaf_of s (cr3 s) a = Some e"
    "pte_user e" "write \<longrightarrow> pte_writable e"
  shows "uaddr s write a = Some (pte_frame e + hhdm_base s + take_bit 12 a)"
  using mmu_translate_leaf [OF assms(1-3)] assms(3-6) by (simp add: uaddr_def ptov_def algebra_simps)

text \<open>The bytes from \<open>va\<close> to \<open>va + n - 1\<close>, in one page with the entry \<open>e\<close>.\<close>

lemma page_bytes:
  assumes "lower_half va" "leaf_of s root va = Some e" "unat (take_bit 12 va) + i < 0x1000"
  shows "lower_half (va + of_nat i)" "leaf_of s root (va + of_nat i) = Some e"
    "pte_frame e + hhdm_base s + take_bit 12 (va + of_nat i) = pte_frame e + hhdm_base s + of_nat (unat (take_bit 12 va) + i)"
  using within_page [OF assms(3)] assms(1,2) leaf_same_page [of va "va + of_nat i"] by simp_all

section \<open>Strings in user memory\<close>

definition user_text :: "'a kmem_scheme \<Rightarrow> u64 set \<Rightarrow> u64 \<Rightarrow> u8 list \<Rightarrow> bool" where
  "user_text s Q va cs \<longleftrightarrow> lower_half va \<and> unat (take_bit 12 va) + length cs < 0x1000 \<and> 0 \<notin> set cs \<and>
     (\<exists>w x c. user_page s (cr3 s) Q va w x c \<and> (\<forall>i\<le>length cs. c (unat (take_bit 12 va) + i) = (cs @ [0]) ! i))"

lemma user_textE:
  assumes "user_text s Q va cs"
  obtains e where "leaf_of s (cr3 s) va = Some e" "pte_user e" "pte_frame e \<notin> tables_of s (cr3 s) \<union> Q \<union> {VGA_BUFFER}"
    "\<And>i. i \<le> length cs \<Longrightarrow> mem s (pte_frame e + hhdm_base s + of_nat (unat (take_bit 12 va) + i)) = (cs @ [0]) ! i"
proof -
  obtain w x c where c: "user_page s (cr3 s) Q va w x c" "\<forall>i\<le>length cs. c (unat (take_bit 12 va) + i) = (cs @ [0]) ! i"
    "unat (take_bit 12 va) + length cs < 0x1000"
    using assms by (auto simp: user_text_def)
  obtain e where e: "leaf_of s (cr3 s) va = Some e" "pte_user e" "pte_frame e \<notin> tables_of s (cr3 s) \<union> Q \<union> {VGA_BUFFER}"
    "\<forall>k<0x1000. mem s (pte_frame e + hhdm_base s + of_nat k) = c k"
    using c(1) unfolding user_page_def by blast
  have "mem s (pte_frame e + hhdm_base s + of_nat (unat (take_bit 12 va) + i)) = (cs @ [0]) ! i" if "i \<le> length cs" for i
  proof -
    have "unat (take_bit 12 va) + i < 0x1000" using c(3) that by simp
    then show ?thesis using e(4) c(2) that by metis
  qed
  then show thesis using that e by blast
qed

lemma cstring_addr:
  "(\<And>i. i \<le> length cs \<Longrightarrow> rd (Addr (a + of_nat i)) = Some ((cs @ [0]) ! i)) \<Longrightarrow> 0 \<notin> set cs \<Longrightarrow> cstring rd (Addr a) cs"
proof (induction cs arbitrary: a)
  case Nil
  then show ?case using Nil.prems(1) [of 0] by simp
next
  case (Cons c cs)
  have "rd (Addr (a + 1 + of_nat i)) = Some ((cs @ [0]) ! i)" if "i \<le> length cs" for i
    using Cons.prems(1) [of "Suc i"] that by (simp add: add.assoc)
  then have "cstring rd (Addr (a + 1)) cs" using Cons.IH Cons.prems(2) by simp
  then show ?case using Cons.prems(1) [of 0] Cons.prems(2) by auto
qed

lemma user_text_cstring:
  assumes "vm_inv s (cr3 s) ps" "cr3 s < 2 ^ 52" "user_text s Q va cs"
  shows "cstring (uview s) (Addr va) cs"
proof (rule cstring_addr)
  have T: "lower_half va" "unat (take_bit 12 va) + length cs < 0x1000" "0 \<notin> set cs"
    using assms(3) by (simp_all add: user_text_def)
  show "0 \<notin> set cs" by (rule T)
  obtain e where e: "leaf_of s (cr3 s) va = Some e" "pte_user e" "pte_frame e \<notin> tables_of s (cr3 s) \<union> Q \<union> {VGA_BUFFER}"
    "\<And>i. i \<le> length cs \<Longrightarrow> mem s (pte_frame e + hhdm_base s + of_nat (unat (take_bit 12 va) + i)) = (cs @ [0]) ! i"
    by (rule user_textE [OF assms(3)]) (rule that)
  fix i assume i: "i \<le> length cs"
  then have "unat (take_bit 12 va) + i < 0x1000" using T(2) by simp
  note P = page_bytes [OF T(1) e(1) this]
  show "uview s (Addr (va + of_nat i)) = Some ((cs @ [0]) ! i)"
    using uaddr_page [OF assms(1,2) P(1,2) e(2), of False] e(4) [OF i] P(3) by (simp add: uview_def)
qed

lemma user_text_readable:
  fixes s :: "'a kernel_scheme"
  assumes inv: "vm_inv s (cr3 s) ps" "cr3 s < 2 ^ 52" and text': "user_text s Q va cs"
  shows "readable_text s va cs"
  unfolding readable_text_def
proof (intro allI impI)
  fix s' :: "'a kernel_scheme" and i
  assume out: "outside_vga (term_ptr s) (mem s) (mem s')" and s': "cr3 s' = cr3 s" "hhdm_base s' = hhdm_base s"
    and i: "i < length cs"
  note D = vm_invD [OF inv(1)]
  have T: "lower_half va" "unat (take_bit 12 va) + i < 0x1000" using text' i by (simp_all add: user_text_def)
  obtain e where e: "leaf_of s (cr3 s) va = Some e" "pte_user e" "pte_frame e \<notin> tables_of s (cr3 s) \<union> Q \<union> {VGA_BUFFER}"
    "\<And>i. i \<le> length cs \<Longrightarrow> mem s (pte_frame e + hhdm_base s + of_nat (unat (take_bit 12 va) + i)) = (cs @ [0]) ! i"
    by (rule user_textE [OF text']) (rule that)
  have same: "page_same (mem s) (mem s') (p + hhdm_base s)" if "aligned 12 p" "p \<noteq> VGA_BUFFER" for p
    unfolding page_same_def
  proof (intro allI impI)
    fix x :: u64 assume "x < 0x1000"
    then have "page_base (p + hhdm_base s + x) = p + hhdm_base s"
      using page_base_aligned_add aligned_add that(1) D(10) by blast
    then have "4000 \<le> p + hhdm_base s + x - term_ptr s"
      using vga_page [OF D(10,7), of "p + hhdm_base s + x"] that(2) by (metis add_diff_cancel_right' not_le)
    then show "mem s' (p + hhdm_base s + x) = mem s (p + hhdm_base s + x)" using out by (simp add: outside_vga_def)
  qed
  have t: "page_same (mem s) (mem s') (t + hhdm_base s)" if "t \<in> tables_of s (cr3 s)" for t
    by (rule same [OF pt_tables_aligned [OF D(2) that]]) (use that D(8) in blast)
  note P = page_bytes [OF T(1) e(1) T(2)]
  have "vaddr s' False (va + of_nat i) = Some (pte_frame e + hhdm_base s + of_nat (unat (take_bit 12 va) + i))"
    using vaddr_stable [OF inv s' t P(1,2), of False] unfolding P(3) by simp
  moreover have "page_same (mem s) (mem s') (pte_frame e + hhdm_base s)" by (rule same) (use e(3) in auto)
  then have "mem s' (pte_frame e + hhdm_base s + of_nat (unat (take_bit 12 va) + i)) = cs ! i"
    using e(4) [of i] i T(2) by (simp add: page_same_def word_less_nat_alt unat_of_nat nth_append del: of_nat_add)
  ultimately show "vread s' (va + of_nat i) = Some (cs ! i)" by (simp add: vread_def)
qed

section \<open>The system calls on user memory\<close>

lemma user_write:
  assumes "vm_inv s (cr3 s) ps" "cr3 s < 2 ^ 52" "user_text s Q va cs"
  shows "write_call filedes (Addr va) ns s = Some (Sys_return (int (length cs)) ns (term_puts cs s))"
proof -
  have "length cs < 0x1000" using assms(3) by (simp add: user_text_def)
  then show ?thesis
    using strlen_cstring [OF user_text_cstring [OF assms]] kwrite_text [OF user_text_readable [OF assms]] vm_invD(6) [OF assms(1)]
    by (simp add: write_call_def syscall_handler_def)
qed

text \<open>What the console holds and what is still to be typed, in one sequence.\<close>

definition console_input :: "'a kernel_scheme \<Rightarrow> nat list \<Rightarrow> u8 list \<Rightarrow> bool" where
  "console_input s ns input \<longleftrightarrow> (\<exists>q codes. kb_rep s q \<and> typing s codes \<and> plain_keys codes \<and>
     sum_list ns = length codes \<and> input = q @ typed codes \<and> paced (length q) ns codes)"

lemma console_input_cong:
  assumes "console_input s ns input" "kb_rep s' = kb_rep s" "devices s' = devices s" "data_reads (io_trace s') = data_reads (io_trace s)"
  shows "console_input s' ns input"
  using assms unfolding console_input_def typing_def by simp

lemma data_reads_puts: "data_reads (io_trace (term_puts cs s)) = data_reads (io_trace s)" "devices (term_puts cs s) = devices s"
  by (induction cs arbitrary: s) simp_all

lemma console_input_puts: "console_input s ns input \<Longrightarrow> console_input (term_puts cs s) ns input"
  by (rule console_input_cong) (simp_all add: data_reads_puts kb_rep_def queue_at_def fun_eq_iff)

lemma user_read:
  fixes s :: "'a kernel_scheme"
  assumes inv: "vm_inv s (cr3 s) ps" "cr3 s < 2 ^ 52" and con: "console_input s ns input" "n \<le> length input"
    and va: "lower_half va" "unat (take_bit 12 va) + n \<le> 0x1000" and e: "leaf_of s (cr3 s) va = Some e" "pte_writable e"
    and f: "pte_frame e \<notin> tables_of s (cr3 s) \<union> {VGA_BUFFER}"
  shows "\<exists>ns' s'. read_call filedes (Addr va) (of_nat n) ns s = Some (Sys_return (int n) ns' s') \<and>
    console_input s' ns' (drop n input) \<and> run_step {pte_frame e} s s' \<and>
    (\<forall>j<0x1000. mem s' (pte_frame e + hhdm_base s + of_nat j) =
       (if unat (take_bit 12 va) \<le> j \<and> j < unat (take_bit 12 va) + n then input ! (j - unat (take_bit 12 va))
        else mem s (pte_frame e + hhdm_base s + of_nat j)))"
proof -
  let ?o = "unat (take_bit 12 va)" and ?P = "pte_frame e + hhdm_base s"
  let ?at = "\<lambda>i. ?P + of_nat (?o + i)"
  note D = vm_invD [OF inv(1)]
  have P: "aligned 12 ?P" using D(10) by (intro aligned_add) simp_all
  have inj: "?P + of_nat i = ?P + of_nat j \<longleftrightarrow> i = j" if "i < 0x1000" "j < 0x1000" for i j
    using that by (simp add: word_of_nat_eq_iff take_bit_nat_eq_self)
  have page: "page_base (?P + of_nat j) = ?P" if "j < 0x1000" for j
    by (rule page_base_aligned_add [OF P]) (use that in \<open>simp add: word_less_nat_alt unat_of_nat\<close>)
  have high: "4000 \<le> ?P + of_nat j - term_ptr s" if "j < 0x1000" for j
    using vga_page [OF D(10,7), of "?P + of_nat j"] page [OF that] f by (auto simp: not_le [symmetric])
  have at: "?o + i < 0x1000" if "i < n" for i using that va(2) by simp
  have "writable_buffer s va n ?at"
    unfolding writable_buffer_def
  proof (intro conjI allI impI)
    show "inj_on ?at {..<n}" by (rule inj_onI) (use inj at in \<open>simp del: of_nat_add\<close>)
    show "4000 \<le> ?at i - term_ptr s" if "i < n" for i by (rule high [OF at [OF that]])
    fix s' :: "'a kernel_scheme" and i
    assume same: "\<forall>b. 4000 \<le> b - term_ptr s \<longrightarrow> b \<notin> ?at ` {..<n} \<longrightarrow> mem s' b = mem s b"
      and s': "cr3 s' = cr3 s" "hhdm_base s' = hhdm_base s" and i: "i < n"
    have "page_same (mem s) (mem s') (t + hhdm_base s)" if t: "t \<in> tables_of s (cr3 s)" for t
      unfolding page_same_def
    proof (intro allI impI)
      fix x :: u64 assume x: "x < 0x1000"
      let ?b = "t + hhdm_base s + x"
      have b: "page_base ?b = t + hhdm_base s"
        by (rule page_base_aligned_add [OF aligned_add [OF pt_tables_aligned [OF D(2) t] D(10)] x])
      then have "4000 \<le> ?b - term_ptr s"
        using vga_page [OF D(10,7), of ?b] t D(8) by (auto simp: not_le [symmetric])
      moreover have "?b \<notin> ?at ` {..<n}"
      proof
        assume "?b \<in> ?at ` {..<n}"
        then obtain k where "k < n" "?b = ?at k" by blast
        then have "t + hhdm_base s = ?P" using page [OF at] b by metis
        then show False using t f by simp
      qed
      ultimately show "mem s' ?b = mem s ?b" using same by blast
    qed
    note V = vaddr_stable [OF inv s' this] and B = page_bytes [OF va(1) e(1) at [OF i]]
    show "vaddr s' True (va + of_nat i) = Some (?at i)"
      using V [OF _ B(1,2), of True] e(2) unfolding B(3) by simp
  qed
  note W = this
  have small: "n < 2 ^ 31" using va(2) by simp
  obtain q codes where con': "kb_rep s q" "typing s codes" "plain_keys codes" "sum_list ns = length codes"
    "input = q @ typed codes" "paced (length q) ns codes" "n \<le> length (q @ typed codes)"
    using con unfolding console_input_def by auto
  obtain ns' s' q' codes' where r: "kread va (of_nat n) ns s = Some (int n, ns', s')" "kb_rep s' q'" "typing s' codes'"
    "plain_keys codes'" "sum_list ns' = length codes'" "q' @ typed codes' = drop n (q @ typed codes)"
    "read_step (?at ` {..<n}) s s'" "\<forall>j<n. mem s' (?at j) = (q @ typed codes) ! j" "paced (length q') ns' codes'"
    using kread_fifo [OF con'(1) D(6) con'(2-4,6,7) W small] by blast
  have "console_input s' ns' (drop n input)"
    unfolding console_input_def
    by (rule exI [of _ q'], rule exI [of _ codes']) (use r con' in auto)
  moreover have "run_step {pte_frame e} s s'"
    by (rule run_step_read [OF r(7) D(10,7)]) (use page [OF at] in auto)
  moreover have "mem s' (?P + of_nat j) = (if ?o \<le> j \<and> j < ?o + n then input ! (j - ?o) else mem s (?P + of_nat j))"
    if j: "j < 0x1000" for j
  proof (cases "?o \<le> j \<and> j < ?o + n")
    case True
    then have "j - ?o < n" "?o + (j - ?o) = j" by auto
    then show ?thesis using r(8) con'(5) True by metis
  next
    case False
    have "?P + of_nat j \<notin> ?at ` {..<n}"
    proof
      assume "?P + of_nat j \<in> ?at ` {..<n}"
      then obtain k where "k < n" "?P + of_nat j = ?at k" by blast
      then have "j = ?o + k" using inj [OF j at] by blast
      then show False using False \<open>k < n\<close> by simp
    qed
    then have "mem s' (?P + of_nat j) = mem s (?P + of_nat j)" using r(7) high [OF j] unfolding read_step_def by blast
    then show ?thesis by (simp only: False if_False)
  qed
  ultimately show ?thesis using r(1) by (auto simp: read_call_def syscall_handler_def)
qed

end
