(* ===== verification/UserProgs.thy ===== *)
theory UserProgs
  imports UserMode
begin

text \<open>
  The user programs (\<open>init/init.c\<close>, \<open>echo/echo.c\<close>, \<open>wait/wait.c\<close>) on the system calls. The
  linker's choice of an address for each string literal is a parameter, \<open>lit\<close>; so are the
  address of the local array \<open>modname\<close> of \<open>init\<close> and the value of the uninitialised pointer
  \<open>buf\<close> of \<open>echo\<close>. The store to \<open>modname[5]\<close>, one past the array, is a store to that byte of
  the stack frame. A schedule of keyboard interrupts goes through the calls.
\<close>

abbreviation STDIN :: cptr where "STDIN \<equiv> Addr 0"
abbreviation STDOUT :: cptr where "STDOUT \<equiv> Addr 1"

text \<open>A program that ends in its endless loop, or is replaced by another.\<close>

datatype 's user_result = Spinning "nat list" 's | Entered u64 u64 u64 u64 's

fun after_exec :: "'s sys_result \<Rightarrow> 's user_result" where
  "after_exec (Sys_return r ns s) = Spinning ns s"
| "after_exec (Sys_user ds sp cs ip s) = Entered ds sp cs ip s"

text \<open>The results of \<open>read\<close> and \<open>write\<close>, which never enter a program, are not used.\<close>

fun sys_done :: "'s sys_result \<Rightarrow> (nat list \<times> 's) option" where
  "sys_done (Sys_return r ns s) = Some (ns, s)"
| "sys_done (Sys_user ds sp cs ip s) = None"

section \<open>\<open>init\<close>\<close>

definition init_valid :: "(string \<Rightarrow> u64) \<Rightarrow> u64 \<Rightarrow> 'a machine_scheme \<Rightarrow> bool option" where
  "init_valid lit modname s =
     do { c \<leftarrow> strcmp (uview s) (Addr modname) (Addr (lit ''init''));
          if c = 0 then Some True
          else do { c \<leftarrow> strcmp (uview s) (Addr modname) (Addr (lit ''echo''));
                    if c = 0 then Some True
                    else do { c \<leftarrow> strcmp (uview s) (Addr modname) (Addr (lit ''wait'')); Some (c = 0) } } }"

partial_function (option) init_loop ::
  "(string \<Rightarrow> u64) \<Rightarrow> u64 \<Rightarrow> nat list \<Rightarrow> 'a kernel_scheme \<Rightarrow> (nat list \<times> 'a kernel_scheme) option" where
  "init_loop lit modname ns s =
     do { r \<leftarrow> read_call STDIN (Addr modname) 4 ns s;
          (ns, s) \<leftarrow> sys_done r;
          s \<leftarrow> uwrite (modname + 5) 0 s;
          valid \<leftarrow> init_valid lit modname s;
          if valid then Some (ns, s)
          else do { r \<leftarrow> write_call STDOUT (Addr (lit ''   Invalid command.\<newline>$ '')) ns s;
                    (ns, s) \<leftarrow> sys_done r;
                    init_loop lit modname ns s } }"

definition init_start ::
  "(string \<Rightarrow> u64) \<Rightarrow> u64 \<Rightarrow> nat list \<Rightarrow> 'a kernel_scheme \<Rightarrow> 'a kernel_scheme user_result option" where
  "init_start lit modname ns s =
     do { r \<leftarrow> write_call STDOUT (Addr (lit ''Init start!\<newline>'')) ns s;
          (ns, s) \<leftarrow> sys_done r;
          r \<leftarrow> write_call STDOUT (Addr (lit ''$ '')) ns s;
          (ns, s) \<leftarrow> sys_done r;
          (ns, s) \<leftarrow> init_loop lit modname ns s;
          r \<leftarrow> exec (Addr modname) ns s;
          Some (after_exec r) }"

section \<open>\<open>echo\<close>\<close>

fun echo_loop :: "nat \<Rightarrow> u64 \<Rightarrow> nat list \<Rightarrow> 'a kernel_scheme \<Rightarrow> (nat list \<times> 'a kernel_scheme) option" where
  "echo_loop 0 buf ns s = Some (ns, s)"
| "echo_loop (Suc k) buf ns s =
     do { r \<leftarrow> read_call STDIN (Addr buf) 20 ns s;
          (ns, s) \<leftarrow> sys_done r;
          echo_loop k buf ns s }"

definition echo_start ::
  "(string \<Rightarrow> u64) \<Rightarrow> u64 \<Rightarrow> nat list \<Rightarrow> 'a kernel_scheme \<Rightarrow> 'a kernel_scheme user_result option" where
  "echo_start lit buf ns s =
     do { r \<leftarrow> write_call STDOUT (Addr (lit ''In echo!\<newline>$'')) ns s;
          (ns, s) \<leftarrow> sys_done r;
          (ns, s) \<leftarrow> echo_loop 20 buf ns s;
          r \<leftarrow> write_call STDOUT (Addr buf) ns s;
          (ns, s) \<leftarrow> sys_done r;
          r \<leftarrow> exit_call lit ns s;
          case r of Sys_return _ ns s \<Rightarrow> None | Sys_user ds sp cs ip s \<Rightarrow> Some (Entered ds sp cs ip s) }"

section \<open>\<open>wait\<close>\<close>

function wait_delay :: "int \<Rightarrow> int" where
  "wait_delay i = (if i < 5000 then wait_delay (i + 1) else i)"
  by pat_completeness auto
termination by (relation "measure (\<lambda>i. nat (5000 - i))") auto

declare wait_delay.simps [simp del]

text \<open>The call of \<open>exit\<close> after the endless loop is not reached.\<close>

definition wait_start :: "(string \<Rightarrow> u64) \<Rightarrow> nat list \<Rightarrow> 'a kernel_scheme \<Rightarrow> 'a kernel_scheme user_result option" where
  "wait_start lit ns s =
     do { let i = wait_delay 0;
          r \<leftarrow> write_call STDOUT (Addr (lit ''finished sleep\<newline>'')) ns s;
          (ns, s) \<leftarrow> sys_done r;
          Some (Spinning ns s) }"

end
