(* ===== verification/Shell.thy ===== *)
theory Shell
  imports UserProgs
begin

text \<open>
  The shell in \<open>init/init.c\<close>: its loop reads commands of four characters until one of them is
  valid, whatever the schedule of the keyboard interrupts; the \<open>exec\<close> that follows faults.
  \<open>shell_ready\<close> is its memory: the array \<open>modname\<close> in a user page of its own that the store to
  \<open>modname[5]\<close> stays in, with a zero after the four characters, and the literals in others.
\<close>

definition commands :: "u8 list set" where
  "commands = {bytes_of ''init'', bytes_of ''echo'', bytes_of ''wait''}"

definition init_literals :: "string set" where
  "init_literals = {''Init start!\<newline>'', ''$ '', ''init'', ''echo'', ''wait'', ''   Invalid command.\<newline>$ ''}"

definition shell_ready :: "(string \<Rightarrow> u64) \<Rightarrow> u64 \<Rightarrow> u64 list \<Rightarrow> pt_entry \<Rightarrow> 'a kernel_scheme \<Rightarrow> bool" where
  "shell_ready lit modname ps e s \<longleftrightarrow> vm_inv s (cr3 s) ps \<and> cr3 s < 2 ^ 52 \<and> lower_half modname \<and>
     unat (take_bit 12 modname) + 6 \<le> 0x1000 \<and> leaf_of s (cr3 s) modname = Some e \<and> pte_user e \<and> pte_writable e \<and>
     pte_frame e \<notin> tables_of s (cr3 s) \<union> set ps \<union> {VGA_BUFFER} \<and>
     mem s (pte_frame e + hhdm_base s + of_nat (unat (take_bit 12 modname) + 4)) = 0 \<and>
     (\<forall>str \<in> init_literals. user_text s (insert (pte_frame e) (set ps)) (lit str) (bytes_of str))"

lemma user_text_step:
  assumes "vm_inv s (cr3 s) ps" "run_step F s s'" "F \<inter> (tables_of s (cr3 s) \<union> set ps) = {}" "F \<subseteq> Q" "user_text s Q va cs"
  shows "user_text s' Q va cs"
  using assms(5) run_step_user_page [OF assms(1-4)] run_stepD(3) [OF assms(2)] unfolding user_text_def by metis

lemma shell_ready_step:
  assumes "shell_ready lit modname ps e s" "run_step {pte_frame e} s s'"
    and "mem s' (pte_frame e + hhdm_base s + of_nat (unat (take_bit 12 modname) + 4)) = 0"
  shows "shell_ready lit modname ps e s'"
proof -
  note R = assms(1) [unfolded shell_ready_def] and S = run_stepD [OF assms(2)]
  have inv: "vm_inv s (cr3 s) ps" and F: "{pte_frame e} \<inter> (tables_of s (cr3 s) \<union> set ps) = {}" using R by auto
  note K = run_step_space [OF inv assms(2) F]
  have "user_text s' (insert (pte_frame e) (set ps)) (lit str) (bytes_of str)" if "str \<in> init_literals" for str
    by (rule user_text_step [OF inv assms(2) F]) (use R that in auto)
  then show ?thesis using R K assms(3) S(3,4) unfolding shell_ready_def by auto
qed

lemma shell_ready_puts:
  fixes s :: "'a kernel_scheme"
  assumes "shell_ready lit modname ps e s"
  shows "shell_ready lit modname ps e (term_puts cs s)"
proof (rule shell_ready_step [OF assms])
  note R = assms [unfolded shell_ready_def]
  have inv: "vm_inv s (cr3 s) ps" using R by blast
  show "run_step {pte_frame e} s (term_puts cs s)" by (rule run_step_puts [OF inv])
  let ?b = "pte_frame e + hhdm_base s + of_nat (unat (take_bit 12 modname) + 4)"
  have "page_base ?b = pte_frame e + hhdm_base s"
    by (rule page_base_aligned_add [OF aligned_add [OF aligned_pte_frame vm_invD(10) [OF inv]]])
      (use R in \<open>simp add: word_less_nat_alt unat_of_nat del: of_nat_add\<close>)
  then have "page_base ?b - hhdm_base s \<notin> insert VGA_BUFFER {}" using R by simp
  then have "mem (term_puts cs s) ?b = mem s ?b" by (rule run_stepD(8) [OF run_step_puts [OF inv]])
  then show "mem (term_puts cs s) ?b = 0" using R by simp
qed

section \<open>One command\<close>

lemma shell_reads:
  fixes s :: "'a kernel_scheme"
  assumes ready: "shell_ready lit modname ps e s" and con: "console_input s ns input" "4 \<le> length input" "0 \<notin> set (take 4 input)"
  shows "\<exists>ns' s1 s2. read_call STDIN (Addr modname) 4 ns s = Some (Sys_return 4 ns' s1) \<and> uwrite (modname + 5) 0 s1 = Some s2 \<and>
    shell_ready lit modname ps e s2 \<and> console_input s2 ns' (drop 4 input) \<and> run_step {pte_frame e} s s2 \<and>
    user_text s2 (set ps) modname (take 4 input)"
proof -
  note R = ready [unfolded shell_ready_def]
  let ?o = "unat (take_bit 12 modname)" and ?P = "pte_frame e + hhdm_base s"
  have inv: "vm_inv s (cr3 s) ps" "cr3 s < 2 ^ 52" and low: "lower_half modname" and o6: "?o + 6 \<le> 0x1000" using R by blast+
  have F: "{pte_frame e} \<inter> (tables_of s (cr3 s) \<union> set ps) = {}" using R by auto
  have P: "aligned 12 ?P" using vm_invD(10) [OF inv(1)] by (intro aligned_add) simp_all
  obtain ns' s1 where s1: "read_call STDIN (Addr modname) (of_nat 4) ns s = Some (Sys_return (int 4) ns' s1)"
    "console_input s1 ns' (drop 4 input)" "run_step {pte_frame e} s s1"
    "\<forall>j<0x1000. mem s1 (?P + of_nat j) = (if ?o \<le> j \<and> j < ?o + 4 then input ! (j - ?o) else mem s (?P + of_nat j))"
    using user_read [OF inv con(1,2) low, of e STDIN] R by auto
  note S1 = run_stepD [OF s1(3)] and K1 = run_step_space [OF inv(1) s1(3) F]
  have byte4: "mem s1 (?P + of_nat (?o + 4)) = 0" using s1(4) [rule_format, of "?o + 4"] R by simp
  have ready1: "shell_ready lit modname ps e s1" by (rule shell_ready_step [OF ready s1(3) byte4])
  note R1 = ready1 [unfolded shell_ready_def]
  have leaf1: "leaf_of s1 (cr3 s1) modname = Some e" using R1 by blast
  have o5: "?o + 5 < 0x1000" using o6 by simp
  note B = page_bytes [OF low leaf1 o5]
  let ?b = "?P + of_nat (?o + 5)"
  define s2 where "s2 = s1\<lparr>mem := (mem s1)(?b := 0)\<rparr>"
  have "uaddr s1 True (modname + of_nat 5) = Some ?b"
    using uaddr_page [OF _ _ B(1,2), of ps True] R1 B(3) S1(4) by simp
  then have w: "uwrite (modname + 5) 0 s1 = Some s2" by (simp add: uwrite_def s2_def)
  have "page_base ?b = ?P"
    by (rule page_base_aligned_add [OF P]) (use o5 in \<open>simp add: word_less_nat_alt unat_of_nat del: of_nat_add\<close>)
  then have step2: "run_step {pte_frame e} s1 s2"
    unfolding s2_def using S1(1,4) by (intro run_step_store) simp_all
  have m2: "mem s2 (?P + of_nat j) = (if j = ?o + 5 then 0 else mem s1 (?P + of_nat j))" if "j < 0x1000" for j
  proof -
    have "?P + of_nat j = ?b \<longleftrightarrow> j = ?o + 5"
      using that o5 by (simp add: word_of_nat_eq_iff take_bit_nat_eq_self del: of_nat_add)
    then show ?thesis by (simp add: s2_def del: of_nat_add)
  qed
  have "mem s2 (pte_frame e + hhdm_base s1 + of_nat (?o + 4)) = 0"
    using m2 [of "?o + 4"] byte4 o6 S1(4) by (simp del: of_nat_add)
  then have ready2: "shell_ready lit modname ps e s2" by (rule shell_ready_step [OF ready1 step2])
  note R2 = ready2 [unfolded shell_ready_def]
  have "user_page s2 (cr3 s2) (set ps) modname True (\<not> pte_no_execute e) (\<lambda>k. mem s2 (?P + of_nat k))"
    unfolding user_page_def using R2 S1(4) by (intro exI [of _ e]) (simp add: s2_def)
  moreover have "mem s2 (?P + of_nat (?o + i)) = (take 4 input @ [0]) ! i" if "i \<le> 4" for i
  proof (cases "i < 4")
    case True
    then show ?thesis using m2 [of "?o + i"] s1(4) [rule_format, of "?o + i"] o6 con(2)
      by (simp add: nth_append del: of_nat_add)
  next
    case False
    then show ?thesis using m2 [of "?o + 4"] byte4 o6 con(2) that by (simp add: nth_append del: of_nat_add)
  qed
  ultimately have "\<exists>w x c. user_page s2 (cr3 s2) (set ps) modname w x c \<and>
      (\<forall>i\<le>length (take 4 input). c (?o + i) = (take 4 input @ [0]) ! i)"
    by (intro exI [of _ True] exI [of _ "\<not> pte_no_execute e"] exI [of _ "\<lambda>k. mem s2 (?P + of_nat k)"]) (simp del: of_nat_add)
  then have "user_text s2 (set ps) modname (take 4 input)"
    using low o6 con(2,3) unfolding user_text_def by simp
  moreover have "console_input s2 ns' (drop 4 input)"
    by (rule console_input_cong [OF s1(2)]) (simp_all add: s2_def kb_rep_def queue_at_def fun_eq_iff)
  ultimately show ?thesis
    using s1(1) w ready2 run_step_trans [OF s1(3) step2] by auto
qed

lemma init_valid_command:
  assumes "shell_ready lit modname ps e s" "user_text s (set ps) modname cmd"
  shows "init_valid lit modname s = Some (cmd \<in> commands)"
proof -
  note R = assms(1) [unfolded shell_ready_def]
  have inv: "vm_inv s (cr3 s) ps" "cr3 s < 2 ^ 52" using R by blast+
  have len: "length cmd < 2147483648" using assms(2) by (simp add: user_text_def)
  have "strcmp (uview s) (Addr modname) (Addr (lit str)) = Some (str_order cmd (bytes_of str))"
    if "str \<in> init_literals" "length str < 2147483648" for str
  proof (rule strcmp_order [OF user_text_cstring [OF inv assms(2)] _ len])
    show "cstring (uview s) (Addr (lit str)) (bytes_of str)"
      by (rule user_text_cstring [OF inv]) (use R that(1) in blast)
    show "length (bytes_of str) < 2147483648" using that(2) by (simp add: bytes_of_def)
  qed
  then show ?thesis by (simp add: init_valid_def init_literals_def commands_def str_order_eq_0)
qed

section \<open>The loop\<close>

lemma shell_writes:
  fixes s :: "'a kernel_scheme"
  assumes "shell_ready lit modname ps e s" "str \<in> init_literals"
  shows "write_call filedes (Addr (lit str)) ns s = Some (Sys_return (int (length (bytes_of str))) ns (term_puts (bytes_of str) s))"
proof -
  note R = assms(1) [unfolded shell_ready_def]
  show ?thesis by (rule user_write [of s ps]) (use R assms(2) in blast)+
qed

lemma init_loop_accepts:
  fixes s :: "'a kernel_scheme"
  assumes "cmd \<in> commands"
  shows "shell_ready lit modname ps e s \<Longrightarrow> console_input s ns (concat cmds @ cmd @ rest) \<Longrightarrow>
    \<forall>c \<in> set cmds. length c = 4 \<and> 0 \<notin> set c \<and> c \<notin> commands \<Longrightarrow>
    \<exists>ns' s'. init_loop lit modname ns s = Some (ns', s') \<and> shell_ready lit modname ps e s' \<and>
      console_input s' ns' rest \<and> run_step {pte_frame e} s s' \<and> user_text s' (set ps) modname cmd"
proof (induction cmds arbitrary: s ns)
  case Nil
  have cmd: "length cmd = 4" "0 \<notin> set cmd" using assms by (auto simp: commands_def bytes_of_def)
  obtain ns' s1 s2 where s2: "read_call STDIN (Addr modname) 4 ns s = Some (Sys_return 4 ns' s1)"
    "uwrite (modname + 5) 0 s1 = Some s2" "shell_ready lit modname ps e s2" "console_input s2 ns' rest"
    "run_step {pte_frame e} s s2" "user_text s2 (set ps) modname cmd"
    using shell_reads [OF Nil.prems(1,2)] cmd by auto
  then show ?case
    using init_valid_command [OF s2(3,6)] assms by (subst init_loop.simps) simp
next
  case (Cons c cmds)
  have c: "length c = 4" "0 \<notin> set c" "c \<notin> commands" using Cons.prems(3) by auto
  obtain ns1 s1 s2 where s2: "read_call STDIN (Addr modname) 4 ns s = Some (Sys_return 4 ns1 s1)"
    "uwrite (modname + 5) 0 s1 = Some s2" "shell_ready lit modname ps e s2"
    "console_input s2 ns1 (concat cmds @ cmd @ rest)" "run_step {pte_frame e} s s2" "user_text s2 (set ps) modname c"
    using shell_reads [OF Cons.prems(1,2)] c by auto
  let ?s3 = "term_puts (bytes_of ''   Invalid command.\<newline>$ '') s2"
  have w: "write_call STDOUT (Addr (lit ''   Invalid command.\<newline>$ '')) ns1 s2 =
      Some (Sys_return (int (length (bytes_of ''   Invalid command.\<newline>$ ''))) ns1 ?s3)"
    by (rule shell_writes [OF s2(3)]) (simp add: init_literals_def)
  have inv: "vm_inv s2 (cr3 s2) ps" using s2(3) unfolding shell_ready_def by blast
  have cs: "\<forall>c \<in> set cmds. length c = 4 \<and> 0 \<notin> set c \<and> c \<notin> commands" using Cons.prems(3) by simp
  obtain ns' s' where s': "init_loop lit modname ns1 ?s3 = Some (ns', s')" "shell_ready lit modname ps e s'"
    "console_input s' ns' rest" "run_step {pte_frame e} ?s3 s'" "user_text s' (set ps) modname cmd"
    using Cons.IH [OF shell_ready_puts [OF s2(3), of "bytes_of ''   Invalid command.\<newline>$ ''"] console_input_puts [OF s2(4)] cs] by (elim exE conjE) (rule that)
  have "init_loop lit modname ns s = init_loop lit modname ns1 ?s3"
    using s2(1,2) init_valid_command [OF s2(3,6)] c(3) w by (subst init_loop.simps) simp
  moreover have "run_step {pte_frame e} s s'"
    using run_step_trans [OF s2(5) run_step_trans [OF run_step_puts [OF inv] s'(4)]] .
  ultimately show ?case using s'(1,2,3,5) by auto
qed

end
