(* ===== verification/ShellExample.thy ===== *)
theory ShellExample
  imports Shell
begin

text \<open>
  A machine that runs \<open>init\<close>: \<open>modname\<close> at the start of one user page, the literals 32 bytes
  apart in another, the three modules, and keys to be typed. The properties of the user programs.
\<close>

section \<open>The machine\<close>

definition shell_pages :: "u64 list" where
  "shell_pages = [0x2000, 0x3000, 0x4000, 0x5000, 0x6000, 0x7000, 0x8000, 0x9000]"

abbreviation lit_base :: u64 where "lit_base \<equiv> 0x500001000"

definition shell1 :: kernel where
  "shell1 = foldr pmem_free shell_pages (kernel_machine (words_mem module_words) [])"
definition shell2 :: kernel where
  "shell2 = snd (the (vm_map 0x1000 user_base True True False shell1))"
definition shell3 :: kernel where
  "shell3 = snd (the (vm_map 0x1000 lit_base True True False shell2))"

definition shell_lits :: "string list" where
  "shell_lits = [''Init start!\<newline>'', ''$ '', ''init'', ''echo'', ''wait'', ''   Invalid command.\<newline>$ '']"

definition shell_lit :: "string \<Rightarrow> u64" where
  "shell_lit str = lit_base + 32 * of_nat (length (takeWhile (\<lambda>x. x \<noteq> str) shell_lits))"

definition lit_byte :: "nat \<Rightarrow> u8" where
  "lit_byte j = (let k = j div 32; i = j mod 32
     in if k < length shell_lits \<and> i < length (shell_lits ! k) then of_char (shell_lits ! k ! i) else 0)"

definition lit_frame :: u64 where
  "lit_frame = pte_frame (the (leaf_of shell3 0x1000 lit_base))"

definition shell_mem :: mem where
  "shell_mem = (\<lambda>b. if page_base b = lit_frame + 0xFFFF800000000000 then lit_byte (unat (take_bit 12 b)) else mem shell3 b)"

definition shell_machine :: "u8 list \<Rightarrow> kernel" where
  "shell_machine codes = shell3\<lparr>mem := shell_mem, io_trace := [],
     devices := (\<lambda>tr p. if p = 0x60 \<and> data_reads tr < length codes then codes ! data_reads tr else 0),
     buffer := replicate 100 0, buffer_length := 0, reading_index := 0, writing_index := 0\<rparr>"

lemma shell_pages_ok: "pages_ok shell_pages" "\<forall>p \<in> set shell_pages. unat p < 0x100000000" "length shell_pages = 8"
  by (simp_all add: pages_ok_def shell_pages_def)

lemma shell1_facts:
  "vm_inv shell1 0x1000 shell_pages" "tables_of shell1 0x1000 = {0x1000}" "hhdm_base shell1 = 0xFFFF800000000000"
  "cr3 shell1 = 0x1000" "hdr shell1 = 0xFFFFFFFF80001000"
  "\<And>b. 0xFFFFFFFF80000000 \<le> b \<Longrightarrow> mem shell1 b = words_mem module_words b"
proof -
  let ?s = "kernel_machine (words_mem module_words) []"
  have "page_zero (mem ?s) (0x1000 + 0xFFFF800000000000)"
    by (simp add: kernel_machine_def page_zero_def words_mem_def word_less_nat_alt word_le_nat_alt unat_word_ariths)
  note E = empty_lower_inv [OF this]
  have "vm_inv ?s 0x1000 []" "tables_of ?s 0x1000 = {0x1000}"
    by (rule E; simp add: kernel_machine_def term_inv_def)+
  note G = free_pages_inv [OF this _ shell_pages_ok(1,2), folded shell1_def]
  have c: "cr3 ?s = 0x1000" "hdr ?s = 0xFFFFFFFF80001000" "mem ?s = words_mem module_words" "hhdm_base ?s = 0xFFFF800000000000"
    by (simp_all add: kernel_machine_def)
  note F = G [OF c(4)]
  then show "vm_inv shell1 0x1000 shell_pages" "tables_of shell1 0x1000 = {0x1000}" "hhdm_base shell1 = 0xFFFF800000000000"
    "cr3 shell1 = 0x1000" "\<And>b. 0xFFFFFFFF80000000 \<le> b \<Longrightarrow> mem shell1 b = words_mem module_words b"
    unfolding c by blast+
  show "hdr shell1 = 0xFFFFFFFF80001000" using F hdr_of_more [of shell1 ?s] c(2) by simp
qed

lemma shell_addrs: "lower_half lit_base" "\<not> same_page user_base lit_base" "\<not> same_page lit_base user_base"
  by (simp_all add: lower_half_def same_page_def drop_bit_eq_div take_bit_eq_mod word_unat_eq_iff)

lemma shell3_facts:
  "\<exists>e e' qs. grown (set shell_pages) 0x1000 shell1 shell3 \<and> vm_inv shell3 0x1000 qs \<and> set qs \<subseteq> set shell_pages \<and>
    leaf_of shell3 0x1000 user_base = Some e \<and> pte_frame e \<in> set shell_pages \<and>
    user_page shell3 0x1000 (insert (pte_frame e') (set qs)) user_base True False (\<lambda>_. 0) \<and>
    leaf_of shell3 0x1000 lit_base = Some e' \<and> pte_frame e' \<in> set shell_pages \<and> pte_frame e' \<noteq> pte_frame e \<and>
    user_page shell3 0x1000 (set qs) lit_base True False (\<lambda>_. 0)"
proof -
  note F = shell1_facts
  have un: "leaf_of shell1 0x1000 va = None" if "lower_half va" for va by (rule only_root_unmapped [OF F(1,2) that])
  obtain s2 n where s2: "vm_map 0x1000 user_base True True False shell1 = Some (True, s2)" "n \<le> 4"
    "vm_inv s2 0x1000 (drop n shell_pages)" "grown (set shell_pages) 0x1000 shell1 s2"
    "user_page s2 0x1000 (set (drop n shell_pages)) user_base True False (\<lambda>_. 0)"
    "\<exists>e. leaf_of s2 0x1000 user_base = Some e \<and> pte_frame e \<in> set shell_pages"
    "\<forall>va'. lower_half va' \<and> \<not> same_page user_base va' \<longrightarrow> leaf_of s2 0x1000 va' = leaf_of shell1 0x1000 va'"
    using map_user_page [OF F(1) user_base_lower un [OF user_base_lower]] shell_pages_ok(3) by auto
  have two: "shell2 = s2" by (simp add: shell2_def s2(1))
  obtain e where e: "leaf_of s2 0x1000 user_base = Some e" "pte_frame e \<in> set shell_pages" using s2(6) by blast
  then have e_free: "pte_frame e \<notin> set (drop n shell_pages)" using s2(5) by (auto simp: user_page_def)
  have none: "leaf_of s2 0x1000 lit_base = None" using s2(7) shell_addrs un by simp
  have room: "4 \<le> length (drop n shell_pages)" using s2(2) shell_pages_ok(3) by simp
  obtain s3 k where s3: "vm_map 0x1000 lit_base True True False s2 = Some (True, s3)"
    "vm_inv s3 0x1000 (drop k (drop n shell_pages))" "grown (set (drop n shell_pages)) 0x1000 s2 s3"
    "user_page s3 0x1000 (set (drop k (drop n shell_pages))) lit_base True False (\<lambda>_. 0)"
    "\<exists>e. leaf_of s3 0x1000 lit_base = Some e \<and> pte_frame e \<in> set (drop n shell_pages)"
    "\<forall>va'. lower_half va' \<and> \<not> same_page lit_base va' \<longrightarrow> leaf_of s3 0x1000 va' = leaf_of s2 0x1000 va'"
    using map_user_page [OF s2(3) shell_addrs(1) none room] by blast
  have three: "shell3 = s3" by (simp add: shell3_def two s3(1))
  obtain e' where e': "leaf_of s3 0x1000 lit_base = Some e'" "pte_frame e' \<in> set (drop n shell_pages)" using s3(5) by blast
  let ?qs = "drop k (drop n shell_pages)"
  have sub: "set (drop n shell_pages) \<subseteq> set shell_pages" "set ?qs \<subseteq> set (drop n shell_pages)" by (rule set_drop_subset)+
  have same: "leaf_of s3 0x1000 user_base = leaf_of s2 0x1000 user_base" using s3(6) shell_addrs user_base_lower by blast
  have "user_page s3 0x1000 (insert (pte_frame e') (set ?qs)) user_base True False (\<lambda>_. 0)"
    by (rule user_page_grown [OF s2(5) s3(3) same order_refl]) (use e'(2) sub in auto)
  moreover have "grown (set shell_pages) 0x1000 shell1 s3"
    using grown_trans [OF s2(4) grown_mono [OF s3(3) sub(1)]] .
  moreover have "pte_frame e' \<in> set shell_pages" "pte_frame e' \<noteq> pte_frame e" using e' e_free sub by auto
  ultimately show ?thesis
    unfolding three using s3(2,4) e e'(1) sub same by (intro exI [of _ e] exI [of _ e'] exI [of _ ?qs]) auto
qed

lemma shell_lit_at: "k < 6 \<Longrightarrow> shell_lit (shell_lits ! k) = lit_base + 32 * of_nat k"
proof -
  assume "k < 6"
  then have "k = 0 \<or> k = 1 \<or> k = 2 \<or> k = 3 \<or> k = 4 \<or> k = 5" by linarith
  then show ?thesis by (elim disjE) (simp_all add: shell_lit_def shell_lits_def)
qed

lemma shell_lits_set: "init_literals = set shell_lits" "length shell_lits = 6" "str \<in> set shell_lits \<Longrightarrow> length str < 32 \<and> CHR 0x00 \<notin> set str"
  by (auto simp: init_literals_def shell_lits_def)

lemma lit_byte_at:
  "k < 6 \<Longrightarrow> i \<le> length (shell_lits ! k) \<Longrightarrow> lit_byte (32 * k + i) = (bytes_of (shell_lits ! k) @ [0]) ! i"
proof -
  assume k: "k < 6" "i \<le> length (shell_lits ! k)"
  then have "length (shell_lits ! k) < 32" using shell_lits_set(2,3) nth_mem by metis
  then have "i < 32" using k(2) by simp
  then have "(32 * k + i) div 32 = k" "(32 * k + i) mod 32 = i" by simp_all
  then show ?thesis using k shell_lits_set(2) by (simp add: lit_byte_def Let_def bytes_of_def nth_append)
qed

lemma shell_machine_facts:
  "\<exists>e qs. shell_ready shell_lit user_base qs e (shell_machine codes) \<and>
    exec_ready (shell_machine codes) qs high 0xFFFFFFFF80003000 (example_modules module_words) \<and>
    (\<forall>a \<in> high. page_base a - hhdm_base (shell_machine codes) \<noteq> pte_frame e)"
proof -
  let ?s = "shell_machine codes" and ?t = "shell3\<lparr>mem := shell_mem\<rparr>" and ?r = "0x1000 :: u64"
  obtain e e' qs where S: "grown (set shell_pages) ?r shell1 shell3" "vm_inv shell3 ?r qs" "set qs \<subseteq> set shell_pages"
    "leaf_of shell3 ?r user_base = Some e" "pte_frame e \<in> set shell_pages"
    "user_page shell3 ?r (insert (pte_frame e') (set qs)) user_base True False (\<lambda>_. 0)"
    "leaf_of shell3 ?r lit_base = Some e'" "pte_frame e' \<in> set shell_pages" "pte_frame e' \<noteq> pte_frame e"
    "user_page shell3 ?r (set qs) lit_base True False (\<lambda>_. 0)"
    using shell3_facts by blast
  note F = shell1_facts
  have c3: "hhdm_base shell3 = 0xFFFF800000000000" "cr3 shell3 = ?r" "hdr shell3 = 0xFFFFFFFF80001000"
    using S(1) F hdr_of_more [of shell3 shell1] by (simp_all add: grown_def same_cpu_def)
  have lf: "lit_frame = pte_frame e'" by (simp add: lit_frame_def S(7))
  have p: "lit_frame \<notin> tables_of shell3 ?r \<union> set qs" "lit_frame \<noteq> VGA_BUFFER"
    using S(7,10) by (auto simp: user_page_def lf)
  have al: "aligned 12 lit_frame" by (simp add: lf)
  have other: "shell_mem b = mem shell3 b" if "page_base b \<noteq> lit_frame + hhdm_base shell3" for b
    using that by (simp add: shell_mem_def c3)
  have W: "vm_inv ?t ?r qs" "tables_of ?t ?r = tables_of shell3 ?r" "lower_half b \<Longrightarrow> leaf_of ?t ?r b = leaf_of shell3 ?r b" for b
    using vm_inv_page_write(1-3) [OF S(2) p(1) al, of shell_mem] other by blast+
  have f: "mem ?s = shell_mem" "hhdm_base ?s = hhdm_base shell3" "cr3 ?s = ?r" "hdr ?s = 0xFFFFFFFF80001000"
    by (simp_all add: shell_machine_def c3)
  have inv: "vm_inv ?s ?r qs"
    using W(1) by (simp add: vm_inv_def pmem_rep_def page_ok_def term_inv_def shell_machine_def)
  have tab: "tables_of ?s ?r = tables_of shell3 ?r" using W(2) by (simp add: f)
  have leaf: "leaf_of ?s ?r va = leaf_of shell3 ?r va" if "lower_half va" for va using W(3) [OF that] by (simp add: f)
  have small: "unat x < 0x100000000" if "x \<in> {0x1000, VGA_BUFFER} \<union> set shell_pages" for x :: u64
    using that shell_pages_ok(2) by auto
  have far: "page_base a - hhdm_base ?s \<noteq> x" if "a \<in> high" "x \<in> {0x1000, VGA_BUFFER} \<union> set shell_pages" for a x
    using page_base_far [of a x] that small by (simp add: f(2) c3(1))
  have tables: "tables_of ?s ?r \<subseteq> {0x1000, VGA_BUFFER} \<union> set shell_pages" using S(1) F(2) by (auto simp: tab grown_def)
  have "safe shell1 ?r (set shell_pages) high" using far F(2,3) by (auto simp: safe_def f(2) c3(1))
  note same = safe_grown(2) [OF this S(1) vm_invD(10) [OF F(1)]]
  have high: "mem ?s b = words_mem module_words b" if "0xFFFFFFFF80000000 \<le> b" for b
  proof -
    have "page_base b - hhdm_base ?s \<noteq> lit_frame" using far [of b lit_frame] that S(8) by (simp add: lf)
    then have "page_base b \<noteq> lit_frame + hhdm_base shell3" by (auto simp: f(2))
    then show ?thesis using other [of b] same [of b] F(6) [OF that] that by (simp add: f(1))
  qed
  have ready: "exec_ready ?s qs high 0xFFFFFFFF80003000 (example_modules module_words)"
    unfolding exec_ready_def f(3)
  proof (intro conjI inv)
    show "boot_info ?s high 0xFFFFFFFF80003000 (example_modules module_words)"
      by (rule module_boot_info [OF _ module_words_ok subset_refl f(4)]) (use high in blast)
    show "apart ?s 0x1000 qs high" unfolding apart_def using far tables S(3) by blast
    have "x \<noteq> 0 \<and> x + 0xFFFF800000000000 \<noteq> 0" if "x \<in> {0x1000, VGA_BUFFER} \<union> set shell_pages" for x :: u64
      using that by (auto simp: shell_pages_def)
    then show "tables_reachable ?s 0x1000" unfolding tables_reachable_def f(2) c3(1) using tables [unfolded f(2) c3(1)] by blast
  qed simp
  have P: "aligned 12 (pte_frame x + hhdm_base shell3)" for x
    using vm_invD(10) [OF S(2)] by (intro aligned_add) simp_all
  have at: "page_base (pte_frame x + hhdm_base shell3 + of_nat j) = pte_frame x + hhdm_base shell3"
    "take_bit 12 (pte_frame x + hhdm_base shell3 + of_nat j) = of_nat j" if "j < 0x1000" for x j
    using page_base_aligned_add [OF P] take_bit_aligned_add [OF P] that
    by (simp_all add: word_less_nat_alt unat_of_nat)
  have zero: "mem ?s (pte_frame e + hhdm_base shell3 + of_nat j) = 0" if "j < 0x1000" for j
    using other [of "pte_frame e + hhdm_base shell3 + of_nat j"] at [OF that] S(4,6,9) that
    by (auto simp: user_page_def f(1) lf)
  have lits: "mem ?s (pte_frame e' + hhdm_base shell3 + of_nat j) = lit_byte j" if "j < 0x1000" for j
    using at [OF that, of e'] that by (simp add: f(1) shell_mem_def lf c3 unat_of_nat)
  have "user_text ?s (insert (pte_frame e) (set qs)) (shell_lit str) (bytes_of str)" if "str \<in> init_literals" for str
  proof -
    have mem_lits: "str \<in> set shell_lits" using that unfolding shell_lits_set(1) .
    then obtain k where k: "k < 6" "str = shell_lits ! k" unfolding in_set_conv_nth shell_lits_set(2) by blast
    have str: "length str < 32" "CHR 0x00 \<notin> set str" using shell_lits_set(3) [OF mem_lits] by blast+
    have z: "unat (take_bit 12 lit_base) = 0" by simp
    have b: "unat (take_bit 12 lit_base) + 32 * k < 0x1000" using k z by simp
    note V = within_page [OF b]
    have va: "shell_lit str = lit_base + of_nat (32 * k)" using shell_lit_at [OF k(1)] k(2) by simp
    have o: "unat (take_bit 12 (shell_lit str)) = 32 * k" unfolding va V(2) using k(1) by (simp add: unat_of_nat del: of_nat_mult)
    have low: "lower_half (shell_lit str)" unfolding va V(4) by (rule shell_addrs)
    have lv: "leaf_of ?s ?r (shell_lit str) = Some e'" using leaf [OF low] leaf_same_page [OF V(5)] S(7) unfolding va by simp
    have "user_page ?s ?r (insert (pte_frame e) (set qs)) (shell_lit str) True False lit_byte"
      using S(7,9,10) lits lv unfolding user_page_def tab by (auto simp: f(2))
    moreover have "\<forall>i\<le>length (bytes_of str). lit_byte (32 * k + i) = (bytes_of str @ [0]) ! i"
      using lit_byte_at [OF k(1)] k(2) by (simp add: bytes_of_def)
    moreover have "0 \<notin> set (bytes_of str)" using str(2) by (force simp: bytes_of_def of_char_eq_0)
    ultimately show ?thesis using low str(1) k(1) unfolding user_text_def f(3) o by (auto simp: bytes_of_def)
  qed
  moreover have "leaf_of ?s ?r user_base = Some e" using leaf [OF user_base_lower] S(4) by simp
  moreover have "pte_user e" "pte_writable e" "pte_frame e \<notin> tables_of ?s ?r \<union> set qs \<union> {VGA_BUFFER}"
    using S(4,6) unfolding tab by (auto simp: user_page_def)
  moreover have "mem ?s (pte_frame e + hhdm_base ?s + of_nat (unat (take_bit 12 user_base) + 4)) = 0"
    using zero [of 4] by (simp add: f(2))
  ultimately have "shell_ready shell_lit user_base qs e ?s"
    using inv user_base_lower unfolding shell_ready_def f(3) by (auto simp: take_bit_eq_mod)
  moreover have "\<forall>a \<in> high. page_base a - hhdm_base ?s \<noteq> pte_frame e" using far S(5) by blast
  ultimately show ?thesis using ready by blast
qed

section \<open>Other programs\<close>

lemma wait_delay_5000: "i \<le> 5000 \<Longrightarrow> wait_delay i = 5000"
proof (induction "nat (5000 - i)" arbitrary: i)
  case 0
  then show ?case by (subst wait_delay.simps) simp
next
  case (Suc n)
  then show ?case by (subst wait_delay.simps) simp
qed

text \<open>\<open>wait\<close> counts to 5000, prints its line and spins.\<close>

lemma wait_start_spins:
  fixes s :: "'a kernel_scheme"
  assumes "vm_inv s (cr3 s) ps" "cr3 s < 2 ^ 52" "user_text s Q (lit ''finished sleep\<newline>'') (bytes_of ''finished sleep\<newline>'')"
  shows "wait_start lit ns s = Some (Spinning ns (term_puts (bytes_of ''finished sleep\<newline>'') s))"
  unfolding wait_start_def Let_def user_write [OF assms] by (simp only: Option.bind.simps sys_done.simps prod.case)

section \<open>Properties\<close>

text \<open>C5: the loop of \<open>init\<close> ends as soon as a valid command has been typed: however many invalid
  commands of four characters come first, it returns with that command in \<open>modname\<close> and the
  rest of the input unread. Then the \<open>exec\<close> of the command faults, because the name is in the
  memory that \<open>exec_setup\<close> unmaps: the shell starts no program. Conditions: the keys are neither
  backspace nor the scan code 0x80, they arrive while \<open>kread\<close> waits, and the keyboard buffer
  never has to hold more than its 100 characters (\<open>paced\<close>); \<open>modname[4]\<close>, which the source
  never sets, is zero, as in a stack page that \<open>exec_setup\<close> has just cleared; and the store
  \<open>modname[5] = 0\<close>, one past the array, is taken as the store to that byte of the stack page.\<close>

theorem init_accepts_command:
  fixes s :: "'a kernel_scheme"
  assumes "shell_ready lit modname ps e s" "console_input s ns (concat cmds @ cmd @ rest)"
    and "\<forall>c \<in> set cmds. length c = 4 \<and> 0 \<notin> set c \<and> c \<notin> commands" "cmd \<in> commands"
    and "exec_ready s ps A l ms" "ms \<noteq> []" "\<forall>a \<in> A. page_base a - hhdm_base s \<noteq> pte_frame e"
  shows "\<exists>ns' s'. init_loop lit modname ns (term_puts (bytes_of ''$ '') (term_puts (bytes_of ''Init start!\<newline>'') s)) = Some (ns', s') \<and>
    cstring (uview s') (Addr modname) cmd \<and> console_input s' ns' rest \<and>
    exec (Addr modname) ns' s' = None \<and> init_start lit modname ns s = None"
proof -
  let ?a = "''Init start!\<newline>''" and ?b = "''$ ''"
  let ?s1 = "term_puts (bytes_of ?a) s"
  let ?s2 = "term_puts (bytes_of ?b) ?s1"
  note R1 = shell_ready_puts [OF assms(1), of "bytes_of ?a"]
  note R2 = shell_ready_puts [OF R1, of "bytes_of ?b"]
  note R = assms(1) [unfolded shell_ready_def] and R1' = R1 [unfolded shell_ready_def]
  have inv: "vm_inv s (cr3 s) ps" "vm_inv ?s1 (cr3 ?s1) ps" using R R1' by blast+
  obtain ns' s' where s': "init_loop lit modname ns ?s2 = Some (ns', s')" "shell_ready lit modname ps e s'"
    "console_input s' ns' rest" "run_step {pte_frame e} ?s2 s'" "user_text s' (set ps) modname cmd"
    using init_loop_accepts [OF assms(4) R2 console_input_puts [OF console_input_puts [OF assms(2)]] assms(3)]
    by (elim exE conjE) (rule that)
  note R3 = s'(2) [unfolded shell_ready_def]
  have step: "run_step {pte_frame e} s s'"
    using run_step_trans [OF run_step_puts [OF inv(1)] run_step_trans [OF run_step_puts [OF inv(2)] s'(4)]] .
  have "exec_ready s' ps A l ms"
    by (rule run_step_exec_ready [OF assms(5) step]) (use R assms(7) in auto)
  then have "exec_setup (Addr modname) s' = None"
    by (rule exec_setup_user_name [OF _ assms(6)]) (use R in blast)
  then have x: "exec (Addr modname) ns' s' = None" by (simp add: exec_def syscall_handler_def)
  have "write_call STDOUT (Addr (lit ?a)) ns s = Some (Sys_return (int (length (bytes_of ?a))) ns ?s1)"
    by (rule shell_writes [OF assms(1)]) (simp add: init_literals_def)
  moreover have "write_call STDOUT (Addr (lit ?b)) ns ?s1 = Some (Sys_return (int (length (bytes_of ?b))) ns ?s2)"
    by (rule shell_writes [OF R1]) (simp add: init_literals_def)
  ultimately have "init_start lit modname ns s = None"
    using s'(1) x by (simp only: init_start_def Option.bind.simps sys_done.simps prod.case)
  moreover have "cstring (uview s') (Addr modname) cmd"
    by (rule user_text_cstring [OF _ _ s'(5)]) (use R3 in blast)+
  ultimately show ?thesis using s'(1,3) x by blast
qed

text \<open>The witness types ``exit'', which is not a command, and ``echo'', at four different times.\<close>

theorem init_accepts_command_witness:
  "\<exists>ns' s'. init_loop shell_lit user_base [0, 3, 1, 4] (term_puts (bytes_of ''$ '') (term_puts (bytes_of ''Init start!\<newline>'')
      (shell_machine [0x12, 0x2D, 0x17, 0x14, 0x12, 0x2E, 0x23, 0x18]))) = Some (ns', s') \<and>
    cstring (uview s') (Addr user_base) (bytes_of ''echo'') \<and> console_input s' ns' [] \<and> exec (Addr user_base) ns' s' = None \<and>
    init_start shell_lit user_base [0, 3, 1, 4] (shell_machine [0x12, 0x2D, 0x17, 0x14, 0x12, 0x2E, 0x23, 0x18]) = None"
proof -
  let ?codes = "[0x12, 0x2D, 0x17, 0x14, 0x12, 0x2E, 0x23, 0x18] :: u8 list"
  let ?s = "shell_machine ?codes"
  have t: "typed ?codes = bytes_of ''exit'' @ bytes_of ''echo''" by (simp add: key_char_def keys_def bytes_of_def)
  have k: "kb_rep ?s []" "typing ?s ?codes"
    by (simp_all add: kb_rep_def queue_at_def shell_machine_def typing_def)
  have "console_input ?s [0, 3, 1, 4] (concat [bytes_of ''exit''] @ bytes_of ''echo'' @ [])"
    unfolding console_input_def by (rule exI [of _ "[]"], rule exI [of _ ?codes]) (use k t in \<open>simp add: bytes_of_def\<close>)
  moreover obtain e qs where f: "shell_ready shell_lit user_base qs e ?s"
    "exec_ready ?s qs high 0xFFFFFFFF80003000 (example_modules module_words)"
    "\<forall>a \<in> high. page_base a - hhdm_base ?s \<noteq> pte_frame e"
    using shell_machine_facts by blast
  moreover have "\<forall>c \<in> set [bytes_of ''exit'']. length c = 4 \<and> 0 \<notin> set c \<and> c \<notin> commands"
    by (simp add: commands_def bytes_of_def)
  moreover have "bytes_of ''echo'' \<in> commands" by (simp add: commands_def)
  moreover have "example_modules module_words \<noteq> []" by (simp add: example_modules_def)
  ultimately show ?thesis
    using init_accepts_command [of shell_lit user_base qs e ?s "[0, 3, 1, 4]" "[bytes_of ''exit'']" "bytes_of ''echo''" "[]"] by blast
qed

end
