(* ===== verification/SyscallType.thy ===== *)
theory SyscallType
  imports Kernel
begin

text \<open>
  Well-formed console states: the keyboard buffer has 100 characters, both indices point into
  it and the cursor is on the screen. Every keyboard interrupt and every \<open>read\<close> and \<open>write\<close>
  system call that returns keeps this. These variables are record fields of the model, apart
  from its byte memory; \<open>vars\<close> are the addresses at which the linker puts them, and the system
  calls considered are those whose stores stay off them, which \<open>kread\<close> does not check.
\<close>

definition console_ok :: "'a kernel_scheme \<Rightarrow> bool" where
  "console_ok s \<longleftrightarrow> length (buffer s) = 100 \<and> unat (reading_index s) < 100 \<and> unat (writing_index s) < 100 \<and> term_inv s"

text \<open>
  An event of the running system: a key, any character, backspace or other code; a read into a
  buffer off \<open>vars\<close>, during which keys may be pressed; a write of anything; a system call with
  a number that has no function.
\<close>

inductive console_event :: "u64 set \<Rightarrow> 'a kernel_scheme \<Rightarrow> 'a kernel_scheme \<Rightarrow> bool" for vars where
  key: "keyboard_interrupt s = Some s' \<Longrightarrow> console_event vars s s'"
| reads: "syscall_handler SYS_READ fd (Addr buf) (of_nat n) ns s = Some (Sys_return r ns' s') \<Longrightarrow>
    writable_buffer s buf n at \<Longrightarrow> n < 2 ^ 31 \<Longrightarrow> at ` {..<n} \<inter> vars = {} \<Longrightarrow> console_event vars s s'"
| writes: "syscall_handler SYS_WRITE fd p len ns s = Some (Sys_return r ns' s') \<Longrightarrow> console_event vars s s'"
| unknown: "nr \<notin> {SYS_READ, SYS_WRITE, SYS_EXEC} \<Longrightarrow>
    syscall_handler nr a0 a1 a2 ns s = Some (Sys_return r ns' s') \<Longrightarrow> console_event vars s s'"

inductive console_events :: "u64 set \<Rightarrow> 'a kernel_scheme \<Rightarrow> 'a kernel_scheme \<Rightarrow> bool" for vars where
  none: "console_events vars s s"
| more: "console_event vars s s1 \<Longrightarrow> console_events vars s1 s' \<Longrightarrow> console_events vars s s'"

section \<open>The keyboard\<close>

text \<open>A step that keeps the console well-formed and stores to the screen only.\<close>

definition console_safe :: "'a kernel_scheme \<Rightarrow> 'a kernel_scheme \<Rightarrow> bool" where
  "console_safe s s' \<longleftrightarrow> console_ok s' \<and> console_step s s'"

lemma console_safe_trans: "console_safe s s1 \<Longrightarrow> console_safe s1 s2 \<Longrightarrow> console_safe s s2"
  using console_step_trans by (auto simp: console_safe_def)

lemma console_ok_ports [simp]: "console_ok (s\<lparr>io_trace := t\<rparr>) = console_ok s"
  by (simp add: console_ok_def term_inv_def)

lemma console_ok_outb [simp]: "console_ok (outb p v s) = console_ok s"
  by (simp add: outb_def)

lemma console_ok_backspace: "console_ok s \<Longrightarrow> console_ok (backspace s)"
  using backspace_index [of s] by (simp add: console_ok_def backspace_frame) (simp add: backspace_def Let_def term_inv_def)

lemma console_ok_put_char:
  assumes "console_ok s"
  shows "console_ok (put_char key s)"
proof -
  have "term_inv (term_puts [key] s)" using term_puts_refines [of s "[key]"] assms by (simp add: console_ok_def)
  moreover have "writing_index (put_char key s) = (if sint (writing_index s + 1) \<ge> 100 then 0 else writing_index s + 1)"
    by (simp add: put_char_def Let_def)
  then have "unat (writing_index (put_char key s)) < 100"
    using next_index [of "writing_index s"] assms by (simp only: console_ok_def)
  ultimately show ?thesis using assms
    by (simp add: console_ok_def) (simp add: put_char_def Let_def term_inv_def)
qed

lemma console_safe_ports: "console_ok s \<Longrightarrow> console_safe s (s\<lparr>io_trace := t\<rparr>)"
  by (simp add: console_safe_def console_step_def) (simp add: console_ok_def term_inv_def)

lemma console_safe_outb: "console_ok s \<Longrightarrow> console_safe s (outb p v s)"
  using console_safe_ports by (simp add: outb_def)

lemma console_safe_getkey: "getkey code s = Some (key, s') \<Longrightarrow> console_ok s \<Longrightarrow> console_safe s s'"
proof -
  assume "getkey code s = Some (key, s')" and ok: "console_ok s"
  then have "s' = s \<or> s' = backspace s" by (auto simp: getkey_def split: if_splits)
  moreover have inv: "term_inv s" using ok by (simp add: console_ok_def)
  have "console_step s (backspace s)"
    using inv unfolding console_step_def backspace_def Let_def term_inv_def by simp
  then have "console_safe s (backspace s)" using console_ok_backspace [OF ok] by (simp only: console_safe_def)
  moreover have "console_safe s s" using ok inv by (simp only: console_safe_def console_step_refl)
  ultimately show ?thesis by blast
qed

lemma console_safe_char_write:
  assumes "console_ok s"
  shows "\<exists>s'. char_write key s = Some s' \<and> console_safe s s'"
proof (cases "key = 0")
  case True
  moreover have "console_step s s" using assms by (simp add: console_ok_def)
  ultimately show ?thesis using assms by (auto simp: char_write_def console_safe_def)
next
  case False
  have "length (buffer s) = 100" "unat (writing_index s) < 100" "term_inv s" using assms by (simp_all add: console_ok_def)
  note P = char_write_put [OF False this(1,2)] put_char_frame(1) [OF this(3), of key]
  show ?thesis unfolding console_safe_def
    by (rule exI, intro conjI) (rule P(1), rule console_ok_put_char [OF assms], rule P(2))
qed

lemma getkey_None: "getkey code s = None \<longleftrightarrow> code = 0x80"
proof -
  have "unat code < 128 \<or> code = 0x80 \<or> 0x81 \<le> code" by (simp add: word_le_nat_alt word_unat_eq_iff) linarith
  then show ?thesis by (auto simp: getkey_def length_keys)
qed

lemma console_safe_keyboard:
  assumes "console_ok s"
  shows "keyboard_interrupt s = None \<longleftrightarrow> devices s (io_trace s) 0x60 = 0x80"
    "keyboard_interrupt s = Some s' \<Longrightarrow> console_safe s s'"
proof -
  let ?c = "devices s (io_trace s) 0x60" and ?s = "s\<lparr>io_trace := In 0x60 (devices s (io_trace s) 0x60) # io_trace s\<rparr>"
  have K: "keyboard_interrupt s = do { (key, s) \<leftarrow> getkey ?c ?s; s \<leftarrow> char_write key s; Some (outb PIC1_COMMAND PIC_EOI s) }"
    by (simp add: keyboard_interrupt_def inb_def Let_def)
  have w: "\<exists>s3. char_write key s2 = Some s3 \<and> console_safe s s3" if g: "getkey ?c ?s = Some (key, s2)" for key s2
  proof -
    have "console_safe s ?s" using assms by (rule console_safe_ports)
    moreover have "console_safe ?s s2" by (rule console_safe_getkey [OF g]) (use assms in simp)
    ultimately have s2: "console_safe s s2" by (rule console_safe_trans)
    then have "console_ok s2" by (simp add: console_safe_def)
    from console_safe_char_write [OF this, of key] s2 show ?thesis using console_safe_trans by blast
  qed
  show "keyboard_interrupt s = None \<longleftrightarrow> ?c = 0x80"
    using w getkey_None [of ?c ?s] by (cases "getkey ?c ?s") (fastforce simp: K)+
  have e: "console_safe s (outb PIC1_COMMAND PIC_EOI s3)" if "console_safe s s3" for s3
  proof -
    have "console_ok s3" using that by (simp add: console_safe_def)
    then show ?thesis using console_safe_trans [OF that console_safe_outb] by blast
  qed
  show "keyboard_interrupt s = Some s' \<Longrightarrow> console_safe s s'"
    using w e by (cases "getkey ?c ?s") (fastforce simp: K)+
qed

section \<open>Reading and writing\<close>

lemma console_safe_refl: "console_ok s \<Longrightarrow> console_safe s s"
  by (simp add: console_safe_def) (simp add: console_ok_def)

lemma console_safe_interrupts: "interrupts n s = Some s' \<Longrightarrow> console_ok s \<Longrightarrow> console_safe s s'"
proof (induction n arbitrary: s)
  case (Suc n)
  then obtain s1 where s1: "keyboard_interrupt s = Some s1" "interrupts n s1 = Some s'" by (auto split: Option.bind_splits)
  have "console_safe s s1" by (rule console_safe_keyboard(2) [OF Suc.prems(2) s1(1)])
  then show ?case using Suc.IH [OF s1(2)] console_safe_trans by (auto simp: console_safe_def)
qed (simp add: console_safe_refl)

lemma console_safe_wait: "kgetc_wait ns s = Some (ns', s') \<Longrightarrow> console_ok s \<Longrightarrow> console_safe s s'"
proof (induction ns arbitrary: s)
  case (Cons n ns)
  then obtain s1 where s1: "interrupts n s = Some s1" "(if buffer_length s1 = 0 then kgetc_wait ns s1 else Some (ns, s1)) = Some (ns', s')"
    by (auto split: Option.bind_splits)
  have S: "console_safe s s1" by (rule console_safe_interrupts [OF s1(1) Cons.prems(2)])
  then have "console_ok s1" by (simp add: console_safe_def)
  then show ?case using s1(2) S Cons.IH [of s1] console_safe_trans by (auto split: if_splits)
qed (auto simp: console_safe_refl split: if_splits)

lemma console_safe_take:
  assumes "console_ok s"
  shows "kgetc_take s = Some (buffer s ! unat (reading_index s), take_char s)" "console_safe s (take_char s)"
proof -
  show "kgetc_take s = Some (buffer s ! unat (reading_index s), take_char s)"
    using assms kgetc_take_eq [of s] by (simp add: console_ok_def)
  have "console_ok (take_char s)"
    using assms next_index [of "reading_index s"] by (simp add: console_ok_def take_char_def term_inv_def)
  moreover have "console_step s (take_char s)" using assms take_char_frame(1) [of s] by (simp add: console_ok_def)
  ultimately show "console_safe s (take_char s)" by (simp add: console_safe_def)
qed

lemma console_safe_kgetc:
  assumes "console_ok s" "kgetc_wait ns s = Some (ns', s1)"
  shows "\<exists>c s'. kgetc ns s = Some (c, ns', s') \<and> console_safe s s'"
proof -
  have S: "console_safe s s1" by (rule console_safe_wait [OF assms(2,1)])
  then have "console_ok s1" by (simp add: console_safe_def)
  from console_safe_take [OF this] console_safe_trans [OF S] show ?thesis using assms(2) by (auto simp: kgetc_def)
qed

lemma console_safe_kgetc_Some: "kgetc ns s = Some (c, ns', s') \<Longrightarrow> console_ok s \<Longrightarrow> console_safe s s'"
proof -
  assume k: "kgetc ns s = Some (c, ns', s')" and ok: "console_ok s"
  then obtain ns1 s1 where "kgetc_wait ns s = Some (ns1, s1)" by (auto simp: kgetc_def split: Option.bind_splits)
  from console_safe_kgetc [OF ok this] k show ?thesis by auto
qed

lemma console_ok_kread_loop:
  assumes buf: "writable_buffer s0 buf n at" and n: "n < 2147483648"
  shows "i \<le> n \<Longrightarrow> kread_loop buf (of_nat n) (int i) ns s = Some (ns', s') \<Longrightarrow> console_ok s \<Longrightarrow> read_step (at ` {..<n}) s0 s \<Longrightarrow>
    console_ok s' \<and> read_step (at ` {..<n}) s0 s'"
proof (induction "n - i" arbitrary: i s ns)
  case 0
  then show ?case by (subst (asm) kread_loop.simps) (auto simp: word_less_nat_alt)
next
  case (Suc d)
  then have i: "i < n" by simp
  then have lt: "(of_nat i :: u64) < of_nat n" using n by (simp add: word_less_nat_alt unat_of_nat)
  obtain c ns1 s1 s2 where s: "kgetc ns s = Some (c, ns1, s1)" "vwrite (buf + of_nat i) c s1 = Some s2"
    "kread_loop buf (of_nat n) (int (Suc i)) ns1 s2 = Some (ns', s')"
    using Suc.prems(2) lt by (subst (asm) kread_loop.simps) (auto simp: add.commute split: Option.bind_splits if_splits)
  have S: "console_safe s s1" by (rule console_safe_kgetc_Some [OF s(1) Suc.prems(3)])
  then have r1: "read_step (at ` {..<n}) s0 s1"
    using read_step_trans [OF Suc.prems(4)] read_step_console by (auto simp: console_safe_def)
  then have s2: "s2 = s1\<lparr>mem := (mem s1)(at i := c)\<rparr>"
    using s(2) read_step_buffer [OF buf r1 i] by (simp add: vwrite_def)
  have "read_step (at ` {..<n}) s0 s2" using r1 i by (auto simp: s2 read_step_def term_inv_def)
  moreover have "console_ok s2" using S by (simp add: s2 console_safe_def console_ok_def term_inv_def)
  moreover have "d = n - Suc i" "Suc i \<le> n" using Suc.hyps(2) i by simp_all
  ultimately show ?case using Suc.hyps(1) s(3) by blast
qed

lemma kwrite_loop_puts: "kwrite_loop b n i s = Some s' \<Longrightarrow> \<exists>cs. s' = term_puts cs s"
proof (induction b n i s rule: kwrite_loop.induct)
  case (1 b n i s)
  show ?case
  proof (cases "i < n")
    case True
    then obtain c where c: "kview s b = Some c" "kwrite_loop (pinc b) n (i + 1) (kprint_c c s) = Some s'"
      using "1.prems" by (subst (asm) kwrite_loop.simps) (auto split: Option.bind_splits)
    obtain cs where "s' = term_puts cs (kprint_c c s)" using "1.IH" [OF True c] by blast
    then have "s' = term_puts (c # cs) s" by (simp add: kprint_c_def)
    then show ?thesis by blast
  next
    case False
    then show ?thesis using "1.prems" by (subst (asm) kwrite_loop.simps) (auto intro: exI [of _ "[]"])
  qed
qed

lemma console_safe_puts:
  assumes "console_ok s"
  shows "console_safe s (term_puts cs s)"
proof -
  have "term_inv s" using assms by (simp add: console_ok_def)
  note P = term_puts_refines [OF this, of cs]
  have "console_ok (term_puts cs s)" using assms P by (simp add: console_ok_def)
  moreover have "console_step s (term_puts cs s)" using P by (simp add: console_step_def)
  ultimately show ?thesis by (simp add: console_safe_def)
qed

section \<open>Events\<close>

text \<open>What an event leaves: a well-formed console, the bytes of \<open>vars\<close>, the place of the screen.\<close>

definition event_safe :: "u64 set \<Rightarrow> 'a kernel_scheme \<Rightarrow> 'a kernel_scheme \<Rightarrow> bool" where
  "event_safe vars s s' \<longleftrightarrow> console_ok s' \<and> term_ptr s' = term_ptr s \<and>
     ((\<forall>b \<in> vars. 4000 \<le> b - term_ptr s) \<longrightarrow> (\<forall>b \<in> vars. mem s' b = mem s b))"

lemma event_safe_console: "console_safe s s' \<Longrightarrow> event_safe vars s s'"
  by (auto simp: event_safe_def console_safe_def console_step_def outside_vga_def)

lemma event_safe_event: "console_event vars s s' \<Longrightarrow> console_ok s \<Longrightarrow> event_safe vars s s'"
proof (induction rule: console_event.induct)
  case (key s s')
  then show ?case using console_safe_keyboard(2) event_safe_console by blast
next
  case (reads fd buf n ns s r ns' s' at)
  obtain ns1 where l: "kread_loop buf (of_nat n) (int 0) ns s = Some (ns1, s')"
    using reads.hyps(1) by (auto simp: syscall_handler_def kread_def split: Option.bind_splits)
  have "read_step (at ` {..<n}) s s" using reads.prems by (simp add: read_step_def console_ok_def)
  then have "console_ok s' \<and> read_step (at ` {..<n}) s s'"
    using console_ok_kread_loop [OF reads.hyps(2) _ le0 l reads.prems] reads.hyps(3) by simp
  moreover have "b \<notin> at ` {..<n}" if "b \<in> vars" for b using reads.hyps(4) that by blast
  ultimately show ?case by (auto simp: event_safe_def read_step_def)
next
  case (writes fd p len ns s r ns' s')
  then obtain l where "kwrite p len s = Some (l, s')" by (auto simp: syscall_handler_def split: Option.bind_splits)
  then obtain cs where "s' = term_puts cs s"
    using kwrite_loop_puts by (fastforce simp: kwrite_def split: Option.bind_splits)
  then show ?case using console_safe_puts [OF writes.prems] event_safe_console by blast
next
  case (unknown nr a0 a1 a2 ns s r ns' s')
  then show ?case using event_safe_console [OF console_safe_refl] by (auto simp: syscall_handler_def)
qed

lemma event_safe_events: "console_events vars s s' \<Longrightarrow> console_ok s \<Longrightarrow> event_safe vars s s'"
proof (induction rule: console_events.induct)
  case (none s)
  then show ?case using event_safe_console [OF console_safe_refl] by blast
next
  case (more s s1 s')
  then have "event_safe vars s s1" using event_safe_event by blast
  moreover from this have "event_safe vars s1 s'" using more.IH by (simp add: event_safe_def)
  ultimately show ?case by (auto simp: event_safe_def)
qed

text \<open>C7: type soundness of the console: through every sequence of keys (backspace included) and of
  \<open>read\<close> and \<open>write\<close> system calls that return, the buffer keeps its 100 characters, both indices
  stay inside it and the cursor stays on the screen. So whenever the loop in \<open>kgetc\<close> ends, \<open>kgetc\<close>
  returns a character of the buffer, and the one scan code whose interrupt indexes outside an
  array is 0x80. The reads are into writable buffers off the kernel's own variables \<open>vars\<close>,
  which are then not stored to (\<open>kread\<close> checks no address); keys arrive between system calls
  and at the reader's looks at the length, not inside \<open>term_putchar\<close>.\<close>

theorem console_type_safe:
  assumes "console_ok s" "\<forall>b \<in> vars. 4000 \<le> b - term_ptr s" "console_events vars s s'"
  shows "console_ok s' \<and> (\<forall>b \<in> vars. mem s' b = mem s b) \<and>
    (\<forall>ns ns1 s1. kgetc_wait ns s' = Some (ns1, s1) \<longrightarrow> (\<exists>c s2. kgetc ns s' = Some (c, ns1, s2) \<and> console_ok s2)) \<and>
    (keyboard_interrupt s' = None \<longleftrightarrow> devices s' (io_trace s') 0x60 = 0x80)"
proof -
  have E: "console_ok s'" "\<forall>b \<in> vars. mem s' b = mem s b"
    using event_safe_events [OF assms(3,1)] assms(2) by (simp_all add: event_safe_def)
  have "\<exists>c s2. kgetc ns s' = Some (c, ns1, s2) \<and> console_ok s2" if "kgetc_wait ns s' = Some (ns1, s1)" for ns ns1 s1
    using console_safe_kgetc [OF E(1) that] by (auto simp: console_safe_def)
  then show ?thesis using E console_safe_keyboard(1) [OF E(1)] by blast
qed

text \<open>The witness is a read of one character, typed while it waits.\<close>

theorem console_type_safe_witness:
  "\<exists>r ns' s'. syscall_handler SYS_READ (Addr 0) (Addr 0xFFFFFFFF80100000) (of_nat 1) [1] (kernel_machine (\<lambda>_. 0) [0x1E]) =
      Some (Sys_return r ns' s') \<and> console_ok s' \<and> mem s' 0xFFFFFFFF80200000 = 0"
proof -
  let ?s = "kernel_machine (\<lambda>_. 0) [0x1E]" and ?vars = "{0xFFFFFFFF80200000} :: u64 set"
  let ?at = "\<lambda>i. 0xFFFFFFFF80100000 + of_nat i :: u64"
  have ok: "console_ok ?s" by (simp add: console_ok_def kernel_machine_def term_inv_def)
  have v: "\<forall>b \<in> ?vars. 4000 \<le> b - term_ptr ?s" by (simp add: kernel_machine_def)
  have "upper_half 0xFFFFFFFF80100000" by (simp add: upper_half_iff)
  then have buf: "writable_buffer ?s 0xFFFFFFFF80100000 1 ?at"
    by (auto simp: writable_buffer_def kernel_machine_def vaddr_def inj_on_def)
  have t: "typed [0x1E] = [97]" by (simp add: a_key)
  obtain ns' s' where "kread 0xFFFFFFFF80100000 (of_nat 1) [1] ?s = Some (int 1, ns', s')"
    using kread_fifo [OF kernel_machine_facts _ _ _ _ buf, of "[1]"] t by auto
  then have r: "syscall_handler SYS_READ (Addr 0) (Addr 0xFFFFFFFF80100000) (of_nat 1) [1] ?s = Some (Sys_return 1 ns' s')"
    by (simp add: syscall_handler_def)
  have "console_events ?vars ?s s'"
    by (rule console_events.more [OF console_event.reads [OF r buf] console_events.none]) auto
  from console_type_safe [OF ok v this] r show ?thesis by (auto simp: kernel_machine_def)
qed

end
