(* ===== verification/Translate.thy ===== *)
theory Translate
  imports ExecStart
begin

text \<open>
  What \<open>translate\<close> (\<open>kernel/page.c\<close>) prints, as a text computed from the memory at its call,
  and its agreement with the processor's translation of the same address. The text of a
  format with integer arguments is \<open>printed\<close>, the meaning proved for \<open>kprintf\<close>.
\<close>

section \<open>The text\<close>

definition printed :: "string \<Rightarrow> va list \<Rightarrow> u8 list" where
  "printed format args = the (fmt_out format args)"

fun verdict :: "u64 \<Rightarrow> u64 option \<Rightarrow> u8 list" where
  "verdict a None = bytes_of ''   Not Present!\<newline>''"
| "verdict a (Some p) = printed ''%p maps to %p\<newline>'' [Va_int a, Va_int p]"

definition level_text :: "nat \<Rightarrow> u64 \<Rightarrow> u64 \<Rightarrow> pt_entry \<Rightarrow> u8 list" where
  "level_text i index table e =
     printed ''   level %d (index %d of %p)\<newline>'' [Va_int (of_nat i), Va_int index, Va_int table] @
     bytes_of (''      '' @ (if pte_user e then ''user '' else ''kernel '')) @
     bytes_of (if pte_writable e then ''writable '' else '''') @
     bytes_of (if pte_no_execute e then '''' else ''executable'') @
     printed '' ->  %p\<newline>'' [Va_int (pte_frame e)]"

fun walk_text :: "mem \<Rightarrow> u64 \<Rightarrow> u64 \<Rightarrow> nat \<Rightarrow> u64 \<Rightarrow> u8 list" where
  "walk_text m h a 0 p = verdict a (Some (p + table_index a 0))"
| "walk_text m h a (Suc i) p =
     (let e = get_pte m (p + h) (table_index a (Suc i))
      in if pte_present e
         then level_text (Suc i) (table_index a (Suc i)) (p + h) e @ walk_text m h a i (pte_frame e)
         else verdict a None)"

fun indices_text :: "nat \<Rightarrow> u64 \<Rightarrow> u8 list" where
  "indices_text 0 a = printed ''\<newline>   level %d index is: %p'' [Va_int 0, Va_int (table_index a 0)]"
| "indices_text (Suc i) a =
     printed ''\<newline>   level %d index is: %p'' [Va_int (of_nat (Suc i)), Va_int (table_index a (Suc i))] @ indices_text i a"

definition head_text :: "u64 \<Rightarrow> u8 list" where
  "head_text a = printed ''og address: %p'' [Va_int a] @ indices_text 4 a @ [10] @ printed ''Translating %p \<newline>'' [Va_int a]"

section \<open>The formats\<close>

lemma kprintf_printed:
  assumes "fmt_out f args \<noteq> None" "lit_args args" "CHR 0x00 \<notin> set f"
  shows "kprintf f args s = Some (term_puts (printed f args) s)"
  using kprintf_out [OF assms(2,3), of s] assms(1) by (auto simp: printed_def)

lemma translate_formats:
  "kprintf ''%p maps to %p\<newline>'' [Va_int a, Va_int b] s = Some (term_puts (printed ''%p maps to %p\<newline>'' [Va_int a, Va_int b]) s)"
  "kprintf ''   level %d (index %d of %p)\<newline>'' [Va_int a, Va_int b, Va_int c] s =
     Some (term_puts (printed ''   level %d (index %d of %p)\<newline>'' [Va_int a, Va_int b, Va_int c]) s)"
  "kprintf '' ->  %p\<newline>'' [Va_int a] s = Some (term_puts (printed '' ->  %p\<newline>'' [Va_int a]) s)"
  "kprintf ''\<newline>   level %d index is: %p'' [Va_int a, Va_int b] s =
     Some (term_puts (printed ''\<newline>   level %d index is: %p'' [Va_int a, Va_int b]) s)"
  "kprintf ''og address: %p'' [Va_int a] s = Some (term_puts (printed ''og address: %p'' [Va_int a]) s)"
  "kprintf ''Translating %p \<newline>'' [Va_int a] s = Some (term_puts (printed ''Translating %p \<newline>'' [Va_int a]) s)"
  by (rule kprintf_printed; simp add: conv_out_def lit_args_def)+

lemma translate_strings:
  "lit_ok cs \<Longrightarrow> kprintf ''%s'' [Va_str (Lit cs 0)] s = Some (term_puts (bytes_of cs) s)"
  "lit_ok cs \<Longrightarrow> kprintf ''      %s'' [Va_str (Lit cs 0)] s = Some (term_puts (bytes_of (''      '' @ cs)) s)"
  "kprintf ''   Not Present!\<newline>'' [] s = Some (term_puts (bytes_of ''   Not Present!\<newline>'') s)"
proof -
  show "lit_ok cs \<Longrightarrow> kprintf ''%s'' [Va_str (Lit cs 0)] s = Some (term_puts (bytes_of cs) s)"
    by (subst kprintf_out) (simp_all add: lit_args_def conv_out_def)
  show "lit_ok cs \<Longrightarrow> kprintf ''      %s'' [Va_str (Lit cs 0)] s = Some (term_puts (bytes_of (''      '' @ cs)) s)"
    by (subst kprintf_out) (simp_all add: lit_args_def conv_out_def bytes_of_def)
  show "kprintf ''   Not Present!\<newline>'' [] s = Some (term_puts (bytes_of ''   Not Present!\<newline>'') s)"
    by (rule kprintf_plain) simp_all
qed

section \<open>The walk\<close>

lemma table_index_0: "table_index a 0 = a AND 0xFFF"
proof -
  have m: "(0xFFF :: u64) = mask 12" by (simp add: mask_numeral)
  show ?thesis unfolding table_index_def indices_def m nth_Cons_0 by (rule bit_word_eqI) (auto simp: bit_simps)
qed

text \<open>Printing leaves the tables alone, so the entries are those of the call.\<close>

lemma translate_loop_text:
  assumes inv: "vm_inv s root ps" and low: "lower_half a"
  shows "i \<le> 4 \<Longrightarrow> pt_base (mem s) (hhdm_base s) root a (4 - i) = Some p \<Longrightarrow>
    translate_loop i a (hhdm_base s) p (p + hhdm_base s) (term_puts cs s) =
      Some (term_puts (cs @ walk_text (mem s) (hhdm_base s) a i p) (s :: 'a boot_scheme))"
proof (induction i arbitrary: p cs)
  case 0
  then show ?case by (simp add: translate_formats)
next
  case (Suc i)
  let ?j = "table_index a (Suc i)"
  note D = vm_invD [OF inv]
  have e: "get_pte (mem (term_puts xs s)) (p + hhdm_base s) ?j = get_pte (mem s) (p + hhdm_base s) ?j" for xs
  proof (rule get_pte_page_same)
    have t: "p \<in> tables_of s root" by (rule pt_tables_I [OF low _ Suc.prems(2)]) simp
    then have p: "aligned 12 p" "p \<noteq> VGA_BUFFER" using D(8) pt_tables_aligned [OF D(2)] by auto
    then show "page_same (mem s) (mem (term_puts xs s)) (p + hhdm_base s)"
      using term_puts_refines [OF D(6), of xs] D(7,10)
        aligned_add [of 12 p] aligned_add [of 12 VGA_BUFFER, OF _ D(10)]
      by (intro page_same_outside_vga [of "term_ptr s"]) (auto simp: word_aligned_12 [of VGA_BUFFER])
    show "?j < 512" using depth_index_less [of "4 - Suc i" a] Suc.prems(1) by (simp add: depth_index_def)
  qed
  let ?e = "get_pte (mem s) (p + hhdm_base s) ?j"
  have d: "depth_index a (3 - i) = ?j" using Suc.prems(1) by (simp add: depth_index_def)
  show ?case
  proof (cases "pte_present ?e")
    case True
    have "pt_base (mem s) (hhdm_base s) root a (Suc (4 - Suc i)) = Some (pte_frame ?e)"
      using Suc.prems(2) True by (simp add: d)
    moreover have "Suc (4 - Suc i) = 4 - i" using Suc.prems(1) by simp
    ultimately have "pt_base (mem s) (hhdm_base s) root a (4 - i) = Some (pte_frame ?e)" by metis
    note IH = Suc.IH [OF _ this, of "cs @ level_text (Suc i) ?j (p + hhdm_base s) ?e"]
    have "lit_ok ''user ''" "lit_ok ''kernel ''" "lit_ok ''writable ''" "lit_ok ''''" "lit_ok ''executable''"
      by (simp_all add: lit_ok_def)
    then show ?thesis using IH Suc.prems(1) True
      by (simp add: translate_formats translate_strings e Let_def level_text_def flip: term_puts_append)
  next
    case False
    then show ?thesis by (simp add: e translate_strings flip: term_puts_append)
  qed
qed

lemma walk_text_verdict:
  "i \<le> 4 \<Longrightarrow> pt_base m h root a (4 - i) = Some p \<Longrightarrow>
   \<exists>levels. walk_text m h a i p = levels @ verdict a (map_option (\<lambda>f. f + table_index a 0) (pt_base m h root a 4))"
proof (induction i arbitrary: p)
  case 0
  then show ?case by (intro exI [of _ "[]"]) (simp del: pt_base.simps)
next
  case (Suc i)
  let ?e = "get_pte m (p + h) (table_index a (Suc i))"
  have n: "Suc (4 - Suc i) = 4 - i" "depth_index a (4 - Suc i) = table_index a (Suc i)"
    using Suc.prems(1) by (simp_all add: depth_index_def)
  have b: "pt_base m h root a (Suc (4 - Suc i)) = (if pte_present ?e then Some (pte_frame ?e) else None)"
    unfolding pt_base.simps(2) Suc.prems(2) n(2) by (simp add: Let_def)
  show ?case
  proof (cases "pte_present ?e")
    case True
    have "pt_base m h root a (4 - i) = Some (pte_frame ?e)" using b True n(1) by metis
    from Suc.IH [OF _ this] Suc.prems(1) obtain levels where
      "walk_text m h a i (pte_frame ?e) = levels @ verdict a (map_option (\<lambda>f. f + table_index a 0) (pt_base m h root a 4))"
      by auto
    then show ?thesis using True
      by (intro exI [of _ "level_text (Suc i) (table_index a (Suc i)) (p + h) ?e @ levels"])
        (simp add: Let_def del: pt_base.simps)
  next
    case False
    have "pt_base m h root a (4 - i) = None" using b False n(1) by metis
    then have "pt_base m h root a 4 = None" by (rule pt_base_None_mono) simp
    then show ?thesis using False by (intro exI [of _ "[]"]) (simp add: Let_def del: pt_base.simps)
  qed
qed

lemma pt_base_leaf: "pt_base m h root a 4 = map_option pte_frame (pt_leaf m h root a)"
  using pt_base.simps(2) [of m h root a 3]
  by (simp add: pt_leaf_def Let_def numeral_eq_Suc del: pt_base.simps split: option.split)

lemma print_indices_text: "print_indices i a s = Some (term_puts (indices_text i a) s)"
  by (induction i arbitrary: s) (simp_all add: translate_formats)

section \<open>Properties\<close>

text \<open>C6: \<open>translate\<close> and the processor agree: in a well-formed address space it prints, for every
  lower-half address, the indices, one line per level of the walk with that entry's
  permissions, and then the physical address that the processor translates the address to, or
  that it is not present where the processor faults. Printing changes no table on the way.\<close>

theorem translate_agrees:
  assumes "vm_inv s (cr3 s) ps" "cr3 s < 2 ^ 52" "lower_half a" "get_hhdm s = Some (hhdm_base s)"
  shows "translate a s = Some (term_puts (head_text a @ walk_text (mem s) (hhdm_base s) a 4 (cr3 s)) s) \<and>
    (\<exists>levels. walk_text (mem s) (hhdm_base s) a 4 (cr3 s) = levels @ verdict a (map_option tr_phys (mmu_translate s a)))"
proof
  have "read_cr3 s AND 0xFFFFFFFFFFFFF000 = cr3 s"
    using cr3_mask [OF vm_invD(11) [OF assms(1)]] by (simp add: read_cr3_def)
  then show "translate a s = Some (term_puts (head_text a @ walk_text (mem s) (hhdm_base s) a 4 (cr3 s)) s)"
    using translate_loop_text [OF assms(1,3), of 4 "cr3 s" "head_text a"] assms(4)
    by (simp add: translate_def Let_def translate_formats print_indices_text kprint_c_def head_text_def)
  have "map_option tr_phys (mmu_translate s a) =
      map_option (\<lambda>f. f + table_index a 0) (pt_base (mem s) (hhdm_base s) (cr3 s) a 4)"
    unfolding pt_base_leaf mmu_translate_leaf [OF assms(1-3)]
    by (simp add: option.map_comp comp_def table_index_0 page_offset)
  then show "\<exists>levels. walk_text (mem s) (hhdm_base s) a 4 (cr3 s) = levels @ verdict a (map_option tr_phys (mmu_translate s a))"
    using walk_text_verdict [of 4 "mem s" "hhdm_base s" "cr3 s" a "cr3 s"] by simp
qed

text \<open>A machine with the tag of the direct map and the page at \<open>user_base\<close> mapped.\<close>

definition tag_words :: "(u64 \<times> u64) list" where
  "tag_words = [(0xFFFFFFFF80001080, 0xFFFFFFFF80002000), (0xFFFFFFFF80002000, STIVALE2_STRUCT_TAG_HHDM_ID),
     (0xFFFFFFFF80002010, 0xFFFF800000000000)]"

definition tag_machine :: boot where
  "tag_machine = foldr pmem_free [0x2000, 0x3000, 0x4000, 0x5000] (module_machine\<lparr>mem := words_mem tag_words\<rparr>)"

lemma tag_machine_facts:
  "vm_inv tag_machine 0x1000 [0x2000, 0x3000, 0x4000, 0x5000]" "tables_of tag_machine 0x1000 = {0x1000}"
  "hhdm_base tag_machine = 0xFFFF800000000000" "cr3 tag_machine = 0x1000" "hdr tag_machine = 0xFFFFFFFF80001000"
  "\<And>b. 0xFFFFFFFF80000000 \<le> b \<Longrightarrow> mem tag_machine b = words_mem tag_words b"
proof -
  have "\<forall>p \<in> set [0x2000, 0x3000, 0x4000, 0x5000 :: u64]. unat p < 0x100000000" by simp
  note G = freed_machine_facts [OF four_pages_ok this, where ws = tag_words, folded tag_machine_def]
  show "vm_inv tag_machine 0x1000 [0x2000, 0x3000, 0x4000, 0x5000]" "tables_of tag_machine 0x1000 = {0x1000}"
    "hhdm_base tag_machine = 0xFFFF800000000000" "cr3 tag_machine = 0x1000" "hdr tag_machine = 0xFFFFFFFF80001000"
    "\<And>b. 0xFFFFFFFF80000000 \<le> b \<Longrightarrow> mem tag_machine b = words_mem tag_words b" by (rule G)+
qed

lemma tag_get_hhdm:
  fixes s :: "'a boot_scheme"
  assumes "hdr s = 0xFFFFFFFF80001000" "\<forall>b. 0xFFFFFFFF80000000 \<le> b \<longrightarrow> mem s b = words_mem tag_words b"
  shows "get_hhdm s = Some 0xFFFF800000000000"
proof -
  have ok: "words_ok tag_words" by (simp add: words_ok_def tag_words_def)
  have w: "(a, v) \<in> set tag_words \<Longrightarrow> vload s a 8 = Some v" for a v by (rule words_mem_vload [OF ok _ assms(2)])
  have "find_tag s 0xFFFFFFFF80001000 STIVALE2_STRUCT_TAG_HHDM_ID = Some 0xFFFFFFFF80002000"
    using w [of "0xFFFFFFFF80001080"] w [of "0xFFFFFFFF80002000"]
    by (simp add: find_tag_def tag_words_def) (simp add: find_tag_loop.simps)
  then show ?thesis using w [of "0xFFFFFFFF80002010"] by (simp add: get_hhdm_def assms(1) tag_words_def)
qed

lemma tag_mapped:
  "\<exists>s' ps. vm_map 0x1000 user_base True True False tag_machine = Some (True, s') \<and> vm_inv s' 0x1000 ps \<and> cr3 s' = 0x1000 \<and>
    leaf_of s' 0x1000 user_base \<noteq> None \<and> get_hhdm s' = Some (hhdm_base s')"
proof -
  note F = tag_machine_facts
  let ?ps = "[0x2000, 0x3000, 0x4000, 0x5000] :: u64 list"
  obtain s' n where s': "vm_map 0x1000 user_base True True False tag_machine = Some (True, s')" "vm_inv s' 0x1000 (drop n ?ps)"
    "grown (set ?ps) 0x1000 tag_machine s'" "\<exists>e. leaf_of s' 0x1000 user_base = Some e"
    using map_user_page [OF F(1) user_base_lower only_root_unmapped [OF F(1,2) user_base_lower]] by auto
  have "page_base a - hhdm_base tag_machine \<noteq> x" if "a \<in> high" "x \<in> insert 0x1000 (set ?ps)" for a x
    using page_base_far [of a x] that by (auto simp: F(3))
  then have "safe tag_machine 0x1000 (set ?ps) high" using F(2) by (auto simp: safe_def)
  note same = safe_grown(2) [OF this s'(3) vm_invD(10) [OF F(1)]]
  have c: "same_cpu tag_machine s'" using s'(3) by (simp add: grown_def)
  have "hdr s' = 0xFFFFFFFF80001000" using c F(5) hdr_of_more [of s' tag_machine] by (simp add: same_cpu_def)
  moreover have "\<forall>b. 0xFFFFFFFF80000000 \<le> b \<longrightarrow> mem s' b = words_mem tag_words b" using same F(6) by simp
  ultimately have "get_hhdm s' = Some (hhdm_base s')" using tag_get_hhdm [of s'] c F(3) by (simp add: same_cpu_def)
  then show ?thesis using s'(1,2,4) c F(4)
    by (intro exI [of _ s'] exI [of _ "drop n ?ps"]) (auto simp: same_cpu_def)
qed

theorem translate_agrees_witness:
  "\<exists>s' t out. vm_map 0x1000 user_base True True False tag_machine = Some (True, s') \<and> mmu_translate s' user_base = Some t \<and>
    translate user_base s' = Some (term_puts (out @ verdict user_base (Some (tr_phys t))) s')"
proof -
  obtain s' ps where s': "vm_map 0x1000 user_base True True False tag_machine = Some (True, s')" "vm_inv s' (cr3 s') ps"
    "cr3 s' = 0x1000" "leaf_of s' (cr3 s') user_base \<noteq> None" "get_hhdm s' = Some (hhdm_base s')"
    using tag_mapped by auto
  have c: "cr3 s' < 2 ^ 52" by (simp add: s'(3))
  obtain t where t: "mmu_translate s' user_base = Some t"
    using mmu_translate_leaf [OF s'(2) c user_base_lower] s'(4) by auto
  note A = translate_agrees [OF s'(2) c user_base_lower s'(5), unfolded t option.map]
  obtain levels where "walk_text (mem s') (hhdm_base s') user_base 4 (cr3 s') = levels @ verdict user_base (Some (tr_phys t))"
    using A by blast
  then have "translate user_base s' = Some (term_puts ((head_text user_base @ levels) @ verdict user_base (Some (tr_phys t))) s')"
    using A by simp
  then show ?thesis using s'(1) t by blast
qed

end
