(* ===== verification/Spec2Isabelle.thy ===== *)
theory Spec2Isabelle
  imports ShellExample SyscallType Translate
begin

text \<open>
  A verification library for the teaching kernel in this repository: a 64-bit kernel booted by
  Limine (stivale2) that prints on the VGA text screen, keeps physical pages in a free list,
  builds page tables, reads the keyboard by interrupt and runs ELF modules in user mode
  behind three system calls.

  The state is one record, extended by each component in the order in which the C files keep
  their globals: \<open>machine\<close> (byte memory, CR0, CR3, \<open>hhdm_base\<close>, the privileged
  instructions executed, the port traffic and the devices that answer it), \<open>terminal\<close>,
  \<open>kmem\<close> (\<open>freelist\<close>, \<open>free_page_counter\<close>), \<open>boot\<close> (\<open>hdr\<close>), \<open>kernel\<close> (the keyboard buffer) and
  \<open>system\<close> (the descriptor tables). An operation takes the state and returns it changed; None
  is undefined behaviour, a processor fault, or a loop that does not end. All page tables,
  the free list, the screen, the tags and the ELF files are in the byte memory, as in C; a
  pointer dereference by the loader, the string functions or the system calls goes through
  the page tables (\<open>vread\<close>, \<open>vwrite\<close>).

  The theories, and the sources they translate (paths under \<open>src/\<close>):

  \<^item> \<open>Prelude\<close>: integer types, collections of rewrite rules, aligned addresses.
  \<^item> \<open>Machine\<close>: the machine and \<open>kernel/port.h\<close>; control registers of \<open>kernel/page.c\<close> and
    \<open>kernel/boot.c\<close>; little-endian loads and stores.
  \<^item> \<open>CMemory\<close> (\<open>stdlib/memory.c\<close>): \<open>memset\<close>, \<open>memcpy\<close>, with the int counter's overflow.
  \<^item> \<open>Terminal\<close> (\<open>kernel/boot.c\<close>, \<open>term_\<close> functions): a refinement of an abstract screen.
  \<^item> \<open>PageTable\<close> (\<open>kernel/page.c\<close>, \<open>pt_entry_t\<close>): entries, indices, and the processor's walk, which
    reads the words of the tables by bit numbers and not through the structure.
  \<^item> \<open>CString\<close> (\<open>stdlib/string.c\<close>) and \<open>Kprint\<close> (\<open>kernel/kprint.c\<close>): every function, with the
    digits printed for every number and what a format string prints.
  \<^item> \<open>PhysMem\<close> (\<open>pmem_alloc\<close>, \<open>pmem_free\<close>): the locale \<open>page_allocator\<close> is the contract the
    rest relies on, interpreted on the two functions.
  \<^item> \<open>AddrSpace\<close>, \<open>Pages\<close>: the tree of tables in memory, its well-formedness \<open>pt_wf\<close>, the
    invariant \<open>vm_inv\<close> that keeps tables, free pages and screen apart, and what one changed
    entry does to every translation.
  \<^item> \<open>VirtMem\<close>: \<open>vm_map\<close>, \<open>vm_unmap\<close>, \<open>vm_protect\<close> on every branch.
  \<^item> \<open>Stivale\<close> (\<open>kernel/mem.c\<close>, \<open>kernel/stivale2.h\<close>): tags and the memory map.
  \<^item> \<open>MemInit\<close>, \<open>TableTree\<close>: \<open>unmap_lower_half\<close>, \<open>mem_init\<close> and \<open>translate\<close> of \<open>kernel/page.c\<close>;
    they establish \<open>vm_inv\<close> from what the bootloader hands over.
  \<^item> \<open>Keyboard\<close>, \<open>Console\<close> (\<open>kernel/systemcalls.c\<close>, \<open>keyboard_interrupt\<close>): the circular buffer,
    an interpretation of the locale \<open>bounded_queue\<close>; \<open>kread\<close> and \<open>kwrite\<close> down to the user's
    buffer, for every schedule of interrupts that the buffer has room for (\<open>paced\<close>).
  \<^item> \<open>KeyboardSteps\<close>: \<open>kgetc\<close> access by access with interrupts in between, a step relation with
    its invariant; the increment of the index and the decrement of the volatile length are each
    a load and a store.
  \<^item> \<open>Pic\<close> (\<open>kernel/pic.c\<close>): what the bytes sent make of two 8259A controllers, initialisation
    included. \<open>Gdt\<close> (\<open>kernel/gdt.c\<close>), \<open>Idt\<close> (\<open>kernel/interrupts.c\<close>): descriptor tables, with what
    the processor finds in them.
  \<^item> \<open>Exec\<close>, \<open>WordsMem\<close>, \<open>Launch\<close> (\<open>kernel/executables.c\<close>): \<open>exec_setup\<close>, example memories, and
    the branches on which no program starts.
  \<^item> \<open>AddrGrow\<close>, \<open>Loader\<close>, \<open>ExecStart\<close>: address spaces that grow by mapped pages, one segment, the
    program header table and the stack as sequences of such steps, and the program that
    \<open>exec_setup\<close> starts: what user mode sees at every lower-half address.
  \<^item> \<open>Translate\<close>: the text that \<open>translate\<close> of \<open>kernel/page.c\<close> prints and its agreement with the
    processor's walk.
  \<^item> \<open>Kernel\<close>: \<open>syscall_handler\<close>, the wrappers of \<open>stdlib/io.c\<close> and \<open>stdlib/process.c\<close>, and
    \<open>_start\<close> of \<open>kernel/boot.c\<close>.
  \<^item> \<open>UserMode\<close>, \<open>UserProgs\<close> (\<open>init/init.c\<close>, \<open>echo/echo.c\<close>, \<open>wait/wait.c\<close>): what a system call
    leaves of user memory and the address space, and the three programs on the calls.
  \<^item> \<open>Shell\<close>, \<open>ShellExample\<close>: the command loop of \<open>init\<close> on typed input, with an example machine,
    and what becomes of its \<open>exec\<close>.
  \<^item> \<open>SyscallType\<close>: the well-formed console states, which every key, \<open>read\<close> and \<open>write\<close> keeps.

  Assumptions that are not proved are hypotheses of the theorems: the keyboard controller
  answers successive reads with the scan codes typed (\<open>typing\<close>), which are neither backspace nor
  0x80 where a theorem follows characters (\<open>plain_keys\<close>), an interrupt controller in operation
  gives its mask when its data port is read (\<open>masks_read_back\<close>), the bootloader's structures lie in upper-half
  memory that holds no page table (\<open>boot_memory\<close>, \<open>boot_info\<close>, \<open>apart\<close>).

  Bounds. A counter of type int that would pass \<open>2 ^ 31 - 1\<close> is None, so its loop ends; the
  loops that C does not bound (\<open>strlen\<close>, \<open>find_tag\<close>, the memory map, the stack pages) are
  partial functions, and the theorems say that they return. A schedule of interrupts is a
  finite list: \<open>kgetc\<close> is None when it ends with nothing to read, and the theorem on \<open>kread\<close>
  holds for every schedule that delivers the characters asked for.

  Not modelled. Stores to the kernel's own variables through a pointer: the buffer, the indices,
  the cursor and the other globals are fields of the record and not bytes of the memory, so the
  theorems speak of pointers that lie elsewhere. Keyboard interrupts inside \<open>kwrite\<close> and
  \<open>term_putchar\<close>: keys arrive between system calls and at the looks at the length in \<open>kgetc\<close>, and
  in \<open>KeyboardSteps\<close> between any two accesses of \<open>kgetc\<close>. The overflow of the int
  \<open>free_page_counter\<close>, which would take \<open>2 ^ 31\<close> pages, wraps; an int passed to \<open>kprintf\<close> and read
  as 64 bits is zero-extended. A store one past \<open>modname\<close> in \<open>init\<close> is a store to that byte of the
  stack. Cached translations: every change of a mapping is followed by \<open>invlpg\<close> or a
  load of CR3 in the source, both recorded. The assembly stubs, the linker scripts and the
  build files; the tags of \<open>kernel/stivale2.h\<close> that no code reads; \<open>kernel/testing.c\<close>, all
  commented out; \<open>halt\<close>, whose effect is that a handler's or
  \<open>_start\<close>'s result is final.
\<close>

end
